(* ===== verification/GoPrelude.thy ===== *)
theory GoPrelude
  imports Main "HOL-Library.Word" "HOL-Library.Signed_Division" "HOL-Library.Multiset"
begin

text \<open>
  Shared vocabulary of the development: the Go runtime notions every component uses.

  \<^item> A point in time (\<open>time.Time\<close>) is the number of nanoseconds since Go's zero
    time, so \<open>IsZero\<close> is \<open>t = 0\<close>; a \<open>time.Duration\<close> is a number of nanoseconds.
    Every operation that reads the clock takes the reading as an argument \<open>now\<close>.
  \<^item> A \<open>context.Context\<close> is the value \<open>ctx.Err()\<close> returns: None while the context is
    live, otherwise the reason.
  \<^item> A Go function that returns \<open>(T, error)\<close> is a function into \<open>err + T\<close>.
  \<^item> \<open>int64\<close> is \<open>64 word\<close> read by \<open>sint\<close>; its division truncates towards zero.
  \<^item> A Go string is the list of its bytes (\<open>string\<close>, a \<open>char\<close> is a byte).
\<close>

section \<open>Collections of hints\<close>

named_theorems frame_simps \<open>fields an operation does not write\<close>
named_theorems inv_intros \<open>operations preserve the invariants of their component\<close>
named_theorems model_defs \<open>definitions that unfold a handler to its branches\<close>

section \<open>Time and contexts\<close>

type_synonym gotime = int
type_synonym duration = int

datatype ctx_err = Canceled | DeadlineExceeded

type_synonym ctx = "ctx_err option"

abbreviation (input) time_IsZero :: "gotime \<Rightarrow> bool" where
  "time_IsZero t \<equiv> t = 0"

abbreviation (input) time_After :: "gotime \<Rightarrow> gotime \<Rightarrow> bool" where
  "time_After t u \<equiv> t > u"

section \<open>Results\<close>

text \<open>The value of a call that may fail; the early return \<open>if err != nil { return err }\<close>.\<close>

definition res_bind :: "'e + 'a \<Rightarrow> ('a \<Rightarrow> 'e + 'b) \<Rightarrow> 'e + 'b" where
  "res_bind r f = (case r of Inl e \<Rightarrow> Inl e | Inr x \<Rightarrow> f x)"

lemma res_bind_simps [simp]:
  "res_bind (Inl e) f = Inl e"
  "res_bind (Inr x) f = f x"
  by (simp_all add: res_bind_def)

lemma res_bind_eq_Inr:
  "res_bind r f = Inr y \<longleftrightarrow> (\<exists>x. r = Inr x \<and> f x = Inr y)"
  by (cases r) simp_all

definition is_ok :: "'e + 'a \<Rightarrow> bool" where
  "is_ok r = (case r of Inl _ \<Rightarrow> False | Inr _ \<Rightarrow> True)"

lemma is_ok_simps [simp]: "is_ok (Inr x)" "\<not> is_ok (Inl e)"
  by (simp_all add: is_ok_def)

section \<open>Lists\<close>

lemma list_all_update:
  "list_all P xs \<Longrightarrow> P y \<Longrightarrow> list_all P (xs[i := y])"
  unfolding list_all_iff by (auto dest: set_update_subset_insert [THEN subsetD])

lemma sum_list_update_add:
  fixes xs :: "'a::ab_group_add list"
  assumes "i < length xs"
  shows "sum_list (xs[i := xs ! i + d]) = sum_list xs + d"
  using assms
proof (induction xs arbitrary: i)
  case (Cons x xs)
  then show ?case by (cases i) (simp_all add: algebra_simps)
qed simp

lemma sum_list_map_le:
  fixes f g :: "'a \<Rightarrow> 'b::{ordered_ab_semigroup_add, comm_monoid_add}"
  assumes "\<And>x. x \<in> set xs \<Longrightarrow> f x \<le> g x"
  shows "sum_list (map f xs) \<le> sum_list (map g xs)"
  using assms by (induction xs) (auto intro: add_mono)

text \<open>The element a key selects: the first of a list with a property, and its removal.\<close>

fun remove_first :: "('a \<Rightarrow> bool) \<Rightarrow> 'a list \<Rightarrow> 'a list" where
  "remove_first P [] = []"
| "remove_first P (x # xs) = (if P x then xs else x # remove_first P xs)"

lemma remove_first_none [simp]: "\<not> list_ex P xs \<Longrightarrow> remove_first P xs = xs"
  by (induction xs) auto

lemma length_remove_first:
  "list_ex P xs \<Longrightarrow> Suc (length (remove_first P xs)) = length xs"
  by (induction xs) auto

lemma set_remove_first: "set (remove_first P xs) \<subseteq> set xs"
  by (induction xs) auto

section \<open>Signed machine integers\<close>

type_synonym int64 = "64 word"
type_synonym uint64 = "64 word"
type_synonym uint32 = "32 word"

text \<open>Go's \<open>/\<close> and \<open>%\<close> on \<open>int64\<close>; a zero divisor panics, and every use checks for it.\<close>

definition quot64 :: "int64 \<Rightarrow> int64 \<Rightarrow> int64" where
  "quot64 a b = word_of_int (sint a sdiv sint b)"

definition rem64 :: "int64 \<Rightarrow> int64 \<Rightarrow> int64" where
  "rem64 a b = word_of_int (sint a smod sint b)"

definition in_int64 :: "int \<Rightarrow> bool" where
  "in_int64 x \<longleftrightarrow> - (2 ^ 63) \<le> x \<and> x < 2 ^ 63"

lemma in_int64_sint [simp]: "in_int64 (sint (a :: int64))"
  using sint_range_size [of a] by (simp add: in_int64_def word_size)

lemma in_int64_nonneg: "0 \<le> x \<Longrightarrow> x < 2 ^ 63 \<Longrightarrow> in_int64 x"
  by (simp add: in_int64_def)

lemma sint_eq_0_iff64: "sint (a :: int64) = 0 \<longleftrightarrow> a = 0"
  by (metis signed_0 signed_word_eqI)

lemma sint_of_int64: "in_int64 x \<Longrightarrow> sint (word_of_int x :: int64) = x"
  by (simp add: in_int64_def sint_sbintrunc' signed_take_bit_int_eq_self_iff)

lemma sint_add64: "in_int64 (sint a + sint b) \<Longrightarrow> sint (a + b :: int64) = sint a + sint b"
  using sint_of_int64 [of "sint a + sint b"] by (simp add: wi_hom_syms)

lemma sint_sub64: "in_int64 (sint a - sint b) \<Longrightarrow> sint (a - b :: int64) = sint a - sint b"
  using sint_of_int64 [of "sint a - sint b"] by (simp add: wi_hom_syms)

lemma sint_mult64: "in_int64 (sint a * sint b) \<Longrightarrow> sint (a * b :: int64) = sint a * sint b"
  using sint_of_int64 [of "sint a * sint b"] by (simp add: wi_hom_syms)

lemma sint_uminus64: "in_int64 (- sint a) \<Longrightarrow> sint (- a :: int64) = - sint a"
  using sint_of_int64 [of "- sint a"] by (simp add: wi_hom_syms)


section \<open>Counters of 32 bits and the wall clock\<close>

type_synonym int32 = "32 word"

definition in_int32 :: "int \<Rightarrow> bool" where
  "in_int32 x \<longleftrightarrow> - (2 ^ 31) \<le> x \<and> x < 2 ^ 31"

lemma sint_of_int32: "in_int32 x \<Longrightarrow> sint (word_of_int x :: int32) = x"
  by (simp add: in_int32_def sint_sbintrunc' signed_take_bit_int_eq_self_iff)

lemma sint_add32: "in_int32 (sint a + sint b) \<Longrightarrow> sint (a + b :: int32) = sint a + sint b"
  using sint_of_int32 [of "sint a + sint b"] by (simp add: wi_hom_syms)

lemma sint_sub32: "in_int32 (sint a - sint b) \<Longrightarrow> sint (a - b :: int32) = sint a - sint b"
  using sint_of_int32 [of "sint a - sint b"] by (simp add: wi_hom_syms)

text \<open>\<open>UnixNano\<close>: nanoseconds since 1970, which is 62135596800 seconds after the zero time.\<close>

definition unix_epoch :: gotime where
  "unix_epoch = 62135596800 * 10 ^ 9"

definition UnixNano :: "gotime \<Rightarrow> int64" where
  "UnixNano t = word_of_int (t - unix_epoch)"

lemma sint_UnixNano: "in_int64 (t - unix_epoch) \<Longrightarrow> sint (UnixNano t) = t - unix_epoch"
  unfolding UnixNano_def by (rule sint_of_int64)

end
