(* ===== verification/GoDecimal.thy ===== *)
theory GoDecimal
  imports GoPrelude
begin

text \<open>
  Decimal text: what the sources use of Go's \<open>strconv\<close> (\<open>FormatInt\<close>, \<open>ParseInt\<close> in
  base 10 and 64 bits) and of \<open>strings\<close> (\<open>TrimSpace\<close>, \<open>Index\<close>, \<open>Repeat\<close>), on strings as
  byte lists, with the round trip of printing and parsing.
\<close>

section \<open>Digits\<close>

definition digit_char :: "nat \<Rightarrow> char" where
  "digit_char d = char_of (48 + d)"

definition digit_val :: "char \<Rightarrow> nat" where
  "digit_val c = of_char c - 48"

definition is_digit :: "char \<Rightarrow> bool" where
  "is_digit c \<longleftrightarrow> 48 \<le> (of_char c :: nat) \<and> (of_char c :: nat) \<le> 57"

lemma of_char_digit_char: "d < 10 \<Longrightarrow> of_char (digit_char d) = 48 + d"
  unfolding digit_char_def by (simp add: of_char_of)

lemma is_digit_digit_char [simp]: "d < 10 \<Longrightarrow> is_digit (digit_char d)"
  by (simp add: is_digit_def of_char_digit_char)

lemma digit_val_digit_char [simp]: "d < 10 \<Longrightarrow> digit_val (digit_char d) = d"
  by (simp add: digit_val_def of_char_digit_char)

lemma digit_val_less: "is_digit c \<Longrightarrow> digit_val c < 10"
  by (auto simp: is_digit_def digit_val_def)

section \<open>Printing and reading natural numbers\<close>

fun dec_nat :: "nat \<Rightarrow> string" where
  "dec_nat n = (if n < 10 then [digit_char n]
     else dec_nat (n div 10) @ [digit_char (n mod 10)])"

declare dec_nat.simps [simp del]

definition val_nat :: "string \<Rightarrow> nat" where
  "val_nat s = foldl (\<lambda>a c. a * 10 + digit_val c) 0 s"

lemma val_nat_Nil [simp]: "val_nat [] = 0"
  by (simp add: val_nat_def)

lemma val_nat_snoc [simp]: "val_nat (s @ [c]) = val_nat s * 10 + digit_val c"
  by (simp add: val_nat_def)

lemma dec_nat_nonempty [simp]: "dec_nat n \<noteq> []"
  by (subst dec_nat.simps) simp

lemma dec_nat_digits: "list_all is_digit (dec_nat n)"
proof (induction n rule: dec_nat.induct)
  case (1 n)
  then show ?case by (cases "n < 10") (auto simp: dec_nat.simps [of n])
qed

lemma val_nat_dec_nat [simp]: "val_nat (dec_nat n) = n"
proof (induction n rule: dec_nat.induct)
  case (1 n)
  show ?case
  proof (cases "n < 10")
    case True
    then show ?thesis by (simp add: dec_nat.simps [of n] val_nat_def)
  next
    case False
    with 1 show ?thesis by (simp add: dec_nat.simps [of n])
  qed
qed

lemma val_nat_append: "val_nat (s @ t) = val_nat s * 10 ^ length t + val_nat t"
proof (induction t rule: rev_induct)
  case (snoc c t)
  have "val_nat (s @ t @ [c]) = val_nat ((s @ t) @ [c])" by simp
  also have "\<dots> = (val_nat s * 10 ^ length t + val_nat t) * 10 + digit_val c"
    unfolding val_nat_snoc using snoc by simp
  finally show ?case by (simp add: algebra_simps)
qed simp

lemma val_nat_less: "list_all is_digit s \<Longrightarrow> val_nat s < 10 ^ length s"
proof (induction s rule: rev_induct)
  case (snoc c s)
  then have "val_nat s < 10 ^ length s" "digit_val c < 10"
    by (auto intro: digit_val_less)
  then have "val_nat s * 10 + digit_val c < (val_nat s + 1) * 10" "val_nat s + 1 \<le> 10 ^ length s"
    by auto
  then have "val_nat s * 10 + digit_val c < 10 ^ length s * 10"
    by (meson less_le_trans mult_le_mono1)
  then show ?case by (simp add: mult.commute)
qed simp

lemma val_nat_zeros [simp]: "val_nat (replicate n (CHR ''0'')) = 0"
  by (induction n) (simp_all add: val_nat_def digit_val_def)

lemma val_nat_zeros_append [simp]: "val_nat (replicate n (CHR ''0'') @ s) = val_nat s"
  by (simp add: val_nat_append)

lemma length_dec_nat_le: "n < 10 ^ k \<Longrightarrow> 0 < k \<Longrightarrow> length (dec_nat n) \<le> k"
proof (induction n arbitrary: k rule: dec_nat.induct)
  case (1 n)
  show ?case
  proof (cases "n < 10")
    case True
    with 1 show ?thesis by (simp add: dec_nat.simps [of n])
  next
    case False
    with "1.prems" have "k \<noteq> 1" by auto
    with "1.prems" obtain j where k: "k = Suc j" "0 < j" by (cases k) auto
    with "1.prems" have "n div 10 < 10 ^ j" by (simp add: less_mult_imp_div_less)
    with "1.IH" False k have "length (dec_nat (n div 10)) \<le> j" by simp
    with False k show ?thesis by (simp add: dec_nat.simps [of n])
  qed
qed

section \<open>strconv\<close>

definition FormatInt :: "int \<Rightarrow> string" where
  "FormatInt i = (if i < 0 then CHR ''-'' # dec_nat (nat (- i)) else dec_nat (nat i))"

text \<open>
  \<open>ParseInt(s, 10, 64)\<close>: an optional sign and one or more digits; None stands for both of
  its errors (\<open>ErrSyntax\<close>, \<open>ErrRange\<close>), which the sources do not tell apart.
\<close>

definition parse_digits :: "string \<Rightarrow> nat option" where
  "parse_digits s = (if s \<noteq> [] \<and> list_all is_digit s then Some (val_nat s) else None)"

definition ParseInt :: "string \<Rightarrow> int64 option" where
  "ParseInt s =
     (let neg = (s \<noteq> [] \<and> hd s = CHR ''-'');
          body = (if s \<noteq> [] \<and> (hd s = CHR ''-'' \<or> hd s = CHR ''+'') then tl s else s)
      in case parse_digits body of
           None \<Rightarrow> None
         | Some n \<Rightarrow>
             let i = (if neg then - int n else int n)
             in if in_int64 i then Some (word_of_int i) else None)"

lemma ParseInt_digits:
  assumes "s \<noteq> []" "list_all is_digit s"
  shows "ParseInt s = (if val_nat s < 2 ^ 63 then Some (word_of_int (int (val_nat s))) else None)"
proof -
  from assms have "is_digit (hd s)" by (cases s) auto
  then have "hd s \<noteq> CHR ''-''" "hd s \<noteq> CHR ''+''"
    by (auto simp: is_digit_def)
  moreover have "int (val_nat s) < 2 ^ 63 \<longleftrightarrow> val_nat s < 2 ^ 63"
    by (metis of_nat_less_numeral_power_cancel_iff)
  ultimately show ?thesis
    using assms by (auto simp: ParseInt_def parse_digits_def in_int64_def)
qed

lemma ParseInt_sint:
  "s \<noteq> [] \<Longrightarrow> list_all is_digit s \<Longrightarrow> ParseInt s = Some w \<Longrightarrow> sint w = int (val_nat s)"
  using sint_of_int64 [of "int (val_nat s)"]
  by (auto simp: ParseInt_digits in_int64_def split: if_splits)

lemma ParseInt_dec_nat:
  "n < 2 ^ 63 \<Longrightarrow> ParseInt (dec_nat n) = Some (word_of_int (int n))"
  by (simp add: ParseInt_digits dec_nat_digits)

section \<open>strings\<close>

text \<open>\<open>strings.Index(s, c)\<close> for a one-byte separator, with None for -1.\<close>

fun index_byte :: "char \<Rightarrow> string \<Rightarrow> nat option" where
  "index_byte c [] = None"
| "index_byte c (x # xs) = (if x = c then Some 0 else map_option Suc (index_byte c xs))"

lemma index_byte_append:
  "c \<notin> set s \<Longrightarrow> index_byte c (s @ c # t) = Some (length s)"
  by (induction s) auto

lemma index_byte_None: "index_byte c s = None \<longleftrightarrow> c \<notin> set s"
  by (induction s) auto

text \<open>
  The UTF-8 encodings of the characters \<open>unicode.IsSpace\<close> accepts. A decoder starting at
  the first byte (or looking back from the last one) finds such a character exactly when
  its encoding is a prefix (a suffix).
\<close>

definition space_seqs :: "string list" where
  "space_seqs =
     map (map char_of)
       ([[9], [10], [11], [12], [13], [32], [0xC2, 0x85], [0xC2, 0xA0], [0xE1, 0x9A, 0x80],
         [0xE2, 0x80, 0xA8], [0xE2, 0x80, 0xA9], [0xE2, 0x80, 0xAF], [0xE2, 0x81, 0x9F],
         [0xE3, 0x80, 0x80]]
        @ map (\<lambda>b. [0xE2, 0x80, b]) [0x80, 0x81, 0x82, 0x83, 0x84, 0x85, 0x86, 0x87, 0x88,
             0x89, 0x8A :: nat])"

definition is_prefix :: "'a list \<Rightarrow> 'a list \<Rightarrow> bool" where
  "is_prefix p s \<longleftrightarrow> take (length p) s = p"

lemma drop_found_prefix_less:
  assumes "List.find (\<lambda>p. p \<noteq> [] \<and> is_prefix p s) ps = Some p"
  shows "length (drop (length p) s) < length s"
proof -
  from assms have "p \<noteq> []" "take (length p) s = p"
    by (auto simp: find_Some_iff is_prefix_def)
  then have "s \<noteq> []" by auto
  with \<open>p \<noteq> []\<close> show ?thesis by simp
qed

text \<open>Drop one of the given sequences from the front as long as there is one.\<close>

function trim_left :: "string list \<Rightarrow> string \<Rightarrow> string" where
  "trim_left ps s =
     (case List.find (\<lambda>p. p \<noteq> [] \<and> is_prefix p s) ps of
        None \<Rightarrow> s
      | Some p \<Rightarrow> trim_left ps (drop (length p) s))"
  by pat_completeness auto
termination
  by (relation "measure (\<lambda>(ps, s). length s)")
    (auto dest: drop_found_prefix_less)

declare trim_left.simps [simp del]

definition TrimSpace :: "string \<Rightarrow> string" where
  "TrimSpace s = rev (trim_left (map rev space_seqs) (rev (trim_left space_seqs s)))"

definition plain_char :: "char \<Rightarrow> bool" where
  "plain_char c \<longleftrightarrow> 32 < (of_char c :: nat) \<and> (of_char c :: nat) < 128"

lemma trim_left_stop:
  "(\<And>p. p \<in> set ps \<Longrightarrow> p \<noteq> [] \<Longrightarrow> \<not> is_prefix p s) \<Longrightarrow> trim_left ps s = s"
  by (subst trim_left.simps) (auto simp: find_Some_iff split: option.splits)

lemma space_seqs_ends:
  assumes "p \<in> set space_seqs"
  shows "p \<noteq> []" "\<not> plain_char (hd p)" "\<not> plain_char (last p)"
  using assms by (auto simp: space_seqs_def plain_char_def of_char_of)

lemma TrimSpace_plain:
  assumes "s \<noteq> []" "plain_char (hd s)" "plain_char (last s)"
  shows "TrimSpace s = s"
proof -
  have "\<not> is_prefix p s" if "p \<in> set space_seqs" for p
    using space_seqs_ends [OF that] assms
    by (cases p; cases s) (auto simp: is_prefix_def)
  then have front: "trim_left space_seqs s = s"
    by (intro trim_left_stop) auto
  have "\<not> is_prefix (rev p) (rev s)" if "p \<in> set space_seqs" for p
  proof -
    from that have "hd (rev p) \<noteq> hd (rev s)"
      using space_seqs_ends [OF that] assms by (auto simp: hd_rev)
    with that space_seqs_ends(1) [OF that] assms show ?thesis
      by (cases "rev p"; cases "rev s") (auto simp: is_prefix_def)
  qed
  then have "trim_left (map rev space_seqs) (rev s) = rev s"
    by (intro trim_left_stop) auto
  with front show ?thesis by (simp add: TrimSpace_def)
qed

lemma plain_char_digit: "is_digit c \<Longrightarrow> plain_char c"
  by (simp add: is_digit_def plain_char_def)

text \<open>\<open>leftPad\<close>-style padding keeps the value.\<close>

lemma list_all_replicate_zero [simp]: "list_all is_digit (replicate n (CHR ''0''))"
  by (simp add: list_all_iff is_digit_def)

end
