(* ===== verification/Float64.thy ===== *)
theory Float64
  imports GoPrelude Complex_Main "HOL-Library.Log_Nat"
begin

text \<open>
  Go's \<open>float64\<close> on the values the modelled code computes: finite numbers in the normal
  range, so a double is the rational it denotes, and every operation rounds its exact
  result to the nearest multiple of a 53-bit unit in the last place, ties to even.
  Infinities, NaN, negative zero, overflow and subnormal numbers are outside the model:
  the sources only form quotients and sums of machine integers, which stay far from both
  ends of the exponent range.
\<close>

type_synonym float64 = rat

section \<open>Rounding to the nearest integer, ties to even\<close>

definition rne :: "rat \<Rightarrow> int" where
  "rne x = (let f = \<lfloor>x\<rfloor>; r = x - of_int f
            in if r < 1/2 then f else if r > 1/2 then f + 1 else if even f then f else f + 1)"

lemma rne_of_int [simp]: "rne (of_int i) = i"
  by (simp add: rne_def)

lemma rne_mono:
  assumes "x \<le> y"
  shows "rne x \<le> rne y"
proof (cases "\<lfloor>x\<rfloor> = \<lfloor>y\<rfloor>")
  case True
  with assms show ?thesis by (auto simp: rne_def Let_def)
next
  case False
  with assms have "\<lfloor>x\<rfloor> < \<lfloor>y\<rfloor>" by (meson floor_mono order_le_less)
  then have "\<lfloor>x\<rfloor> + 1 \<le> \<lfloor>y\<rfloor>" by simp
  moreover have "rne x \<le> \<lfloor>x\<rfloor> + 1" "\<lfloor>y\<rfloor> \<le> rne y" by (auto simp: rne_def Let_def)
  ultimately show ?thesis by linarith
qed

lemma rne_nonneg: "0 \<le> x \<Longrightarrow> 0 \<le> rne x"
  using rne_mono [of 0 x] rne_of_int [of 0] by simp

section \<open>The exponent of a positive number\<close>

text \<open>\<open>ilog2 x\<close> is the floor of the binary logarithm, computed on integers.\<close>

definition ilog2 :: "rat \<Rightarrow> int" where
  "ilog2 x =
     (if 1 \<le> x then int (floorlog 2 (nat \<lfloor>x\<rfloor>)) - 1
      else - int (floorlog 2 (nat (\<lceil>1 / x\<rceil> - 1))))"

abbreviation pow2 :: "int \<Rightarrow> rat" where
  "pow2 e \<equiv> power_int 2 e"

lemma pow2_pos [simp]: "0 < pow2 e"
  by (simp add: zero_less_power_int)

lemma pow2_mono: "a \<le> b \<Longrightarrow> pow2 a \<le> pow2 b"
  by (simp add: power_int_increasing)

lemma pow2_of_nat: "pow2 (int n) = 2 ^ n"
  by simp

lemma floorlog_bounds_nat:
  assumes "0 < (m::nat)"
  shows "2 ^ (floorlog 2 m - 1) \<le> m" "m < 2 ^ floorlog 2 m" "0 < floorlog 2 m"
  using floorlog_bounds [of m 2] assms by (auto simp: floorlog_def)

lemma ilog2_bounds:
  assumes "0 < x"
  shows "pow2 (ilog2 x) \<le> x" "x < pow2 (ilog2 x + 1)"
proof -
  have "pow2 (ilog2 x) \<le> x \<and> x < pow2 (ilog2 x + 1)"
  proof (cases "1 \<le> x")
    case True
    define m where "m = nat \<lfloor>x\<rfloor>"
    define k where "k = floorlog 2 m"
    from True have m: "0 < m" by (simp add: m_def)
    have fl: "of_nat m \<le> x" "x < of_nat m + 1"
      using True by (simp_all add: m_def of_nat_nat) linarith
    from floorlog_bounds_nat [OF m] have k: "2 ^ (k - 1) \<le> m" "m < 2 ^ k" "0 < k"
      by (simp_all add: k_def)
    have "pow2 (int k - 1) = 2 ^ (k - 1)"
      using k(3) pow2_of_nat [of "k - 1"] by (simp add: of_nat_diff)
    also have "\<dots> \<le> (of_nat m :: rat)"
      using k(1) by (metis of_nat_le_iff of_nat_numeral of_nat_power)
    finally have lo: "pow2 (int k - 1) \<le> x" using fl(1) by simp
    have "m + 1 \<le> 2 ^ k" using k(2) by simp
    then have "(of_nat (m + 1) :: rat) \<le> 2 ^ k"
      by (metis of_nat_le_iff of_nat_numeral of_nat_power)
    with fl(2) have "x < pow2 (int k)" by (simp add: pow2_of_nat)
    with lo True show ?thesis by (simp add: ilog2_def m_def k_def)
  next
    case False
    define y where "y = 1 / x"
    define c where "c = nat (\<lceil>y\<rceil> - 1)"
    define k where "k = floorlog 2 c"
    from assms False have y: "1 < y" by (simp add: y_def)
    then have "1 < \<lceil>y\<rceil>" by (simp add: less_ceiling_iff)
    then have c: "0 < c" "of_nat c = (of_int \<lceil>y\<rceil> - 1 :: rat)" by (auto simp: c_def of_nat_nat)
    have cy: "of_nat c < y" "y \<le> of_nat c + 1"
      using c(2) ceiling_correct [of y] by linarith+
    from floorlog_bounds_nat [OF c(1)] have k: "2 ^ (k - 1) \<le> c" "c < 2 ^ k" "0 < k"
      by (simp_all add: k_def)
    have "(of_nat (c + 1) :: rat) \<le> 2 ^ k"
      using k(2) by (metis Suc_eq_plus1 Suc_leI of_nat_le_iff of_nat_numeral of_nat_power)
    then have "y \<le> 2 ^ k" using cy(2) by simp
    then have lo: "1 / 2 ^ k \<le> x"
      using assms y by (simp add: y_def field_simps)
    have "(2 ^ (k - 1) :: rat) \<le> of_nat c"
      using k(1) by (metis of_nat_le_iff of_nat_numeral of_nat_power)
    then have "2 ^ (k - 1) < y" using cy(1) by (rule le_less_trans)
    then have hi: "x < 1 / 2 ^ (k - 1)"
      using assms y by (simp add: y_def field_simps)
    have p1: "pow2 (- int k) = 1 / 2 ^ k"
      by (simp add: power_int_minus divide_inverse)
    have "1 - int k = - int (k - 1)" using k(3) by (simp add: of_nat_diff)
    then have p2: "pow2 (1 - int k) = 1 / 2 ^ (k - 1)"
      by (simp only: power_int_minus pow2_of_nat) (simp add: divide_inverse)
    from False have "ilog2 x = - int k" by (simp add: ilog2_def k_def c_def y_def)
    with lo hi p1 p2 show ?thesis by simp
  qed
  then show "pow2 (ilog2 x) \<le> x" "x < pow2 (ilog2 x + 1)" by simp_all
qed

lemma ilog2_mono:
  assumes "0 < x" "x \<le> y"
  shows "ilog2 x \<le> ilog2 y"
proof (rule ccontr)
  assume "\<not> ?thesis"
  then have "ilog2 y + 1 \<le> ilog2 x" by simp
  then have "pow2 (ilog2 y + 1) \<le> pow2 (ilog2 x)" by (rule pow2_mono)
  with ilog2_bounds [of x] ilog2_bounds [of y] assms show False by linarith
qed

section \<open>Rounding to a double\<close>

definition ulp :: "rat \<Rightarrow> rat" where
  "ulp x = pow2 (ilog2 x - 52)"

definition round_pos :: "rat \<Rightarrow> rat" where
  "round_pos x = of_int (rne (x / ulp x)) * ulp x"

definition f64 :: "rat \<Rightarrow> float64" where
  "f64 x = (if x = 0 then 0 else if x < 0 then - round_pos (- x) else round_pos x)"

text \<open>The division of two integers converted to \<open>float64\<close>.\<close>

definition fdiv64 :: "int \<Rightarrow> int \<Rightarrow> float64" where
  "fdiv64 a b = f64 (f64 (of_int a) / f64 (of_int b))"

lemma ulp_pos [simp]: "0 < ulp x"
  by (simp add: ulp_def)

lemma ulp_nonneg [simp]: "0 \<le> ulp x"
  by (simp add: less_imp_le)

lemma pow2_shift: "pow2 (e + int n) = of_int (2 ^ n) * pow2 e"
  by (simp add: power_int_add)

lemma rne_ge: "of_int N \<le> z \<Longrightarrow> N \<le> rne z"
  using rne_mono [of "of_int N" z] by simp

lemma rne_le: "z \<le> of_int N \<Longrightarrow> rne z \<le> N"
  using rne_mono [of z "of_int N"] by simp

lemma round_pos_ge: "of_int N * ulp x \<le> x \<Longrightarrow> of_int N * ulp x \<le> round_pos x"
  unfolding round_pos_def using rne_ge [of N "x / ulp x"]
  by (intro mult_right_mono) (simp_all add: pos_le_divide_eq)

lemma round_pos_le: "x \<le> of_int N * ulp x \<Longrightarrow> round_pos x \<le> of_int N * ulp x"
  unfolding round_pos_def using rne_le [of "x / ulp x" N]
  by (intro mult_right_mono) (simp_all add: pos_divide_le_eq)

lemma round_pos_bounds:
  assumes "0 < x"
  shows "pow2 (ilog2 x) \<le> round_pos x" "round_pos x \<le> pow2 (ilog2 x + 1)"
proof -
  have lo: "pow2 (ilog2 x) = of_int (2 ^ 52) * ulp x"
    using pow2_shift [of "ilog2 x - 52" 52] by (simp only: ulp_def) simp
  have hi: "pow2 (ilog2 x + 1) = of_int (2 ^ 53) * ulp x"
    using pow2_shift [of "ilog2 x - 52" 53] by (simp only: ulp_def) (simp add: add.commute)
  show "pow2 (ilog2 x) \<le> round_pos x"
    unfolding lo by (rule round_pos_ge) (use lo ilog2_bounds(1) [OF assms] in metis)
  show "round_pos x \<le> pow2 (ilog2 x + 1)"
    unfolding hi by (rule round_pos_le) (use hi ilog2_bounds(2) [OF assms] in \<open>metis less_imp_le\<close>)
qed

lemma round_pos_pos: "0 < x \<Longrightarrow> 0 < round_pos x"
  using round_pos_bounds(1) [of x] pow2_pos [of "ilog2 x"] by linarith

lemma round_pos_mono:
  assumes "0 < x" "x \<le> y"
  shows "round_pos x \<le> round_pos y"
proof (cases "ilog2 x = ilog2 y")
  case True
  then have u: "ulp x = ulp y" by (simp add: ulp_def)
  from assms have "x / ulp y \<le> y / ulp y" by (simp add: divide_right_mono less_imp_le)
  then have "rne (x / ulp y) \<le> rne (y / ulp y)" by (rule rne_mono)
  then show ?thesis
    unfolding round_pos_def u by (intro mult_right_mono) (auto simp: less_imp_le)
next
  case False
  with ilog2_mono [OF assms] have "ilog2 x + 1 \<le> ilog2 y" by simp
  then have "pow2 (ilog2 x + 1) \<le> pow2 (ilog2 y)" by (rule pow2_mono)
  with round_pos_bounds [of x] round_pos_bounds [of y] assms show ?thesis by linarith
qed

lemma f64_0 [simp]: "f64 0 = 0"
  by (simp add: f64_def)

lemma f64_pos: "0 < x \<Longrightarrow> 0 < f64 x"
  by (simp add: f64_def round_pos_pos)

lemma f64_neg: "x < 0 \<Longrightarrow> f64 x < 0"
  by (simp add: f64_def round_pos_pos)

lemma f64_mono: "x \<le> y \<Longrightarrow> f64 x \<le> f64 y"
  using round_pos_mono [of x y] round_pos_mono [of "- y" "- x"]
    round_pos_pos [of y] round_pos_pos [of "- x"]
  by (auto simp: f64_def not_less intro: less_imp_le)

lemma f64_1 [simp]: "f64 1 = 1"
proof -
  have "ilog2 1 = 0" by (simp add: ilog2_def floorlog_def)
  then have one: "of_int (2 ^ 52) * ulp 1 = 1"
    using pow2_shift [of "-52" 52] by (simp add: ulp_def)
  then have "1 \<le> round_pos 1" "round_pos 1 \<le> 1"
    using round_pos_ge [of "2 ^ 52" 1] round_pos_le [of 1 "2 ^ 52"] by (simp_all only: order_refl)
  then have "round_pos 1 = 1" by simp
  then show ?thesis by (simp add: f64_def)
qed

lemma fdiv64_0 [simp]: "fdiv64 0 b = 0"
  by (simp add: fdiv64_def)

lemma fdiv64_self: "0 < a \<Longrightarrow> fdiv64 a a = 1"
  using f64_pos [of "of_int a"] by (simp add: fdiv64_def)

lemma fdiv64_mono: "a \<le> b \<Longrightarrow> 0 < c \<Longrightarrow> fdiv64 a c \<le> fdiv64 b c"
  unfolding fdiv64_def using f64_pos [of "of_int c"]
  by (intro f64_mono divide_right_mono) auto

lemma fdiv64_pos: "0 < a \<Longrightarrow> 0 < b \<Longrightarrow> 0 < fdiv64 a b"
  unfolding fdiv64_def by (intro f64_pos divide_pos_pos) auto

lemma fdiv64_neg: "a < 0 \<Longrightarrow> 0 < b \<Longrightarrow> fdiv64 a b < 0"
  unfolding fdiv64_def by (intro f64_neg divide_neg_pos f64_pos) (auto simp: f64_neg)

lemma fdiv64_le_1: "a \<le> b \<Longrightarrow> 0 < b \<Longrightarrow> fdiv64 a b \<le> 1"
  using fdiv64_mono [of a b b] fdiv64_self [of b] by simp

end
