(* ===== verification/Money.thy ===== *)
theory Money
  imports GoDecimal Float64 "HOL-Library.Char_ord" "HOL-Library.List_Lexorder"
begin

text \<open>
  The package \<open>common/money\<close> (file \<open>money.go\<close>): amounts as \<open>int64\<close> counts of the
  smallest unit of a currency. Every operation is modelled on 64-bit words, so the
  wrap-around of the code is the wrap-around of the model; the lemmas say under which
  bounds the result is the exact one. Strings are byte lists, so \<open><\<close> on currency codes is
  the byte order of Go.
\<close>

section \<open>Data\<close>

datatype money_error =
    ErrCurrencyMismatch
  | ErrDivisionByZero
  | ErrInvalidAmount
  | ErrUnknownCurrency
  | ErrNoAllocationParts
  | ErrNegativeAllocationPart

definition currencyPrecision :: "(string \<times> nat) list" where
  "currencyPrecision =
    [(''USD'', 2), (''EUR'', 2), (''GBP'', 2), (''CNY'', 2), (''JPY'', 0), (''KRW'', 0),
     (''CHF'', 2), (''CAD'', 2), (''AUD'', 2), (''NZD'', 2), (''HKD'', 2), (''SGD'', 2),
     (''INR'', 2), (''RUB'', 2), (''BRL'', 2), (''MXN'', 2), (''ZAR'', 2), (''SEK'', 2),
     (''NOK'', 2), (''DKK'', 2), (''PLN'', 2), (''TRY'', 2), (''THB'', 2), (''PHP'', 2),
     (''MYR'', 2), (''IDR'', 2), (''VND'', 0), (''TWD'', 2), (''ILS'', 2), (''AED'', 2),
     (''SAR'', 2), (''CLP'', 0), (''ISK'', 0), (''UGX'', 0), (''RWF'', 0), (''BIF'', 0),
     (''DJF'', 0), (''GNF'', 0), (''KMF'', 0), (''PYG'', 0), (''VUV'', 0), (''XAF'', 0),
     (''XOF'', 0), (''XPF'', 0), (''BHD'', 3), (''IQD'', 3), (''JOD'', 3), (''KWD'', 3),
     (''LYD'', 3), (''OMR'', 3), (''TND'', 3)]"

definition CurrencyPrecision :: "string \<Rightarrow> nat" where
  "CurrencyPrecision currency =
     (case map_of currencyPrecision currency of Some p \<Rightarrow> p | None \<Rightarrow> 2)"

text \<open>
  The rounding modes. \<open>RoundingMode\<close> is an \<open>int\<close> in Go; \<open>OtherMode\<close> stands for a value
  outside the five constants, which the switch sends to its default branch.
\<close>

datatype RoundingMode = RoundHalfUp | RoundHalfDown | RoundHalfEven | RoundDown | RoundUp | OtherMode int

record money =
  amount :: int64
  currency :: string

definition money_New :: "int64 \<Rightarrow> string \<Rightarrow> money" where
  "money_New a c = \<lparr>amount = a, currency = c\<rparr>"

section \<open>Rounding a decimal\<close>

fun pow10 :: "nat \<Rightarrow> int64" where
  "pow10 0 = 1"
| "pow10 (Suc n) = pow10 n * 10"

definition hasNonZero :: "string \<Rightarrow> bool" where
  "hasNonZero s = list_ex (\<lambda>c. c \<noteq> CHR ''0'') s"

text \<open>The switch over the modes: whether the digits beyond the precision round up.\<close>

definition money_roundUp :: "RoundingMode \<Rightarrow> string \<Rightarrow> int64 \<Rightarrow> bool" where
  "money_roundUp mode rest fracVal =
     (rest \<noteq> [] \<and>
      (case mode of
         RoundHalfUp \<Rightarrow> hd rest \<ge> CHR ''5''
       | RoundHalfDown \<Rightarrow>
           (if hd rest > CHR ''5'' then True
            else if hd rest = CHR ''5'' then hasNonZero (tl rest) else False)
       | RoundHalfEven \<Rightarrow>
           (if hd rest > CHR ''5'' then True
            else if hd rest = CHR ''5'' then hasNonZero (tl rest) \<or> rem64 fracVal 2 \<noteq> 0
            else False)
       | RoundDown \<Rightarrow> False
       | RoundUp \<Rightarrow> hasNonZero rest
       | OtherMode _ \<Rightarrow> hd rest \<ge> CHR ''5''))"

text \<open>
  \<open>Round\<close> starts from the shortest decimal text of its \<open>float64\<close> argument
  (\<open>strconv.FormatFloat(value, 'f', -1, 64)\<close>) and works on that text only; the model takes
  the text.
\<close>

definition split_point :: "string \<Rightarrow> string \<times> string" where
  "split_point s =
     (case index_byte (CHR ''.'') s of
        Some dot \<Rightarrow> (take dot s, drop (dot + 1) s)
      | None \<Rightarrow> (s, []))"

definition money_Round :: "string \<Rightarrow> string \<Rightarrow> RoundingMode \<Rightarrow> money" where
  "money_Round text cur mode =
     (let precision = CurrencyPrecision cur in
      if text = ''NaN'' \<or> text = ''Inf'' \<or> text = ''-Inf'' \<or> text = ''+Inf'' then money_New 0 cur
      else
        let negative = (text \<noteq> [] \<and> hd text = CHR ''-'');
            s = (if negative then tl text else text);
            (intPart, fracPart) = split_point s;
            kept = take precision fracPart;
            kept = kept @ replicate (precision - length kept) (CHR ''0'');
            rest = drop precision fracPart
        in case ParseInt intPart of
             None \<Rightarrow> money_New 0 cur
           | Some intVal \<Rightarrow>
               (case (if kept \<noteq> [] then ParseInt kept else Some 0) of
                  None \<Rightarrow> money_New 0 cur
                | Some fracVal \<Rightarrow>
                    let amt = intVal * pow10 precision + fracVal;
                        amt = (if money_roundUp mode rest fracVal then amt + 1 else amt);
                        amt = (if negative then - amt else amt)
                    in money_New amt cur))"

definition money_FromDecimal :: "string \<Rightarrow> string \<Rightarrow> money" where
  "money_FromDecimal text cur = money_Round text cur RoundHalfUp"

section \<open>Parsing and formatting\<close>

text \<open>After the sign: split at the dot, validate the digits, pad or truncate the fraction.\<close>

definition parse_unsigned :: "string \<Rightarrow> nat \<Rightarrow> int64 option" where
  "parse_unsigned s precision =
     (let dot = index_byte (CHR ''.'') s;
          (intPart, fracPart) = split_point s;
          intPart = (if intPart = [] then ''0'' else intPart)
      in if intPart = ''0'' \<and> fracPart = [] \<and> dot \<noteq> None then None
         else if \<not> list_all is_digit intPart then None
         else if \<not> list_all is_digit fracPart then None
         else
           let frac = (if length fracPart > precision then take precision fracPart
                       else fracPart @ replicate (precision - length fracPart) (CHR ''0''))
           in case ParseInt intPart of
                None \<Rightarrow> None
              | Some intVal \<Rightarrow>
                  (case (if frac \<noteq> [] then ParseInt frac else Some 0) of
                     None \<Rightarrow> None
                   | Some fracVal \<Rightarrow> Some (intVal * pow10 precision + fracVal)))"

definition money_Parse :: "string \<Rightarrow> string \<Rightarrow> money_error + money" where
  "money_Parse s0 cur =
     (let s1 = TrimSpace s0 in
      if s1 = [] then Inl ErrInvalidAmount
      else
        let negative = (hd s1 = CHR ''-'');
            s = (if negative then tl s1 else if hd s1 = CHR ''+'' then tl s1 else s1)
        in case parse_unsigned s (CurrencyPrecision cur) of
             None \<Rightarrow> Inl ErrInvalidAmount
           | Some amt \<Rightarrow> Inr (money_New (if negative then - amt else amt) cur))"

definition money_leftPad :: "string \<Rightarrow> nat \<Rightarrow> string" where
  "money_leftPad s n =
     (if length s \<ge> n then s else replicate (n - length s) (CHR ''0'') @ s)"

definition money_Format :: "money \<Rightarrow> string" where
  "money_Format m =
     (let precision = CurrencyPrecision (currency m);
          scale = pow10 precision;
          negative = (sint (amount m) < 0);
          abs = (if negative then - amount m else amount m);
          intPart = quot64 abs scale;
          fracPart = rem64 abs scale;
          s = (if precision = 0 then FormatInt (sint intPart)
               else FormatInt (sint intPart) @ ''.'' @
                    money_leftPad (FormatInt (sint fracPart)) precision)
      in if negative then CHR ''-'' # s else s)"

definition money_String :: "money \<Rightarrow> string" where
  "money_String m = currency m @ '' '' @ money_Format m"

section \<open>Arithmetic and comparison\<close>

definition money_Add :: "money \<Rightarrow> money \<Rightarrow> money_error + money" where
  "money_Add m other =
     (if currency m \<noteq> currency other then Inl ErrCurrencyMismatch
      else Inr (money_New (amount m + amount other) (currency m)))"

definition money_Sub :: "money \<Rightarrow> money \<Rightarrow> money_error + money" where
  "money_Sub m other =
     (if currency m \<noteq> currency other then Inl ErrCurrencyMismatch
      else Inr (money_New (amount m - amount other) (currency m)))"

definition money_Mul :: "money \<Rightarrow> int64 \<Rightarrow> money" where
  "money_Mul m n = money_New (amount m * n) (currency m)"

definition money_Div :: "money \<Rightarrow> int64 \<Rightarrow> money_error + money" where
  "money_Div m n =
     (if n = 0 then Inl ErrDivisionByZero
      else Inr (money_New (quot64 (amount m) n) (currency m)))"

definition money_DivMod :: "money \<Rightarrow> int64 \<Rightarrow> money_error + (money \<times> money)" where
  "money_DivMod m n =
     (if n = 0 then Inl ErrDivisionByZero
      else Inr (money_New (quot64 (amount m) n) (currency m),
                money_New (rem64 (amount m) n) (currency m)))"

definition money_Neg :: "money \<Rightarrow> money" where
  "money_Neg m = money_New (- amount m) (currency m)"

definition money_Abs :: "money \<Rightarrow> money" where
  "money_Abs m = (if sint (amount m) < 0 then money_New (- amount m) (currency m) else m)"

definition money_IsZero :: "money \<Rightarrow> bool" where
  "money_IsZero m \<longleftrightarrow> amount m = 0"

definition money_IsPositive :: "money \<Rightarrow> bool" where
  "money_IsPositive m \<longleftrightarrow> sint (amount m) > 0"

definition money_IsNegative :: "money \<Rightarrow> bool" where
  "money_IsNegative m \<longleftrightarrow> sint (amount m) < 0"

definition money_Equal :: "money \<Rightarrow> money \<Rightarrow> bool" where
  "money_Equal m other \<longleftrightarrow> currency m = currency other \<and> amount m = amount other"

definition money_Compare :: "money \<Rightarrow> money \<Rightarrow> int" where
  "money_Compare m other =
     (if currency m \<noteq> currency other then (if currency m < currency other then -1 else 1)
      else if sint (amount m) < sint (amount other) then -1
      else if sint (amount m) > sint (amount other) then 1
      else 0)"

definition money_LessThan :: "money \<Rightarrow> money \<Rightarrow> bool" where
  "money_LessThan m other \<longleftrightarrow> money_Compare m other < 0"

definition money_GreaterThan :: "money \<Rightarrow> money \<Rightarrow> bool" where
  "money_GreaterThan m other \<longleftrightarrow> money_Compare m other > 0"

section \<open>Allocation\<close>

text \<open>The first loop: reject a negative part, sum the parts (an \<open>int\<close>, which wraps).\<close>

fun alloc_total :: "int64 list \<Rightarrow> int64 \<Rightarrow> money_error + int64" where
  "alloc_total [] tot = Inr tot"
| "alloc_total (p # ps) tot =
     (if sint p < 0 then Inl ErrNegativeAllocationPart else alloc_total ps (tot + p))"

definition alloc_share :: "int64 \<Rightarrow> int64 \<Rightarrow> int64 \<Rightarrow> int64" where
  "alloc_share amt tot p = quot64 (amt * p) tot"

definition alloc_frac :: "int64 \<Rightarrow> int64 \<Rightarrow> int64 \<Rightarrow> float64" where
  "alloc_frac amt tot p =
     fdiv64 (sint (amt * p - alloc_share amt tot p * tot)) (sint tot)"

text \<open>
  The insertion sort by descending fraction. The loop moves \<open>fracs[i]\<close> left past every
  smaller predecessor; on the reversed sorted prefix that is an insertion from the front.
\<close>

fun frac_insert :: "nat \<times> float64 \<Rightarrow> (nat \<times> float64) list \<Rightarrow> (nat \<times> float64) list" where
  "frac_insert x [] = [x]"
| "frac_insert x (y # ys) = (if snd x > snd y then y # frac_insert x ys else x # y # ys)"

definition frac_sort :: "(nat \<times> float64) list \<Rightarrow> (nat \<times> float64) list" where
  "frac_sort xs = rev (foldl (\<lambda>acc x. frac_insert x acc) [] xs)"

text \<open>One pass of the inner loop, and the outer \<open>for remainder != 0\<close>.\<close>

fun alloc_pass :: "int64 \<Rightarrow> nat list \<Rightarrow> int64 list \<Rightarrow> int64 \<Rightarrow> int64 list \<times> int64" where
  "alloc_pass step [] result rem = (result, rem)"
| "alloc_pass step (i # is) result rem =
     (if rem = 0 then (result, rem)
      else alloc_pass step is (result[i := result ! i + step]) (rem - step))"

definition alloc_step :: "int64 \<Rightarrow> int64" where
  "alloc_step rem = (if sint rem < 0 then -1 else 1)"

lemma alloc_step_decreases:
  assumes "rem \<noteq> 0"
  shows "nat \<bar>sint (rem - alloc_step rem)\<bar> < nat \<bar>sint rem\<bar>"
proof -
  from assms have nz: "sint rem \<noteq> 0" by (simp add: sint_eq_0_iff64)
  have "sint (rem - alloc_step rem) = sint rem - sint (alloc_step rem)"
    using nz in_int64_sint [of rem]
    by (intro sint_sub64) (auto simp: alloc_step_def in_int64_def)
  with nz show ?thesis by (auto simp: alloc_step_def)
qed

lemma alloc_pass_decreases:
  "snd (alloc_pass (alloc_step rem) is result rem) = rem \<and> (is = [] \<or> rem = 0) \<or>
   nat \<bar>sint (snd (alloc_pass (alloc_step rem) is result rem))\<bar> < nat \<bar>sint rem\<bar>"
proof (induction "is" arbitrary: result rem)
  case (Cons i "is")
  show ?case
  proof (cases "rem = 0")
    case False
    let ?r = "rem - alloc_step rem"
    have dec: "nat \<bar>sint ?r\<bar> < nat \<bar>sint rem\<bar>" using False by (rule alloc_step_decreases)
    show ?thesis
    proof (cases "?r = 0")
      case True
      then have "snd (alloc_pass (alloc_step rem) is (result[i := result ! i + alloc_step rem]) ?r) = 0"
        by (cases "is") auto
      with False dec True show ?thesis by simp
    next
      case nz: False
      have "sint ?r = sint rem - sint (alloc_step rem)"
        using in_int64_sint [of rem] False
        by (intro sint_sub64) (auto simp: alloc_step_def in_int64_def)
      moreover from nz have "sint ?r \<noteq> 0" by (simp add: sint_eq_0_iff64)
      ultimately have "alloc_step ?r = alloc_step rem"
        using False by (simp add: alloc_step_def sint_eq_0_iff64 [symmetric] split: if_splits)
      with Cons.IH [of ?r "result[i := result ! i + alloc_step rem]"] False dec
      show ?thesis by auto
    qed
  qed simp
qed simp

function alloc_distribute :: "nat list \<Rightarrow> int64 list \<Rightarrow> int64 \<Rightarrow> int64 list" where
  "alloc_distribute order result rem =
     (if rem = 0 \<or> order = [] then result
      else let (result', rem') = alloc_pass (alloc_step rem) order result rem
           in alloc_distribute order result' rem')"
  by pat_completeness auto
termination
proof (relation "measure (\<lambda>(order, result, rem). nat \<bar>sint rem\<bar>)", goal_cases)
  case (2 order result rem x xa y)
  then show ?case using alloc_pass_decreases [of rem order result]
    by (cases "alloc_pass (alloc_step rem) order result rem") auto
qed simp

declare alloc_distribute.simps [simp del]

definition alloc_order :: "int64 \<Rightarrow> int64 \<Rightarrow> int64 list \<Rightarrow> nat list" where
  "alloc_order amt tot parts =
     map fst (frac_sort (zip [0..<length parts] (map (alloc_frac amt tot) parts)))"

definition alloc_amounts :: "int64 \<Rightarrow> int64 \<Rightarrow> int64 list \<Rightarrow> int64 list" where
  "alloc_amounts amt tot parts =
     (let shares = map (alloc_share amt tot) parts;
          remainder = amt - sum_list shares
      in if remainder \<noteq> 0 then alloc_distribute (alloc_order amt tot parts) shares remainder
         else shares)"

definition money_Allocate :: "money \<Rightarrow> int64 list \<Rightarrow> money_error + money list" where
  "money_Allocate m parts =
     (if parts = [] then Inl ErrNoAllocationParts
      else res_bind (alloc_total parts 0) (\<lambda>tot.
        if tot = 0 then Inl ErrNoAllocationParts
        else Inr (map (\<lambda>a. money_New a (currency m)) (alloc_amounts (amount m) tot parts))))"

section \<open>Lemmas on allocation\<close>

lemma alloc_pass_length [simp]: "length (fst (alloc_pass step is result rem)) = length result"
  by (induction step "is" result rem rule: alloc_pass.induct) auto

lemma alloc_pass_sum:
  assumes "\<forall>i \<in> set is. i < length result"
  shows "sum_list (fst (alloc_pass step is result rem)) + snd (alloc_pass step is result rem) =
    sum_list result + rem"
  using assms
  by (induction step "is" result rem rule: alloc_pass.induct) (auto simp: sum_list_update_add)

lemma alloc_distribute_length [simp]:
  "length (alloc_distribute order result rem) = length result"
proof (induction order result rem rule: alloc_distribute.induct)
  case (1 order result rem)
  then show ?case
    using alloc_pass_length [of "alloc_step rem" order result rem]
    by (subst alloc_distribute.simps)
      (auto split: prod.splits simp del: alloc_pass_length)
qed

lemma alloc_distribute_sum:
  assumes "\<forall>i \<in> set order. i < length result" "order \<noteq> []"
  shows "sum_list (alloc_distribute order result rem) = sum_list result + rem"
  using assms
proof (induction order result rem rule: alloc_distribute.induct)
  case (1 order result rem)
  obtain result' rem' where p: "alloc_pass (alloc_step rem) order result rem = (result', rem')"
    by fastforce
  with alloc_pass_length [of "alloc_step rem" order result rem]
    alloc_pass_sum [of order result "alloc_step rem" rem] "1.prems"
  have l: "length result' = length result" and s: "sum_list result' + rem' = sum_list result + rem"
    by simp_all
  show ?case
  proof (cases "rem = 0")
    case True
    then show ?thesis by (simp add: alloc_distribute.simps)
  next
    case False
    with "1.IH" [OF _ refl p [symmetric]] "1.prems" l s
    show ?thesis by (subst alloc_distribute.simps) (simp add: p)
  qed
qed

lemma mset_frac_insert: "mset (frac_insert x ys) = add_mset x (mset ys)"
  by (induction x ys rule: frac_insert.induct) auto

lemma mset_frac_fold:
  "mset (foldl (\<lambda>acc x. frac_insert x acc) acc xs) = mset acc + mset xs"
  by (induction xs arbitrary: acc) (auto simp: mset_frac_insert)

lemma mset_frac_sort [simp]: "mset (frac_sort xs) = mset xs"
  by (simp add: frac_sort_def mset_frac_fold)

lemma frac_insert_sorted:
  "sorted_wrt (\<lambda>a b. snd a \<le> snd b) ys \<Longrightarrow> sorted_wrt (\<lambda>a b. snd a \<le> snd b) (frac_insert x ys)"
proof (induction x ys rule: frac_insert.induct)
  case (2 x y ys)
  have "set (frac_insert x ys) = insert x (set ys)"
    by (metis mset_frac_insert set_mset_add_mset_insert set_mset_mset)
  with 2 show ?case by auto
qed simp

lemma frac_sort_sorted: "sorted_wrt (\<lambda>a b. snd a \<ge> snd b) (frac_sort xs)"
proof -
  have "sorted_wrt (\<lambda>a b. snd a \<le> snd b) acc \<Longrightarrow>
      sorted_wrt (\<lambda>a b. snd a \<le> snd b) (foldl (\<lambda>acc x. frac_insert x acc) acc xs)" for acc
    by (induction xs arbitrary: acc) (auto intro: frac_insert_sorted)
  from this [of "[]"] show ?thesis by (simp add: frac_sort_def sorted_wrt_rev)
qed

lemma mset_fst_frac_sort:
  assumes "length ys = n"
  shows "mset (map fst (frac_sort (zip [0..<n] ys))) = mset [0..<n]"
proof -
  from assms have "map fst (zip [0..<n] ys) = [0..<n]" by simp
  then have "image_mset fst (mset (zip [0..<n] ys)) = mset [0..<n]" by (metis mset_map)
  then show ?thesis by simp
qed

lemma alloc_order:
  "set (alloc_order amt tot parts) = {..<length parts}"
  "distinct (alloc_order amt tot parts)"
  "length (alloc_order amt tot parts) = length parts"
proof -
  note ms = mset_fst_frac_sort [OF length_map [of "alloc_frac amt tot" parts]]
  from mset_eq_setD [OF ms] show "set (alloc_order amt tot parts) = {..<length parts}"
    by (auto simp: alloc_order_def)
  from mset_eq_imp_distinct_iff [OF ms] show "distinct (alloc_order amt tot parts)"
    by (simp add: alloc_order_def)
  from mset_eq_length [OF ms] show "length (alloc_order amt tot parts) = length parts"
    by (simp add: alloc_order_def)
qed

lemma alloc_amounts_length [simp]: "length (alloc_amounts amt tot parts) = length parts"
  by (simp add: alloc_amounts_def Let_def)

lemma alloc_amounts_sum:
  assumes "parts \<noteq> []"
  shows "sum_list (alloc_amounts amt tot parts) = amt"
proof -
  from assms have "alloc_order amt tot parts \<noteq> []"
    using alloc_order(3) [of amt tot parts] by auto
  with alloc_order(1) [of amt tot parts] show ?thesis
    by (simp add: alloc_amounts_def Let_def alloc_distribute_sum)
qed

lemma Allocate_eq_Inr:
  "money_Allocate m parts = Inr rs \<longleftrightarrow>
   (\<exists>tot. parts \<noteq> [] \<and> alloc_total parts 0 = Inr tot \<and> tot \<noteq> 0 \<and>
     rs = map (\<lambda>a. money_New a (currency m)) (alloc_amounts (amount m) tot parts))"
  by (auto simp: money_Allocate_def res_bind_eq_Inr)

lemma money_New_simps [simp]:
  "amount (money_New a c) = a" "currency (money_New a c) = c"
  by (simp_all add: money_New_def)

text \<open>
  C1. Allocation conserves money: whenever \<open>Allocate\<close> returns, it returns one amount per
  part, in the currency of the original, and the amounts add up to the original amount
  exactly, with no bound on the amount or on the parts (the sum is taken in \<open>int64\<close>, where
  a product that overflows changes the shares but not their sum with the remainder).
\<close>

theorem allocate_conserves:
  assumes "money_Allocate m parts = Inr rs"
  shows "length rs = length parts \<and> (\<forall>r \<in> set rs. currency r = currency m) \<and>
    sum_list (map amount rs) = amount m"
  using assms by (auto simp: Allocate_eq_Inr alloc_amounts_sum comp_def)

theorem allocate_conserves_witness:
  "money_Allocate (money_New 100 ''USD'') [1, 1, 1] =
     Inr [money_New 34 ''USD'', money_New 33 ''USD'', money_New 33 ''USD''] \<and>
   sum_list (map amount [money_New 34 ''USD'', money_New 33 ''USD'', money_New 33 ''USD'']) = 100"
proof -
  have h: "money_Allocate (money_New 100 ''USD'') [1, 1, 1] =
     Inr [money_New 34 ''USD'', money_New 33 ''USD'', money_New 33 ''USD'']"
    by code_simp
  with allocate_conserves [OF h] show ?thesis by simp
qed

lemma alloc_total_Inr:
  "alloc_total ps tot = Inr s \<longleftrightarrow> (\<forall>p \<in> set ps. 0 \<le> sint p) \<and> s = tot + sum_list ps"
  by (induction ps arbitrary: tot) (auto simp: algebra_simps)

lemma sint_sum_list64:
  assumes "\<forall>p \<in> set ps. 0 \<le> sint (p :: int64)" "sum_list (map sint ps) < 2 ^ 63"
  shows "sint (sum_list ps) = sum_list (map sint ps)"
  using assms
proof (induction ps)
  case (Cons p ps)
  have "0 \<le> sum_list (map sint ps)" using Cons.prems(1) by (intro sum_list_nonneg) auto
  with Cons show ?case by (simp add: sint_add64 in_int64_def)
qed simp

text \<open>What one pass of the leftover units does: one unit to each of the first \<open>k\<close> indices.\<close>

lemma alloc_pass_units:
  assumes "distinct is" "\<forall>i \<in> set is. i < length result" "k < 2 ^ 63"
  shows "alloc_pass 1 is result (of_nat k) =
    (map (\<lambda>i. result ! i + (if i \<in> set (take k is) then 1 else 0)) [0..<length result],
     of_nat (k - length is))"
  using assms
proof (induction "is" arbitrary: result k)
  case Nil
  then show ?case by (simp add: map_nth)
next
  case (Cons j js)
  show ?case
  proof (cases k)
    case 0
    then show ?thesis by (simp add: map_nth)
  next
    case (Suc k')
    from Cons.prems have "unat (of_nat k :: int64) = k" by (simp add: unat_of_nat take_bit_nat_eq_self)
    with Suc have nz: "(of_nat k :: int64) \<noteq> 0" by auto
    have r: "of_nat k - (1 :: int64) = of_nat k'" using Suc by simp
    let ?res = "result[j := result ! j + 1]"
    from Cons.IH [of ?res k'] Cons.prems Suc
    have "alloc_pass 1 js ?res (of_nat k') =
      (map (\<lambda>i. ?res ! i + (if i \<in> set (take k' js) then 1 else 0)) [0..<length ?res],
       of_nat (k' - length js))" by simp
    moreover have "?res ! i + (if i \<in> set (take k' js) then 1 else 0) =
        result ! i + (if i \<in> set (take k (j # js)) then 1 else 0)" if "i < length result" for i
      using Cons.prems Suc that by (auto simp: nth_list_update dest: in_set_takeD)
    ultimately show ?thesis using nz r Suc by (auto intro: map_cong)
  qed
qed

lemma sorted_desc_take_pos:
  fixes f :: "'a \<Rightarrow> 'b::linorder"
  assumes "sorted_wrt (\<lambda>a b. f a \<ge> f b) xs" "k \<le> length (filter (\<lambda>x. c < f x) xs)"
  shows "\<forall>x \<in> set (take k xs). c < f x"
  using assms
proof (induction xs arbitrary: k)
  case (Cons x xs)
  show ?case
  proof (cases "c < f x")
    case True
    show ?thesis
    proof (cases k)
      case (Suc j)
      have "\<forall>x \<in> set (take j xs). c < f x"
        by (rule Cons.IH) (use Cons.prems True Suc in simp_all)
      with True Suc show ?thesis by simp
    qed simp
  next
    case False
    with Cons.prems(1) have "\<forall>y \<in> set xs. \<not> c < f y" by fastforce
    then have "filter (\<lambda>y. c < f y) xs = []" by (simp add: filter_empty_conv)
    with False Cons.prems(2) show ?thesis by simp
  qed
qed simp

lemma leftover_bound:
  fixes x :: "'a \<Rightarrow> int"
  assumes "0 < T"
  shows "sum_list (map (\<lambda>p. x p mod T) ps) \<le> T * int (length (filter (\<lambda>p. 0 < x p mod T) ps))"
proof (induction ps)
  case (Cons p ps)
  have "0 \<le> x p mod T" "x p mod T < T" using assms by simp_all
  with Cons show ?case by (auto simp: algebra_simps)
qed simp

text \<open>The bounds under which no product of the allocation overflows.\<close>

definition alloc_exact :: "money \<Rightarrow> int64 list \<Rightarrow> bool" where
  "alloc_exact m parts \<longleftrightarrow>
     0 \<le> sint (amount m) \<and> (\<forall>p \<in> set parts. 0 \<le> sint p \<and> sint (amount m) * sint p < 2 ^ 63) \<and>
     0 < sum_list (map sint parts) \<and> sum_list (map sint parts) < 2 ^ 63"

lemma mult_sum_list_map: "(\<Sum>p\<leftarrow>ps. c * f p) = c * (\<Sum>p\<leftarrow>ps. f p :: int)"
  by (induction ps) (simp_all add: algebra_simps)

lemma sum_div_mod:
  "(\<Sum>p\<leftarrow>ps. f p :: int) = T * (\<Sum>p\<leftarrow>ps. f p div T) + (\<Sum>p\<leftarrow>ps. f p mod T)"
  by (induction ps) (simp_all add: algebra_simps)


lemma sint_quot64_nonneg:
  assumes "0 \<le> sint a" "0 < sint b"
  shows "sint (quot64 a b) = sint a div sint b"
proof -
  have "sint a sdiv sint b = sint a div sint b"
    using assms by (simp add: signed_divide_int_def sgn_if)
  moreover have "sint a div sint b \<le> sint a" "0 \<le> sint a div sint b"
    using assms zdiv_mono2 [of "sint a" 1 "sint b"] by (auto simp: pos_imp_zdiv_nonneg_iff)
  ultimately show ?thesis
    using assms in_int64_sint [of a]
    by (auto simp: quot64_def in_int64_def intro!: sint_of_int64)
qed

lemma alloc_exact_sum:
  assumes "alloc_exact m parts"
  shows "alloc_total parts 0 = Inr (sum_list parts)"
    "sint (sum_list parts) = sum_list (map sint parts)" "sum_list parts \<noteq> 0" "parts \<noteq> []"
proof -
  show s: "sint (sum_list parts) = sum_list (map sint parts)"
    using assms by (intro sint_sum_list64) (auto simp: alloc_exact_def)
  show "alloc_total parts 0 = Inr (sum_list parts)"
    using assms by (simp add: alloc_total_Inr alloc_exact_def)
  show "sum_list parts \<noteq> 0" "parts \<noteq> []"
    using assms s by (auto simp: alloc_exact_def)
qed

lemma quotient_bound:
  fixes d r a t :: int
  assumes "d * t + r \<le> a * t" "0 \<le> r" "0 < t"
  shows "d + (if 0 < r then 1 else 0) \<le> a"
proof (cases "0 < r")
  case True
  with assms have "d * t < a * t" by linarith
  with assms(3) have "d < a" by (simp add: mult_less_cancel_right)
  with True show ?thesis by simp
next
  case False
  with assms have "d * t \<le> a * t" by linarith
  with assms(3) have "d \<le> a" by (simp add: mult_le_cancel_right)
  with False show ?thesis by simp
qed

lemma alloc_exact_part:
  assumes "alloc_exact m parts" "p \<in> set parts"
  defines "A \<equiv> sint (amount m)" and "T \<equiv> sum_list (map sint parts)"
  shows "sint (alloc_share (amount m) (sum_list parts) p) = A * sint p div T"
    "alloc_frac (amount m) (sum_list parts) p = fdiv64 (A * sint p mod T) T"
    "A * sint p div T + (if 0 < A * sint p mod T then 1 else 0) \<le> A"
proof -
  have b: "0 \<le> A" "0 \<le> sint p" "A * sint p < 2 ^ 63" "0 < T" "T < 2 ^ 63"
    using assms by (auto simp: alloc_exact_def)
  have T: "sint (sum_list parts) = T" using alloc_exact_sum(2) [OF assms(1)] by (simp add: T_def)
  have ap: "sint (amount m * p) = A * sint p"
    using b unfolding A_def by (intro sint_mult64 in_int64_nonneg mult_nonneg_nonneg)
  show sh: "sint (alloc_share (amount m) (sum_list parts) p) = A * sint p div T"
    using b by (simp add: alloc_share_def sint_quot64_nonneg ap T)
  have q: "A * sint p div T * T + A * sint p mod T = A * sint p" "0 \<le> A * sint p mod T"
    "0 \<le> A * sint p div T * T"
    using b by (simp_all add: pos_imp_zdiv_nonneg_iff)
  then have "A * sint p div T * T \<le> A * sint p" by linarith
  then have st: "sint (alloc_share (amount m) (sum_list parts) p * sum_list parts) = A * sint p div T * T"
    using b q sint_mult64 [of "alloc_share (amount m) (sum_list parts) p" "sum_list parts"]
      in_int64_nonneg [of "A * sint p div T * T"]
    unfolding sh T by linarith
  have "sint (amount m * p - alloc_share (amount m) (sum_list parts) p * sum_list parts) =
      A * sint p - A * sint p div T * T"
    using b q st ap \<open>A * sint p div T * T \<le> A * sint p\<close> by (subst sint_sub64) (auto simp: in_int64_def)
  then show "alloc_frac (amount m) (sum_list parts) p = fdiv64 (A * sint p mod T) T"
    by (simp add: alloc_frac_def T minus_div_mult_eq_mod)
  have "0 \<le> sum_list (map sint parts) - sint p"
    using assms(1,2) sum_list_nonneg [of "map sint (remove1 p parts)"]
    by (auto simp: alloc_exact_def sum_list_map_remove1 dest: notin_set_remove1)
  then have "sint p \<le> T" by (simp add: T_def)
  then have "A * sint p \<le> A * T" using b by (intro mult_left_mono) auto
  then have "A * sint p div T * T + A * sint p mod T \<le> A * T" using q by simp
  then show "A * sint p div T + (if 0 < A * sint p mod T then 1 else 0) \<le> A"
    using b q(2) by (intro quotient_bound)
qed


lemma alloc_exact_remainder:
  fixes m parts
  defines "A \<equiv> sint (amount m)" and "T \<equiv> sum_list (map sint parts)"
  assumes ex: "alloc_exact m parts"
  obtains k where
    "amount m - sum_list (map (alloc_share (amount m) (sum_list parts)) parts) = of_nat k"
    "k < 2 ^ 63" "k \<le> length (filter (\<lambda>p. 0 < A * sint p mod T) parts)"
proof -
  let ?sh = "alloc_share (amount m) (sum_list parts)"
  define Q where "Q = (\<Sum>p\<leftarrow>parts. A * sint p div T)"
  define R where "R = (\<Sum>p\<leftarrow>parts. A * sint p mod T)"
  have b: "0 \<le> A" "A < 2 ^ 63" "0 < T" using ex in_int64_sint [of "amount m"]
    by (auto simp: alloc_exact_def A_def T_def in_int64_def)
  have sh: "sint (?sh p) = A * sint p div T" if "p \<in> set parts" for p
    using alloc_exact_part(1) [OF ex that] by (simp add: A_def T_def)
  have "A * T = T * Q + R"
    using sum_div_mod [of "\<lambda>p. A * sint p" parts T]
    by (simp add: Q_def R_def T_def mult_sum_list_map)
  moreover have "0 \<le> R" unfolding R_def using b by (intro sum_list_nonneg) auto
  ultimately have AQ: "T * (A - Q) = R" and QA: "Q \<le> A"
    using b quotient_bound [of Q T R A] by (simp_all add: algebra_simps split: if_splits)
  have Q0: "0 \<le> Q" unfolding Q_def
    using b ex by (intro sum_list_nonneg) (auto simp: alloc_exact_def pos_imp_zdiv_nonneg_iff)
  have mQ: "map sint (map ?sh parts) = map (\<lambda>p. A * sint p div T) parts"
    using sh by simp
  have nn: "\<forall>q \<in> set (map ?sh parts). 0 \<le> sint q"
    using sh b ex by (auto simp: alloc_exact_def pos_imp_zdiv_nonneg_iff)
  have "sint (sum_list (map ?sh parts)) = Q"
    using QA b nn sint_sum_list64 [OF nn] unfolding mQ Q_def by linarith
  then have rem: "sint (amount m - sum_list (map ?sh parts)) = A - Q"
    using b QA Q0 by (subst sint_sub64) (auto simp: A_def in_int64_def)
  show thesis
  proof
    show "amount m - sum_list (map ?sh parts) = of_nat (nat (A - Q))"
    proof (rule signed_word_eqI)
      have "sint (word_of_int (A - Q) :: int64) = A - Q"
        using QA Q0 b by (intro sint_of_int64 in_int64_nonneg) auto
      with rem QA show "sint (amount m - sum_list (map ?sh parts)) = sint (of_nat (nat (A - Q)) :: int64)"
        by (simp add: of_nat_nat)
    qed
    show "nat (A - Q) < 2 ^ 63" using b Q0 by (simp add: nat_less_iff)
    have "T * (A - Q) \<le> T * int (length (filter (\<lambda>p. 0 < A * sint p mod T) parts))"
      using leftover_bound [OF b(3), of "\<lambda>p. A * sint p" parts] unfolding AQ R_def .
    then show "nat (A - Q) \<le> length (filter (\<lambda>p. 0 < A * sint p mod T) parts)"
      using b by (simp add: nat_le_iff)
  qed
qed

lemma alloc_step_of_nat: "k < 2 ^ 63 \<Longrightarrow> alloc_step (of_nat k) = 1"
  using sint_of_int64 [of "int k"] by (simp add: alloc_step_def in_int64_def)

lemma alloc_distribute_units:
  assumes "distinct order" "\<forall>i \<in> set order. i < length result" "k < 2 ^ 63" "k \<le> length order"
  shows "alloc_distribute order result (of_nat k) =
    map (\<lambda>i. result ! i + (if i \<in> set (take k order) then 1 else 0)) [0..<length result]"
proof (cases "(of_nat k :: int64) = 0 \<or> order = []")
  case True
  with assms(3) have "k = 0 \<or> order = []"
    by (auto simp: unat_of_nat dest: arg_cong [where f = unat])
  with assms(4) True show ?thesis by (auto simp: alloc_distribute.simps map_nth)
next
  case False
  with alloc_pass_units [OF assms(1-3)] assms(3,4) show ?thesis
    by (subst alloc_distribute.simps) (simp add: alloc_step_of_nat alloc_distribute.simps)
qed


lemma filter_frac_sort:
  "length (filter (\<lambda>x. P (snd x)) (frac_sort (zip [0..<length ys] ys))) = length (filter P ys)"
proof -
  have "length (filter (\<lambda>x. P (snd x)) (frac_sort (zip [0..<length ys] ys))) =
      length (filter (\<lambda>x. P (snd x)) (zip [0..<length ys] ys))"
    by (metis mset_filter mset_frac_sort size_mset)
  also have "\<dots> = length (map snd (filter (\<lambda>x. P (snd x)) (zip [0..<length ys] ys)))" by simp
  also have "\<dots> = length (filter P (map snd (zip [0..<length ys] ys)))"
    by (simp only: filter_map comp_def)
  finally show ?thesis by simp
qed

lemma alloc_order_take:
  assumes "k \<le> length (filter (\<lambda>p. 0 < alloc_frac amt tot p) parts)"
    and "i \<in> set (take k (alloc_order amt tot parts))"
  shows "0 < alloc_frac amt tot (parts ! i)"
proof -
  let ?ys = "map (alloc_frac amt tot) parts"
  let ?xs = "frac_sort (zip [0..<length parts] ?ys)"
  have "k \<le> length (filter (\<lambda>x. 0 < snd x) ?xs)"
    using assms(1) filter_frac_sort [of "\<lambda>y. 0 < y" ?ys] by (simp add: filter_map comp_def)
  then have pos: "\<forall>x \<in> set (take k ?xs). 0 < snd x"
    by (rule sorted_desc_take_pos [OF frac_sort_sorted])
  from assms(2) obtain x where x: "x \<in> set (take k ?xs)" "i = fst x"
    by (auto simp: alloc_order_def take_map)
  have "set ?xs = set (zip [0..<length parts] ?ys)"
    by (metis mset_frac_sort set_mset_mset)
  with x(1) have "x \<in> set (zip [0..<length parts] ?ys)"
    using in_set_takeD by fastforce
  then have "snd x = alloc_frac amt tot (parts ! fst x)"
    by (auto simp: in_set_zip)
  with pos x show ?thesis by auto
qed

lemma alloc_amounts_nth:
  assumes "amt - sum_list (map (alloc_share amt tot) parts) = of_nat k" "k < 2 ^ 63"
    "k \<le> length parts" "i < length parts"
  shows "alloc_amounts amt tot parts ! i = alloc_share amt tot (parts ! i) +
    (if i \<in> set (take k (alloc_order amt tot parts)) then 1 else 0)"
proof -
  have "(of_nat k :: int64) = 0 \<longleftrightarrow> k = 0"
    using assms(2) by (auto simp: unat_of_nat dest: arg_cong [where f = unat])
  with assms(2-4) show ?thesis
    unfolding alloc_amounts_def Let_def assms(1)
    by (auto simp: alloc_distribute_units alloc_order)
qed



text \<open>
  For a negative amount the fractions are negative, so the descending order puts the parts
  with no fraction first: the leftover unit goes to a part of ratio zero.
\<close>

lemma allocate_negative_zero_part:
  "money_Allocate (money_New (-100) ''USD'') [0, 1, 1, 1] =
     Inr [money_New (-1) ''USD'', money_New (-33) ''USD'', money_New (-33) ''USD'',
          money_New (-33) ''USD'']"
  by code_simp

section \<open>Lemmas on decimals\<close>

lemma CurrencyPrecision_le: "CurrencyPrecision c \<le> 3"
proof (cases "map_of currencyPrecision c")
  case (Some p)
  then have "(c, p) \<in> set currencyPrecision" by (rule map_of_SomeD)
  then have "p \<le> 3" by (auto simp: currencyPrecision_def)
  with Some show ?thesis by (simp add: CurrencyPrecision_def)
qed (simp add: CurrencyPrecision_def)

lemma sint_pow10: "p \<le> 3 \<Longrightarrow> sint (pow10 p) = 10 ^ p"
proof -
  assume "p \<le> 3"
  then have "p = 0 \<or> p = 1 \<or> p = 2 \<or> p = 3" by auto
  then show ?thesis by (elim disjE) (simp_all add: numeral_eq_Suc)
qed

lemma digits_no_dot: "list_all is_digit s \<Longrightarrow> CHR ''.'' \<notin> set s"
  by (auto simp: list_all_iff is_digit_def)

lemma split_point_dot: "list_all is_digit s \<Longrightarrow> split_point (s @ CHR ''.'' # t) = (s, t)"
  using index_byte_append [OF digits_no_dot] by (simp add: split_point_def)

lemma split_point_no_dot: "list_all is_digit s \<Longrightarrow> split_point s = (s, [])"
  using index_byte_None [of "CHR ''.''" s] digits_no_dot by (auto simp: split_point_def split: option.splits)

text \<open>The amount assembled from an integer part and a fraction, when it fits.\<close>

lemma sint_amount:
  assumes "sint i = int v" "sint f = int w" "p \<le> 3" "v * 10 ^ p + w < 2 ^ 63"
  shows "sint (i * pow10 p + f) = int (v * 10 ^ p + w)"
proof -
  from assms(4) have b: "int v * 10 ^ p + int w < 2 ^ 63"
    by (metis (no_types) of_nat_add of_nat_less_numeral_power_cancel_iff of_nat_mult of_nat_numeral of_nat_power)
  have "sint (i * pow10 p) = int v * 10 ^ p"
    using assms b sint_pow10 [OF assms(3)] sint_mult64 [of i "pow10 p"]
    by (simp add: in_int64_nonneg)
  with assms b sint_add64 [of "i * pow10 p" f] show ?thesis
    by (simp add: in_int64_nonneg)
qed

lemma quot_rem_pow10:
  assumes "0 \<le> sint a" "p \<le> 3"
  shows "sint (quot64 a (pow10 p)) = sint a div 10 ^ p" "sint (rem64 a (pow10 p)) = sint a mod 10 ^ p"
proof -
  show "sint (quot64 a (pow10 p)) = sint a div 10 ^ p"
    using assms by (simp add: sint_quot64_nonneg sint_pow10)
  have m: "sint a smod 10 ^ p = sint a mod 10 ^ p"
    using assms by (simp add: smod_int_alt_def sgn_if)
  have "sint a mod 10 ^ p \<le> sint a" "sint a < 2 ^ 63"
    using assms(1) in_int64_sint [of a] by (simp_all add: zmod_le_nonneg_dividend in_int64_def)
  then have "sint a mod 10 ^ p < 2 ^ 63" by (rule le_less_trans)
  then have "in_int64 (sint a mod 10 ^ p)" by (intro in_int64_nonneg) simp_all
  with m show "sint (rem64 a (pow10 p)) = sint a mod 10 ^ p"
    using assms(2) by (simp add: rem64_def sint_pow10 sint_of_int64)
qed

section \<open>Printing and parsing\<close>

lemma leftPad_props:
  assumes "list_all is_digit s" "length s \<le> n"
  shows "length (money_leftPad s n) = n" "list_all is_digit (money_leftPad s n)"
    "val_nat (money_leftPad s n) = val_nat s"
  using assms by (auto simp: money_leftPad_def)

text \<open>The text \<open>Format\<close> prints for a magnitude \<open>v\<close>: what \<open>Parse\<close> reads back.\<close>

definition decimal_text :: "nat \<Rightarrow> nat \<Rightarrow> string" where
  "decimal_text p v =
     (if p = 0 then dec_nat v
      else dec_nat (v div 10 ^ p) @ CHR ''.'' # money_leftPad (dec_nat (v mod 10 ^ p)) p)"

lemma Format_text:
  assumes "sint (amount m) \<noteq> - (2 ^ 63)"
  shows "money_Format m =
    (if sint (amount m) < 0 then [CHR ''-''] else []) @
    decimal_text (CurrencyPrecision (currency m)) (nat \<bar>sint (amount m)\<bar>)"
proof -
  let ?a = "if sint (amount m) < 0 then - amount m else amount m"
  let ?p = "CurrencyPrecision (currency m)"
  have a: "sint ?a = \<bar>sint (amount m)\<bar>"
    using assms in_int64_sint [of "amount m"] by (auto simp: in_int64_def sint_uminus64)
  have q: "sint (quot64 ?a (pow10 ?p)) = int (nat \<bar>sint (amount m)\<bar> div 10 ^ ?p)"
    "sint (rem64 ?a (pow10 ?p)) = int (nat \<bar>sint (amount m)\<bar> mod 10 ^ ?p)"
    using quot_rem_pow10 [of ?a ?p] CurrencyPrecision_le [of "currency m"] a
    by (simp_all add: zdiv_int zmod_int)
  show ?thesis
    unfolding money_Format_def Let_def q
    by (simp add: FormatInt_def decimal_text_def)
qed

lemma decimal_text_ends:
  "decimal_text p v \<noteq> []" "is_digit (hd (decimal_text p v))" "is_digit (last (decimal_text p v))"
proof -
  have d: "list_all is_digit (dec_nat n)" "dec_nat n \<noteq> []" for n by (simp_all add: dec_nat_digits)
  then have h: "is_digit (hd (dec_nat n))" "is_digit (last (dec_nat n))" for n
    using hd_in_set [OF d(2), of n] last_in_set [OF d(2), of n] d(1) [of n]
    unfolding list_all_iff by blast+
  have "money_leftPad (dec_nat n) p \<noteq> []" "last (money_leftPad (dec_nat n) p) = last (dec_nat n)" for n
    by (simp_all add: money_leftPad_def)
  with d h show "decimal_text p v \<noteq> []" "is_digit (hd (decimal_text p v))"
    "is_digit (last (decimal_text p v))"
    by (simp_all add: decimal_text_def)
qed

lemma decimal_text_split:
  shows "split_point (decimal_text p v) =
    (dec_nat (v div 10 ^ p), if p = 0 then [] else money_leftPad (dec_nat (v mod 10 ^ p)) p)"
  by (simp add: decimal_text_def split_point_dot split_point_no_dot dec_nat_digits)

lemma parse_unsigned_decimal_text:
  assumes "p \<le> 3" "v < 2 ^ 63"
  shows "parse_unsigned (decimal_text p v) p = Some (of_nat v)"
proof -
  let ?q = "dec_nat (v div 10 ^ p)"
  define f where "f = (if p = 0 then [] else money_leftPad (dec_nat (v mod 10 ^ p)) p)"
  have sp: "split_point (decimal_text p v) = (?q, f)"
    by (simp add: decimal_text_split f_def)
  have r: "p \<noteq> 0 \<Longrightarrow> length (dec_nat (v mod 10 ^ p)) \<le> p"
    by (rule length_dec_nat_le) auto
  have f: "length f = p" "list_all is_digit f" "val_nat f = v mod 10 ^ p"
    using leftPad_props [OF dec_nat_digits r] by (auto simp: f_def)
  have dot: "index_byte (CHR ''.'') (decimal_text p v) \<noteq> None \<Longrightarrow> f \<noteq> []"
    using f(1) index_byte_None [of "CHR ''.''" "decimal_text p v"] digits_no_dot [OF dec_nat_digits]
    by (auto simp: decimal_text_def split: if_splits)
  have vb: "v div 10 ^ p < 2 ^ 63" "v mod 10 ^ p < 2 ^ 63"
    using assms(2) by (meson div_le_dividend mod_less_eq_dividend le_less_trans)+
  have s: "sint (word_of_int (int n) :: int64) = int n" if "n < 2 ^ 63" for n
    using that by (intro sint_of_int64 in_int64_nonneg) (simp_all add: of_nat_less_numeral_power_cancel_iff)
  have w: "(if f \<noteq> [] then ParseInt f else Some 0) = Some (word_of_int (int (v mod 10 ^ p)))"
    using f vb by (auto simp: ParseInt_digits)
  have dm: "v div 10 ^ p * 10 ^ p + v mod 10 ^ p = v" by (rule div_mult_mod_eq)
  have eq: "word_of_int (int (v div 10 ^ p)) * pow10 p + word_of_int (int (v mod 10 ^ p)) = (of_nat v :: int64)"
    (is "?l = _")
  proof (rule signed_word_eqI)
    have "sint ?l = int v"
      using sint_amount [OF s [OF vb(1)] s [OF vb(2)] assms(1)] assms(2) unfolding dm by blast
    also have "\<dots> = sint (of_nat v :: int64)" using s [OF assms(2)] by simp
    finally show "sint ?l = sint (of_nat v :: int64)" .
  qed
  have "\<not> (f = [] \<and> index_byte (CHR ''.'') (decimal_text p v) \<noteq> None)" using dot by blast
  note unf = parse_unsigned_def Let_def sp prod.case
  show ?thesis
  proof (cases "f = []")
    case True
    with w have "(word_of_int (int (v mod 10 ^ p)) :: int64) = 0" by simp
    moreover have "index_byte (CHR ''.'') (decimal_text p v) = None" using True dot by blast
    ultimately show ?thesis
      using True f(1) eq assms(2) unfolding unf by (auto simp: ParseInt_dec_nat dec_nat_digits)
  next
    case False
    with w f(1,2) eq show ?thesis
      unfolding unf by (simp add: ParseInt_dec_nat [OF vb(1)] dec_nat_digits)
  qed
qed

lemma Parse_decimal_text:
  assumes "v < 2 ^ 63"
  shows "money_Parse ((if neg then [CHR ''-''] else []) @ decimal_text (CurrencyPrecision cur) v) cur =
    Inr (money_New (if neg then - (of_nat v) else of_nat v) cur)"
proof -
  let ?t = "decimal_text (CurrencyPrecision cur) v"
  let ?s = "(if neg then [CHR ''-''] else []) @ ?t"
  note ends = decimal_text_ends [of "CurrencyPrecision cur" v]
  have hd: "hd ?t \<noteq> CHR ''-''" "hd ?t \<noteq> CHR ''+''"
    using ends(2) by (auto simp: is_digit_def)
  have "plain_char (CHR ''-'')" by (simp add: plain_char_def)
  with ends have "TrimSpace ?s = ?s"
    by (intro TrimSpace_plain) (auto intro: plain_char_digit)
  with ends(1) hd parse_unsigned_decimal_text [OF CurrencyPrecision_le assms, of cur] show ?thesis
    by (simp add: money_Parse_def)
qed

text \<open>
  C27. Formatting and parsing are inverse: the text \<open>Format\<close> prints for any amount but the
  least \<open>int64\<close> parses back, in the same currency, to the same money.
\<close>

theorem parse_format_roundtrip:
  assumes "sint (amount m) \<noteq> - (2 ^ 63)"
  shows "money_Parse (money_Format m) (currency m) = Inr m"
proof -
  let ?v = "nat \<bar>sint (amount m)\<bar>"
  have "\<bar>sint (amount m)\<bar> < 2 ^ 63"
    using assms in_int64_sint [of "amount m"] by (auto simp: in_int64_def)
  then have v: "?v < 2 ^ 63" by (simp add: nat_less_iff)
  have "(of_nat ?v :: int64) = (if sint (amount m) < 0 then - amount m else amount m)"
    by (simp add: of_nat_nat)
  then have "(if sint (amount m) < 0 then - (of_nat ?v) else of_nat ?v) = amount m" by simp
  with Parse_decimal_text [OF v, of "sint (amount m) < 0" "currency m"] Format_text [OF assms]
  show ?thesis by (simp add: money_New_def)
qed

theorem parse_format_roundtrip_witness:
  "sint (amount (money_New (-1205) ''USD'')) \<noteq> - (2 ^ 63) \<and>
   money_Format (money_New (-1205) ''USD'') = ''-12.05'' \<and>
   money_Parse (money_Format (money_New (-1205) ''USD'')) ''USD'' = Inr (money_New (-1205) ''USD'')"
proof -
  have h: "sint (amount (money_New (-1205) ''USD'')) \<noteq> - (2 ^ 63)" by simp
  have "money_Format (money_New (-1205) ''USD'') = ''-12.05''" by code_simp
  with h parse_format_roundtrip [OF h] show ?thesis by simp
qed

text \<open>The least amount is printed with two signs, and the parser does not notice overflow.\<close>

lemma format_least_amount:
  "money_Format (money_New 0x8000000000000000 ''USD'') = ''--92233720368547758.-8''"
proof -
  have d: "dec_nat 92233720368547758 = ''92233720368547758''" "dec_nat 8 = ''8''"
    by (simp_all add: dec_nat.simps [of "numeral k" for k] digit_char_def char_of_def bit_Suc_0_iff)
  have "sint (quot64 (- 9223372036854775808) (pow10 2)) = -92233720368547758"
    "sint (rem64 (- 9223372036854775808) (pow10 2)) = -8"
    by code_simp+
  then show ?thesis
    by (simp add: money_Format_def Let_def money_New_def CurrencyPrecision_def currencyPrecision_def
        FormatInt_def d money_leftPad_def)
qed

lemma parse_overflow_wraps:
  "money_Parse ''92233720368547758.08'' ''USD'' = Inr (money_New 0x8000000000000000 ''USD'')"
proof -
  have t: "TrimSpace ''92233720368547758.08'' = ''92233720368547758.08''"
    by (intro TrimSpace_plain) (simp_all add: plain_char_def)
  have "parse_unsigned ''92233720368547758.08'' 2 = Some 0x8000000000000000"
    by (simp add: parse_unsigned_def split_point_def Let_def ParseInt_def parse_digits_def
        is_digit_def digit_val_def val_nat_def in_int64_def numeral_eq_Suc [of "num.Bit0 num.One"])
  then show ?thesis
    by (simp add: money_Parse_def t CurrencyPrecision_def currencyPrecision_def)
qed

section \<open>Rounding\<close>

text \<open>
  The rounding modes on the exact decimal \<open>n / d\<close>: the specification of \<open>Round\<close>.
\<close>

definition round_spec :: "RoundingMode \<Rightarrow> nat \<Rightarrow> nat \<Rightarrow> nat" where
  "round_spec mode n d =
     (let q = n div d; r = n mod d in
      q + (if (case mode of
                 RoundHalfUp \<Rightarrow> d \<le> 2 * r
               | RoundHalfDown \<Rightarrow> d < 2 * r
               | RoundHalfEven \<Rightarrow> d < 2 * r \<or> d = 2 * r \<and> odd q
               | RoundDown \<Rightarrow> False
               | RoundUp \<Rightarrow> 0 < r
               | OtherMode _ \<Rightarrow> d \<le> 2 * r)
           then 1 else 0))"

lemma round_spec_ge: "n div d \<le> round_spec mode n d"
  by (simp add: round_spec_def Let_def)

lemma digit_char_order:
  assumes "is_digit c"
  shows "CHR ''5'' \<le> c \<longleftrightarrow> 5 \<le> digit_val c" "CHR ''5'' < c \<longleftrightarrow> 5 < digit_val c"
    "c = CHR ''5'' \<longleftrightarrow> digit_val c = 5" "c = CHR ''0'' \<longleftrightarrow> digit_val c = 0"
proof -
  have eq: "c = d \<longleftrightarrow> digit_val c = digit_val d" if "is_digit d" for d
    using assms that unfolding is_digit_def digit_val_def
    by (metis char_of_char diff_add_inverse le_Suc_ex)
  show "CHR ''5'' \<le> c \<longleftrightarrow> 5 \<le> digit_val c" "CHR ''5'' < c \<longleftrightarrow> 5 < digit_val c"
    using assms by (auto simp: less_eq_char_def less_char_def is_digit_def digit_val_def)
  show "c = CHR ''5'' \<longleftrightarrow> digit_val c = 5" "c = CHR ''0'' \<longleftrightarrow> digit_val c = 0"
    using eq [of "CHR ''5''"] eq [of "CHR ''0''"] by (simp_all add: is_digit_def digit_val_def)
qed

lemma hasNonZero_val: "list_all is_digit s \<Longrightarrow> hasNonZero s \<longleftrightarrow> 0 < val_nat s"
proof (induction s rule: rev_induct)
  case (snoc c s)
  then show ?case using digit_char_order(4) [of c] by (auto simp: hasNonZero_def)
qed (simp add: hasNonZero_def)

lemma val_nat_Cons: "val_nat (c # s) = digit_val c * 10 ^ length s + val_nat s"
  using val_nat_append [of "[c]" s] by (simp add: val_nat_def)

text \<open>Comparing the discarded digits with one half looks at the first digit only.\<close>

lemma half_digit:
  fixes d v e :: nat
  assumes "v < e" "d < 10"
  shows "10 * e \<le> 2 * (d * e + v) \<longleftrightarrow> 5 \<le> d"
    "10 * e < 2 * (d * e + v) \<longleftrightarrow> 5 < d \<or> d = 5 \<and> 0 < v"
    "10 * e = 2 * (d * e + v) \<longleftrightarrow> d = 5 \<and> v = 0"
proof -
  from assms(2) have "d \<in> set [0..<10]" by simp
  then have "d = 0 \<or> d = 1 \<or> d = 2 \<or> d = 3 \<or> d = 4 \<or> d = 5 \<or> d = 6 \<or> d = 7 \<or> d = 8 \<or> d = 9"
    by (auto simp: upt_conv_Cons)
  with assms(1) show "10 * e \<le> 2 * (d * e + v) \<longleftrightarrow> 5 \<le> d"
    "10 * e < 2 * (d * e + v) \<longleftrightarrow> 5 < d \<or> d = 5 \<and> 0 < v"
    "10 * e = 2 * (d * e + v) \<longleftrightarrow> d = 5 \<and> v = 0"
    by auto
qed

lemma half_digits:
  assumes "list_all is_digit (c # t)"
  shows "10 ^ length (c # t) \<le> 2 * val_nat (c # t) \<longleftrightarrow> CHR ''5'' \<le> c"
    "10 ^ length (c # t) < 2 * val_nat (c # t) \<longleftrightarrow> CHR ''5'' < c \<or> c = CHR ''5'' \<and> hasNonZero t"
    "10 ^ length (c # t) = 2 * val_nat (c # t) \<longleftrightarrow> c = CHR ''5'' \<and> \<not> hasNonZero t"
proof -
  from assms have c: "is_digit c" and t: "list_all is_digit t" by simp_all
  note h = half_digit [OF val_nat_less [OF t] digit_val_less [OF c]]
  show "10 ^ length (c # t) \<le> 2 * val_nat (c # t) \<longleftrightarrow> CHR ''5'' \<le> c"
    "10 ^ length (c # t) < 2 * val_nat (c # t) \<longleftrightarrow> CHR ''5'' < c \<or> c = CHR ''5'' \<and> hasNonZero t"
    "10 ^ length (c # t) = 2 * val_nat (c # t) \<longleftrightarrow> c = CHR ''5'' \<and> \<not> hasNonZero t"
    using h digit_char_order [OF c] hasNonZero_val [OF t] by (simp_all add: val_nat_Cons)
qed

lemma roundUp_spec:
  assumes "list_all is_digit (c # t)" "mode = RoundHalfEven \<Longrightarrow> (rem64 k 2 \<noteq> 0 \<longleftrightarrow> odd q)"
  shows "(if money_roundUp mode (c # t) k then q + 1 else q) =
    round_spec mode (q * 10 ^ length (c # t) + val_nat (c # t)) (10 ^ length (c # t))"
proof -
  let ?d = "10 ^ length (c # t) :: nat" and ?r = "val_nat (c # t)"
  have r: "?r < ?d" using assms(1) by (rule val_nat_less)
  then have dm: "(q * ?d + ?r) div ?d = q" "(q * ?d + ?r) mod ?d = ?r" by simp_all
  have pos: "hasNonZero (c # t) \<longleftrightarrow> 0 < ?r" using assms(1) by (rule hasNonZero_val)
  show ?thesis
    unfolding round_spec_def Let_def dm money_roundUp_def
    using half_digits [OF assms(1)] pos assms(2) by (cases mode) auto
qed

lemma rem64_2_odd: "0 \<le> sint k \<Longrightarrow> rem64 k 2 \<noteq> 0 \<longleftrightarrow> odd (sint k)"
proof -
  assume "0 \<le> sint k"
  then have "sint k smod 2 = sint k mod 2" by (auto simp: smod_int_alt_def sgn_if)
  then have "rem64 k 2 = word_of_int (sint k mod 2)" by (simp add: rem64_def)
  then show ?thesis by (cases "even (sint k)") (auto simp: odd_iff_mod_2_eq_one)
qed


lemma round_decimal_eq:
  assumes i: "list_all is_digit i" "i \<noteq> []" and k: "list_all is_digit k" "length k = p" "p \<le> 3"
    and q: "val_nat i * 10 ^ p + val_nat k < 2 ^ 63"
  shows "ParseInt i = Some (word_of_int (int (val_nat i)))"
    "(if k \<noteq> [] then ParseInt k else Some 0) = Some (word_of_int (int (val_nat k)))"
    "sint (word_of_int (int (val_nat i)) * pow10 p + word_of_int (int (val_nat k))) =
      int (val_nat i * 10 ^ p + val_nat k)"
    "sint (word_of_int (int (val_nat k)) :: int64) = int (val_nat k)"
proof -
  have "val_nat i \<le> val_nat i * 10 ^ p" by simp
  with q have b: "val_nat i < 2 ^ 63" "val_nat k < 2 ^ 63" by linarith+
  then show "ParseInt i = Some (word_of_int (int (val_nat i)))" using i by (simp add: ParseInt_digits)
  show "(if k \<noteq> [] then ParseInt k else Some 0) = Some (word_of_int (int (val_nat k)))"
    using b k by (auto simp: ParseInt_digits)
  have s: "sint (word_of_int (int n) :: int64) = int n" if "n < 2 ^ 63" for n
    using that by (intro sint_of_int64 in_int64_nonneg) (simp_all add: of_nat_less_numeral_power_cancel_iff)
  from s [OF b(2)] show "sint (word_of_int (int (val_nat k)) :: int64) = int (val_nat k)" .
  show "sint (word_of_int (int (val_nat i)) * pow10 p + word_of_int (int (val_nat k))) =
      int (val_nat i * 10 ^ p + val_nat k)"
    by (rule sint_amount [OF s [OF b(1)] s [OF b(2)] k(3) q])
qed

text \<open>
  Banker's rounding tests the parity of the kept fraction; with no kept digit it finds an even
  one at every tie.
\<close>

definition effective_mode :: "string \<Rightarrow> RoundingMode \<Rightarrow> RoundingMode" where
  "effective_mode cur mode =
     (if mode = RoundHalfEven \<and> CurrencyPrecision cur = 0 then RoundHalfDown else mode)"



text \<open>
  Without a kept digit \<open>Round\<close> tests the parity of the empty fraction, not of the amount:
  a tie is then always rounded down, also to an odd amount.
\<close>

lemma round_half_even_no_digit:
  "money_Round ''1.5'' ''JPY'' RoundHalfEven = money_New 1 ''JPY''"
  "round_spec RoundHalfEven 15 10 = 2"
  by code_simp+

end
