(* ===== verification/CircuitBreaker.thy ===== *)
theory CircuitBreaker
  imports GoPrelude Float64
begin

text \<open>
  The package \<open>common/circuitbreaker\<close> (file \<open>circuitbreaker.go\<close>): the Closed / Open /
  Half-Open breaker over a count-based sliding window.

  The breaker's mutex makes each method one atomic step, so the model has one function per
  critical section; the operation an \<open>Execute\<close> runs lies between two of them, and other
  goroutines run in between. The step relation at the end of the model is that interleaving:
  a request that has been admitted and not yet recorded is a ticket, which holds the
  generation \<open>beforeRequest\<close> returned. The clock is read once per critical section. The
  calls of \<open>OnStateChange\<close> are recorded in the field \<open>cb_callbacks\<close>.
\<close>

section \<open>Data\<close>

datatype cb_State = StateClosed | StateOpen | StateHalfOpen

text \<open>The constants are numbered from zero (\<open>iota\<close>); a state is ordered by its number.\<close>

definition State_code :: "cb_State \<Rightarrow> int" where
  "State_code s = (case s of StateClosed \<Rightarrow> 0 | StateOpen \<Rightarrow> 1 | StateHalfOpen \<Rightarrow> 2)"

instantiation cb_State :: linorder
begin

definition less_eq_cb_State :: "cb_State \<Rightarrow> cb_State \<Rightarrow> bool" where
  "s \<le> t \<longleftrightarrow> State_code s \<le> State_code t"

definition less_cb_State :: "cb_State \<Rightarrow> cb_State \<Rightarrow> bool" where
  "s < t \<longleftrightarrow> State_code s < State_code t"

instance
  by standard
    (auto simp: less_eq_cb_State_def less_cb_State_def State_code_def split: cb_State.splits)

end

definition State_String :: "cb_State \<Rightarrow> string" where
  "State_String s =
     (case s of StateClosed \<Rightarrow> ''closed'' | StateOpen \<Rightarrow> ''open'' | StateHalfOpen \<Rightarrow> ''half-open'')"

datatype 'e cb_error =
    ErrNilOperation
  | ErrContext ctx_err
  | ErrCircuitOpen
  | ErrTooManyRequests
  | ErrOperation 'e

record cb_Config =
  cb_MaxRequests :: int
  cb_FailureThreshold :: float64
  cb_MinRequests :: int
  cb_RecoveryTimeout :: duration
  cb_SlidingWindowSize :: int
  cb_OnStateChange :: bool
  cb_Name :: string

record CircuitBreaker =
  cb_state :: cb_State
  cb_generation :: uint64
  cb_openedAt :: gotime
  cb_expiry :: int64
  cb_window :: "bool list"
  cb_windowPos :: nat
  cb_windowLen :: nat
  cb_halfOpenRequests :: int32
  cb_halfOpenSuccesses :: int32
  cb_callbacks :: "(string \<times> cb_State \<times> cb_State) list"

definition cb_normalize :: "cb_Config \<Rightarrow> cb_Config" where
  "cb_normalize cfg = cfg
     \<lparr>cb_MaxRequests := if cb_MaxRequests cfg \<le> 0 then 5 else cb_MaxRequests cfg,
      cb_FailureThreshold :=
        if cb_FailureThreshold cfg \<le> 0 \<or> cb_FailureThreshold cfg > 1 then 1 / 2
        else cb_FailureThreshold cfg,
      cb_MinRequests := if cb_MinRequests cfg \<le> 0 then 10 else cb_MinRequests cfg,
      cb_RecoveryTimeout :=
        if cb_RecoveryTimeout cfg \<le> 0 then 30 * 10 ^ 9 else cb_RecoveryTimeout cfg,
      cb_SlidingWindowSize :=
        if cb_SlidingWindowSize cfg \<le> 0 then 100 else cb_SlidingWindowSize cfg\<rparr>"

definition cb_New :: "cb_Config \<Rightarrow> cb_Config \<times> CircuitBreaker" where
  "cb_New cfg0 =
     (let cfg = cb_normalize cfg0 in
      (cfg,
       \<lparr>cb_state = StateClosed, cb_generation = 0, cb_openedAt = 0, cb_expiry = 0,
        cb_window = replicate (nat (cb_SlidingWindowSize cfg)) False,
        cb_windowPos = 0, cb_windowLen = 0, cb_halfOpenRequests = 0, cb_halfOpenSuccesses = 0,
        cb_callbacks = []\<rparr>))"

section \<open>The state machine\<close>

definition cb_newState :: "cb_Config \<Rightarrow> gotime \<Rightarrow> cb_State \<Rightarrow> CircuitBreaker \<Rightarrow> CircuitBreaker" where
  "cb_newState cfg now to b =
     (let from = cb_state b;
          b = b\<lparr>cb_state := to, cb_generation := cb_generation b + 1\<rparr>;
          b = (case to of
                 StateClosed \<Rightarrow>
                   b\<lparr>cb_windowPos := 0, cb_windowLen := 0,
                     cb_window := map (\<lambda>_. False) (cb_window b),
                     cb_halfOpenRequests := 0, cb_halfOpenSuccesses := 0, cb_expiry := 0\<rparr>
               | StateOpen \<Rightarrow>
                   b\<lparr>cb_openedAt := now, cb_expiry := UnixNano (now + cb_RecoveryTimeout cfg),
                     cb_halfOpenRequests := 0, cb_halfOpenSuccesses := 0\<rparr>
               | StateHalfOpen \<Rightarrow>
                   b\<lparr>cb_halfOpenRequests := 0, cb_halfOpenSuccesses := 0, cb_expiry := 0\<rparr>)
      in if cb_OnStateChange cfg \<and> from \<noteq> to
         then b\<lparr>cb_callbacks := cb_callbacks b @ [(cb_Name cfg, from, to)]\<rparr> else b)"

definition cb_trip :: "cb_Config \<Rightarrow> gotime \<Rightarrow> cb_State \<Rightarrow> CircuitBreaker \<Rightarrow> CircuitBreaker" where
  "cb_trip cfg now to b = cb_newState cfg now to b"

definition cb_checkRecovery :: "cb_Config \<Rightarrow> gotime \<Rightarrow> CircuitBreaker \<Rightarrow> CircuitBreaker" where
  "cb_checkRecovery cfg now b =
     (if cb_state b \<noteq> StateOpen then b
      else if cb_expiry b = 0 then b
      else if sint (UnixNano now) < sint (cb_expiry b) then b
      else cb_trip cfg now StateHalfOpen b)"

definition cb_State_op :: "cb_Config \<Rightarrow> gotime \<Rightarrow> CircuitBreaker \<Rightarrow> CircuitBreaker \<times> cb_State" where
  "cb_State_op cfg now b = (let b = cb_checkRecovery cfg now b in (b, cb_state b))"

definition cb_failures :: "CircuitBreaker \<Rightarrow> nat" where
  "cb_failures b = length (filter Not (take (cb_windowLen b) (cb_window b)))"

definition cb_shouldTrip :: "cb_Config \<Rightarrow> CircuitBreaker \<Rightarrow> bool" where
  "cb_shouldTrip cfg b =
     (if int (cb_windowLen b) < cb_MinRequests cfg then False
      else cb_FailureThreshold cfg \<le> fdiv64 (int (cb_failures b)) (int (cb_windowLen b)))"

definition cb_recordOutcome :: "cb_Config \<Rightarrow> bool \<Rightarrow> CircuitBreaker \<Rightarrow> CircuitBreaker" where
  "cb_recordOutcome cfg success b =
     b\<lparr>cb_window := (cb_window b)[cb_windowPos b := success],
       cb_windowPos := (cb_windowPos b + 1) mod nat (cb_SlidingWindowSize cfg),
       cb_windowLen := if int (cb_windowLen b) < cb_SlidingWindowSize cfg
                       then cb_windowLen b + 1 else cb_windowLen b\<rparr>"

text \<open>\<open>beforeRequest\<close> returns the generation and an error, None when the request may run.\<close>

definition cb_beforeRequest ::
    "cb_Config \<Rightarrow> gotime \<Rightarrow> CircuitBreaker \<Rightarrow> CircuitBreaker \<times> uint64 \<times> 'e cb_error option" where
  "cb_beforeRequest cfg now b0 =
     (let b = cb_checkRecovery cfg now b0 in
      case cb_state b of
        StateClosed \<Rightarrow> (b, cb_generation b, None)
      | StateOpen \<Rightarrow> (b, cb_generation b, Some ErrCircuitOpen)
      | StateHalfOpen \<Rightarrow>
          if cb_MaxRequests cfg \<le> sint (cb_halfOpenRequests b)
          then (b, cb_generation b, Some ErrTooManyRequests)
          else (b\<lparr>cb_halfOpenRequests := cb_halfOpenRequests b + 1\<rparr>, cb_generation b, None))"

text \<open>The switch that \<open>afterRequest\<close> and \<open>recordOutcomeAllow\<close> share.\<close>

definition cb_recordOutcomeAllow :: "cb_Config \<Rightarrow> gotime \<Rightarrow> bool \<Rightarrow> CircuitBreaker \<Rightarrow> CircuitBreaker" where
  "cb_recordOutcomeAllow cfg now success b =
     (case cb_state b of
        StateClosed \<Rightarrow>
          (let b = cb_recordOutcome cfg success b in
           if \<not> success \<and> cb_shouldTrip cfg b then cb_trip cfg now StateOpen b else b)
      | StateHalfOpen \<Rightarrow>
          (let b = b\<lparr>cb_halfOpenRequests := cb_halfOpenRequests b - 1\<rparr> in
           if success then
             (let b = b\<lparr>cb_halfOpenSuccesses := cb_halfOpenSuccesses b + 1\<rparr> in
              if cb_MaxRequests cfg \<le> sint (cb_halfOpenSuccesses b)
              then cb_trip cfg now StateClosed b else b)
           else cb_trip cfg now StateOpen b)
      | StateOpen \<Rightarrow> b\<lparr>cb_halfOpenRequests := cb_halfOpenRequests b - 1\<rparr>)"

definition cb_afterRequest ::
    "cb_Config \<Rightarrow> gotime \<Rightarrow> uint64 \<Rightarrow> bool \<Rightarrow> CircuitBreaker \<Rightarrow> CircuitBreaker" where
  "cb_afterRequest cfg now gen success b =
     (if gen \<noteq> cb_generation b then b else cb_recordOutcomeAllow cfg now success b)"

definition cb_Reset :: "cb_Config \<Rightarrow> gotime \<Rightarrow> CircuitBreaker \<Rightarrow> CircuitBreaker" where
  "cb_Reset cfg now b = cb_trip cfg now StateClosed b"

definition cb_Allow :: "cb_Config \<Rightarrow> gotime \<Rightarrow> CircuitBreaker \<Rightarrow> CircuitBreaker \<times> 'e cb_error option" where
  "cb_Allow cfg now b = (case cb_beforeRequest cfg now b of (b', gen, err) \<Rightarrow> (b', err))"

definition cb_MarkSuccess :: "cb_Config \<Rightarrow> gotime \<Rightarrow> CircuitBreaker \<Rightarrow> CircuitBreaker" where
  "cb_MarkSuccess cfg now b = cb_recordOutcomeAllow cfg now True b"

definition cb_MarkFailed :: "cb_Config \<Rightarrow> gotime \<Rightarrow> CircuitBreaker \<Rightarrow> CircuitBreaker" where
  "cb_MarkFailed cfg now b = cb_recordOutcomeAllow cfg now False b"

text \<open>
  \<open>Execute\<close> without other goroutines: \<open>op\<close> is the operation on a world \<open>'w\<close> (None for a
  nil function), and returns its error. The clock is read before it and after it.
\<close>

definition cb_Execute ::
    "cb_Config \<Rightarrow> ctx \<Rightarrow> gotime \<Rightarrow> gotime \<Rightarrow> ('w \<Rightarrow> 'w \<times> 'e option) option \<Rightarrow>
     CircuitBreaker \<times> 'w \<Rightarrow> (CircuitBreaker \<times> 'w) \<times> 'e cb_error option" where
  "cb_Execute cfg ctx now1 now2 op = (\<lambda>(b, w).
     case op of
       None \<Rightarrow> ((b, w), Some ErrNilOperation)
     | Some f \<Rightarrow>
         (case ctx of
            Some e \<Rightarrow> ((b, w), Some (ErrContext e))
          | None \<Rightarrow>
              (case cb_beforeRequest cfg now1 b of
                 (b1, gen, Some err) \<Rightarrow> ((b1, w), Some err)
               | (b1, gen, None) \<Rightarrow>
                   (case f w of
                      (w', r) \<Rightarrow>
                        ((cb_afterRequest cfg now2 gen (r = None) b1, w'),
                         map_option ErrOperation r)))))"

record cb_Metrics =
  cbm_Name :: string
  cbm_State :: string
  cbm_WindowLen :: nat
  cbm_Failures :: nat
  cbm_Successes :: nat
  cbm_FailureRate :: float64
  cbm_Generation :: uint64

definition cb_Metrics_op :: "cb_Config \<Rightarrow> gotime \<Rightarrow> CircuitBreaker \<Rightarrow> CircuitBreaker \<times> cb_Metrics" where
  "cb_Metrics_op cfg now b0 =
     (let b = cb_checkRecovery cfg now b0 in
      (b, \<lparr>cbm_Name = cb_Name cfg, cbm_State = State_String (cb_state b),
           cbm_WindowLen = cb_windowLen b,
           cbm_Failures = cb_failures b,
           cbm_Successes = length (filter id (take (cb_windowLen b) (cb_window b))),
           cbm_FailureRate = (if 0 < cb_windowLen b
             then fdiv64 (int (cb_failures b)) (int (cb_windowLen b)) else 0),
           cbm_Generation = cb_generation b\<rparr>))"

section \<open>Interleavings\<close>

text \<open>
  The breaker with its clients: the generations of the requests inside \<open>Execute\<close>, those of the requests
  that \<open>Allow\<close> admitted and that are not marked yet, and two history variables. The epoch is the number
  of state transitions so far, which the 64-bit generation counts modulo \<open>2 ^ 64\<close>. The strays are the
  marks since the last transition that do not belong to a request of the current generation: those of
  a request admitted earlier, and those of no request at all.
\<close>

record cb_sys =
  sys_breaker :: CircuitBreaker
  sys_tickets :: "uint64 multiset"
  sys_allowed :: "uint64 multiset"
  sys_strays :: nat
  sys_epoch :: nat

definition cb_moved :: "CircuitBreaker \<Rightarrow> cb_sys \<Rightarrow> cb_sys" where
  "cb_moved b s =
     (let same = (cb_generation b = cb_generation (sys_breaker s)) in
      s\<lparr>sys_breaker := b, sys_strays := if same then sys_strays s else 0,
        sys_epoch := if same then sys_epoch s else sys_epoch s + 1\<rparr>)"

text \<open>\<open>MarkSuccess\<close> and \<open>MarkFailed\<close>.\<close>

definition cb_Mark :: "cb_Config \<Rightarrow> gotime \<Rightarrow> bool \<Rightarrow> CircuitBreaker \<Rightarrow> CircuitBreaker" where
  "cb_Mark cfg now success b = (if success then cb_MarkSuccess cfg now b else cb_MarkFailed cfg now b)"

inductive cb_step :: "cb_Config \<Rightarrow> cb_sys \<Rightarrow> cb_sys \<Rightarrow> bool" for cfg where
  step_admit:
    "cb_beforeRequest cfg now (sys_breaker s) = (b, gen, None :: unit cb_error option) \<Longrightarrow>
     cb_step cfg s (cb_moved b (s\<lparr>sys_tickets := add_mset gen (sys_tickets s)\<rparr>))"
| step_reject:
    "cb_beforeRequest cfg now (sys_breaker s) = (b, gen, Some (err :: unit cb_error)) \<Longrightarrow>
     cb_step cfg s (cb_moved b s)"
| step_finish:
    "gen \<in># sys_tickets s \<Longrightarrow>
     cb_step cfg s
       (cb_moved (cb_afterRequest cfg now gen success (sys_breaker s)) (s\<lparr>sys_tickets := sys_tickets s - {#gen#}\<rparr>))"
| step_allow:
    "cb_Allow cfg now (sys_breaker s) = (b, None :: unit cb_error option) \<Longrightarrow>
     cb_step cfg s (cb_moved b (s\<lparr>sys_allowed := add_mset (cb_generation b) (sys_allowed s)\<rparr>))"
| step_disallow:
    "cb_Allow cfg now (sys_breaker s) = (b, Some (err :: unit cb_error)) \<Longrightarrow> cb_step cfg s (cb_moved b s)"
| step_mark:
    "gen \<in># sys_allowed s \<Longrightarrow>
     cb_step cfg s
       (cb_moved (cb_Mark cfg now success (sys_breaker s))
          (s\<lparr>sys_allowed := sys_allowed s - {#gen#},
             sys_strays := if gen = cb_generation (sys_breaker s) then sys_strays s else sys_strays s + 1\<rparr>))"
| step_stray:
    "cb_step cfg s
       (cb_moved (cb_Mark cfg now success (sys_breaker s)) (s\<lparr>sys_strays := sys_strays s + 1\<rparr>))"
| step_observe:
    "cb_step cfg s (cb_moved (cb_checkRecovery cfg now (sys_breaker s)) s)"
| step_reset:
    "cb_step cfg s (cb_moved (cb_Reset cfg now (sys_breaker s)) s)"

inductive_cases cb_stepE: "cb_step cfg s s'"

inductive cb_reachable :: "cb_Config \<Rightarrow> cb_sys \<Rightarrow> bool" for cfg where
  reach_init:
    "cb_New cfg0 = (cfg, b) \<Longrightarrow>
     cb_reachable cfg \<lparr>sys_breaker = b, sys_tickets = {#}, sys_allowed = {#}, sys_strays = 0, sys_epoch = 0\<rparr>"
| reach_step: "cb_reachable cfg s \<Longrightarrow> cb_step cfg s s' \<Longrightarrow> cb_reachable cfg s'"

section \<open>The window\<close>

lemmas cb_defs = cb_recordOutcomeAllow_def cb_trip_def cb_newState_def cb_recordOutcome_def Let_def

text \<open>What the code keeps of its ring buffer in every state.\<close>

definition cb_wf :: "cb_Config \<Rightarrow> CircuitBreaker \<Rightarrow> bool" where
  "cb_wf cfg b \<longleftrightarrow>
     length (cb_window b) = nat (cb_SlidingWindowSize cfg) \<and> 0 < cb_SlidingWindowSize cfg \<and>
     cb_windowPos b < length (cb_window b) \<and> cb_windowLen b \<le> length (cb_window b)"

lemma cb_wf_New: "cb_New cfg0 = (cfg, b) \<Longrightarrow> cb_wf cfg b"
  by (auto simp: cb_New_def cb_normalize_def cb_wf_def Let_def)

lemma cb_wf_newState [inv_intros]: "cb_wf cfg b \<Longrightarrow> cb_wf cfg (cb_newState cfg now to b)"
  by (auto simp: cb_wf_def cb_newState_def Let_def split: cb_State.splits)

lemma cb_wf_trip [inv_intros]: "cb_wf cfg b \<Longrightarrow> cb_wf cfg (cb_trip cfg now to b)"
  unfolding cb_trip_def by (rule cb_wf_newState)

lemma cb_wf_checkRecovery [inv_intros]: "cb_wf cfg b \<Longrightarrow> cb_wf cfg (cb_checkRecovery cfg now b)"
  by (simp add: cb_checkRecovery_def cb_wf_trip)

lemma cb_wf_recordOutcome [inv_intros]: "cb_wf cfg b \<Longrightarrow> cb_wf cfg (cb_recordOutcome cfg r b)"
  by (auto simp: cb_wf_def cb_recordOutcome_def)

lemma cb_wf_counters [inv_intros]:
  "cb_wf cfg b \<Longrightarrow> cb_wf cfg (b\<lparr>cb_halfOpenRequests := x\<rparr>)"
  "cb_wf cfg b \<Longrightarrow> cb_wf cfg (b\<lparr>cb_halfOpenSuccesses := x\<rparr>)"
  by (simp_all add: cb_wf_def)

lemma cb_wf_record [inv_intros]:
  "cb_wf cfg b \<Longrightarrow> cb_wf cfg (cb_recordOutcomeAllow cfg now r b)"
  by (auto simp: cb_recordOutcomeAllow_def Let_def intro!: inv_intros split: cb_State.splits)

text \<open>
  The ring buffer against the list \<open>outs\<close> of all the outcomes recorded since the window was
  last cleared: its valid entries are the last \<open>n\<close> of them.
\<close>

definition last_n :: "nat \<Rightarrow> 'a list \<Rightarrow> 'a list" where
  "last_n n xs = drop (length xs - n) xs"

definition cb_ring :: "nat \<Rightarrow> CircuitBreaker \<Rightarrow> bool list \<Rightarrow> bool" where
  "cb_ring n b outs \<longleftrightarrow>
     length (cb_window b) = n \<and> cb_windowLen b = min n (length outs) \<and>
     cb_windowPos b = length outs mod n \<and>
     (if length outs \<le> n then take (length outs) (cb_window b) = outs
      else drop (cb_windowPos b) (cb_window b) @ take (cb_windowPos b) (cb_window b) = last_n n outs)"

lemma last_n_snoc: "0 < n \<Longrightarrow> n \<le> length xs \<Longrightarrow> last_n n (xs @ [x]) = tl (last_n n xs) @ [x]"
  by (simp add: last_n_def Suc_diff_le drop_Suc tl_drop)

lemma last_n_all: "length xs \<le> n \<Longrightarrow> last_n n xs = xs"
  by (simp add: last_n_def)

lemma rotate_write:
  assumes "p < length w" "Suc p < length w"
  shows "drop (Suc p) (w[p := x]) @ take (Suc p) (w[p := x]) = tl (drop p w @ take p w) @ [x]"
proof -
  have "drop (Suc p) (w[p := x]) = drop (Suc p) w" "take (Suc p) (w[p := x]) = take p w @ [x]"
    using assms by (simp_all add: take_Suc_conv_app_nth)
  moreover have "drop p w = w ! p # drop (Suc p) w" using assms(1) by (rule Cons_nth_drop_Suc [symmetric])
  ultimately show ?thesis by simp
qed

lemma rotate_write_last:
  assumes "Suc p = length w"
  shows "w[p := x] = tl (drop p w @ take p w) @ [x]"
proof -
  from assms have "length (take p w) = p" "drop p w = [w ! p]"
    by (simp_all add: Cons_nth_drop_Suc [symmetric])
  moreover have "w[p := x] = take p w @ [x]"
    using assms upd_conv_take_nth_drop [of p w x] by simp
  ultimately show ?thesis by simp
qed

lemma cb_ring_record:
  assumes r: "cb_ring n b outs" and n: "0 < n" "nat (cb_SlidingWindowSize cfg) = n"
  shows "cb_ring n (cb_recordOutcome cfg x b) (outs @ [x])"
proof -
  let ?p = "cb_windowPos b" and ?w = "cb_window b"
  have N: "cb_SlidingWindowSize cfg = int n" using n by auto
  have p: "?p < n" using r n by (simp add: cb_ring_def)
  have pos: "(?p + 1) mod n = length (outs @ [x]) mod n"
    using r by (simp add: cb_ring_def mod_Suc_eq)
  consider "length outs < n" | "length outs \<ge> n" by linarith
  then show ?thesis
  proof cases
    case 1
    then have "take (length outs) ?w = outs" "?p = length outs" using r by (simp_all add: cb_ring_def)
    with 1 r pos show ?thesis
      by (simp add: cb_ring_def cb_recordOutcome_def N take_Suc_conv_app_nth)
  next
    case 2
    have rot: "drop ?p ?w @ take ?p ?w = last_n n outs"
    proof (cases "length outs = n")
      case True
      with r show ?thesis by (auto simp: cb_ring_def last_n_all)
    next
      case False
      with r 2 show ?thesis unfolding cb_ring_def by (metis le_antisym)
    qed
    have len: "length ?w = n" using r by (simp add: cb_ring_def)
    let ?w' = "?w[?p := x]" and ?p' = "(?p + 1) mod n"
    have "drop ?p' ?w' @ take ?p' ?w' = last_n n (outs @ [x])"
    proof (cases "Suc ?p = n")
      case True
      with rot len 2 n(1) show ?thesis
        using rotate_write_last [of ?p ?w x] by (simp add: last_n_snoc)
    next
      case False
      with p have "Suc ?p < n" by simp
      with rot len 2 n(1) show ?thesis
        using rotate_write [of ?p ?w x] by (simp add: last_n_snoc)
    qed
    with 2 r pos len show ?thesis by (simp add: cb_ring_def cb_recordOutcome_def N)
  qed
qed

lemma cb_ring_failures:
  assumes "cb_ring n b outs"
  shows "cb_failures b = length (filter Not (last_n n outs))"
proof (cases "length outs \<le> n")
  case True
  with assms show ?thesis by (auto simp: cb_ring_def cb_failures_def last_n_all min_absorb2)
next
  case False
  then have len: "cb_windowLen b = n" "length (cb_window b) = n"
    and rot: "drop (cb_windowPos b) (cb_window b) @ take (cb_windowPos b) (cb_window b) = last_n n outs"
    using assms by (auto simp: cb_ring_def)
  have "length (filter Not (last_n n outs)) =
      length (filter Not (take (cb_windowPos b) (cb_window b) @ drop (cb_windowPos b) (cb_window b)))"
    unfolding rot [symmetric] filter_append length_append by (rule add.commute)
  with len show ?thesis by (simp add: cb_failures_def)
qed

lemma cb_ring_fold:
  assumes "cb_ring n b outs" "0 < n" "nat (cb_SlidingWindowSize cfg) = n"
  shows "cb_ring n (fold (cb_recordOutcome cfg) rs b) (outs @ rs)"
  using assms
proof (induction rs arbitrary: b outs)
  case (Cons r rs)
  from Cons.IH [OF cb_ring_record [OF Cons.prems, of r]] Cons.prems show ?case by simp
qed simp

text \<open>The breaker's window has just been cleared.\<close>

definition cb_cleared :: "cb_Config \<Rightarrow> CircuitBreaker \<Rightarrow> bool" where
  "cb_cleared cfg b \<longleftrightarrow> cb_wf cfg b \<and> cb_windowPos b = 0 \<and> cb_windowLen b = 0"

lemma cb_cleared_New: "cb_New cfg0 = (cfg, b) \<Longrightarrow> cb_cleared cfg b"
  using cb_wf_New [of cfg0 cfg b] by (auto simp: cb_cleared_def cb_New_def Let_def)

lemma cb_cleared_Reset: "cb_wf cfg b \<Longrightarrow> cb_cleared cfg (cb_Reset cfg now b)"
  by (auto simp: cb_cleared_def cb_Reset_def intro!: inv_intros)
    (simp_all add: cb_defs)

text \<open>Outcomes recorded one after the other, by requests of the current generation.\<close>

definition cb_record_all :: "cb_Config \<Rightarrow> gotime \<Rightarrow> bool list \<Rightarrow> CircuitBreaker \<Rightarrow> CircuitBreaker" where
  "cb_record_all cfg now outs b =
     fold (\<lambda>r b. cb_afterRequest cfg now (cb_generation b) r b) outs b"

lemma cb_record_all_open: "cb_state b = StateOpen \<Longrightarrow> cb_state (cb_record_all cfg now outs b) = StateOpen"
proof (induction outs arbitrary: b)
  case (Cons r rs)
  then have "cb_state (cb_afterRequest cfg now (cb_generation b) r b) = StateOpen"
    by (simp add: cb_afterRequest_def cb_recordOutcomeAllow_def)
  then show ?case using Cons.IH by (simp add: cb_record_all_def)
qed (simp add: cb_record_all_def)

lemma cb_state_trip [simp]: "cb_state (cb_trip cfg now to b) = to"
  by (simp add: cb_defs split: cb_State.splits)

lemma cb_state_recordOutcome [simp]: "cb_state (cb_recordOutcome cfg r b) = cb_state b"
  by (simp add: cb_recordOutcome_def)

lemma cb_after_closed:
  "cb_state b = StateClosed \<Longrightarrow> cb_afterRequest cfg now (cb_generation b) r b =
    (let b' = cb_recordOutcome cfg r b in
     if \<not> r \<and> cb_shouldTrip cfg b' then cb_trip cfg now StateOpen b' else b')"
  by (simp add: cb_afterRequest_def cb_recordOutcomeAllow_def)

lemma cb_record_all_closed:
  assumes "cb_state b = StateClosed" "cb_state (cb_record_all cfg now outs b) = StateClosed"
  shows "cb_record_all cfg now outs b = fold (cb_recordOutcome cfg) outs b"
  using assms
proof (induction outs arbitrary: b)
  case (Cons r rs)
  let ?b = "cb_recordOutcome cfg r b"
  have step: "cb_record_all cfg now (r # rs) b =
      cb_record_all cfg now rs (cb_afterRequest cfg now (cb_generation b) r b)"
    by (simp add: cb_record_all_def)
  have "\<not> (\<not> r \<and> cb_shouldTrip cfg ?b)"
    using Cons.prems cb_record_all_open [of "cb_trip cfg now StateOpen ?b" cfg now rs]
    unfolding step by (auto simp: cb_after_closed Let_def)
  then have "cb_afterRequest cfg now (cb_generation b) r b = ?b"
    using Cons.prems by (auto simp: cb_after_closed Let_def)
  with step Cons show ?case by simp
qed (simp add: cb_record_all_def)

text \<open>What the window promises: the trip condition on the last \<open>n\<close> outcomes.\<close>

definition cb_rate_spec :: "cb_Config \<Rightarrow> bool list \<Rightarrow> bool" where
  "cb_rate_spec cfg recent \<longleftrightarrow>
     cb_MinRequests cfg \<le> int (length recent) \<and>
     cb_FailureThreshold cfg \<le> fdiv64 (int (length (filter Not recent))) (int (length recent))"

lemma cb_window_is_last_n:
  assumes "cb_cleared cfg b"
  shows "cb_shouldTrip cfg (fold (cb_recordOutcome cfg) outs b) \<longleftrightarrow>
    cb_rate_spec cfg (last_n (nat (cb_SlidingWindowSize cfg)) outs)"
proof -
  let ?n = "nat (cb_SlidingWindowSize cfg)" and ?b = "fold (cb_recordOutcome cfg) outs b"
  have n: "0 < ?n" using assms(1) by (simp add: cb_cleared_def cb_wf_def)
  have "cb_ring ?n b []" using assms(1) by (simp add: cb_ring_def cb_cleared_def cb_wf_def)
  from cb_ring_fold [OF this n refl] have ring: "cb_ring ?n ?b outs" by simp
  have "cb_windowLen ?b = length (last_n ?n outs)"
    using ring by (simp add: cb_ring_def last_n_def)
  with cb_ring_failures [OF ring] show ?thesis by (simp add: cb_shouldTrip_def cb_rate_spec_def not_less)
qed

text \<open>
  C4. The closed breaker trips on the failure rate of the last \<open>N\<close> outcomes: when a sequence
  of outcomes recorded from a cleared window has left it closed, the next outcome opens it
  exactly when it is a failure, at least \<open>MinRequests\<close> of the last \<open>SlidingWindowSize\<close>
  outcomes are there, and the rate of failures among them reaches the threshold.
\<close>

theorem cb_trips_on_recent_rate:
  assumes "cb_cleared cfg b" "cb_state b = StateClosed"
    and "cb_state (cb_record_all cfg now outs b) = StateClosed"
  shows "cb_state (cb_record_all cfg now (outs @ [r]) b) =
    (if \<not> r \<and> cb_rate_spec cfg (last_n (nat (cb_SlidingWindowSize cfg)) (outs @ [r]))
     then StateOpen else StateClosed)"
proof -
  let ?b = "fold (cb_recordOutcome cfg) outs b"
  have eq: "cb_record_all cfg now outs b = ?b" by (rule cb_record_all_closed [OF assms(2,3)])
  have "cb_record_all cfg now (outs @ [r]) b = cb_afterRequest cfg now (cb_generation ?b) r ?b"
    using eq by (simp add: cb_record_all_def)
  moreover have "cb_state ?b = StateClosed" using assms(3) eq by simp
  ultimately show ?thesis
    using cb_window_is_last_n [OF assms(1), of "outs @ [r]"]
    by (cases r) (simp_all add: cb_after_closed Let_def)
qed

text \<open>A configuration for the examples: a window of four outcomes, two of them needed.\<close>

definition cb_demo :: cb_Config where
  "cb_demo = \<lparr>cb_MaxRequests = 2, cb_FailureThreshold = 1 / 2, cb_MinRequests = 2,
     cb_RecoveryTimeout = 10, cb_SlidingWindowSize = 4, cb_OnStateChange = True, cb_Name = ''db''\<rparr>"

theorem cb_trips_on_recent_rate_witness:
  "cb_state (cb_record_all cb_demo 0 [True, True, True, True, False, False] (snd (cb_New cb_demo))) =
   StateOpen"
proof -
  let ?b = "snd (cb_New cb_demo)" and ?outs = "[True, True, True, True, False]"
  have new: "cb_New cb_demo = (cb_demo, ?b)" by code_simp
  have st: "cb_state ?b = StateClosed" "cb_state (cb_record_all cb_demo 0 ?outs ?b) = StateClosed"
    by code_simp+
  have "cb_rate_spec cb_demo (last_n (nat (cb_SlidingWindowSize cb_demo)) (?outs @ [False]))"
    by code_simp
  with cb_trips_on_recent_rate [OF cb_cleared_New [OF new] st, of False] show ?thesis by simp
qed

section \<open>The half-open limit\<close>

lemma cb_generation_step:
  "cb_generation (cb_trip cfg now to b) = cb_generation b + 1"
  by (simp add: cb_defs split: cb_State.splits)

lemma cb_checkRecovery_cases:
  obtains "cb_checkRecovery cfg now b = b"
  | "cb_state b = StateOpen" "cb_checkRecovery cfg now b = cb_trip cfg now StateHalfOpen b"
proof -
  have "cb_checkRecovery cfg now b = b \<or>
      cb_state b = StateOpen \<and> cb_checkRecovery cfg now b = cb_trip cfg now StateHalfOpen b"
    by (simp add: cb_checkRecovery_def)
  with that show thesis by blast
qed

lemma cb_trip_counters:
  "cb_halfOpenRequests (cb_trip cfg now to b) = 0" "cb_halfOpenSuccesses (cb_trip cfg now to b) = 0"
  by (simp_all add: cb_defs split: cb_State.splits)

lemmas cb_trip_simps = cb_generation_step cb_trip_counters

text \<open>
  The invariant of the interleavings, while the 64-bit generation has not wrapped: no request is newer
  than the breaker, and in the half-open state, while there are fewer than \<open>2 ^ 31\<close> strays, the counters
  are exact: the requests of the current generation less the strays.
\<close>

definition sys_requests :: "cb_sys \<Rightarrow> uint64 multiset" where
  "sys_requests s = sys_tickets s + sys_allowed s"

definition cb_exact :: "cb_Config \<Rightarrow> CircuitBreaker \<Rightarrow> uint64 multiset \<Rightarrow> nat \<Rightarrow> bool" where
  "cb_exact cfg b ts n \<longleftrightarrow>
     (cb_state b = StateHalfOpen \<longrightarrow>
        sint (cb_halfOpenRequests b) = int (count ts (cb_generation b)) - int n \<and>
        sint (cb_halfOpenRequests b) \<le> cb_MaxRequests cfg \<and>
        0 \<le> sint (cb_halfOpenSuccesses b) \<and>
        sint (cb_halfOpenSuccesses b) < cb_MaxRequests cfg)"

definition cb_inv :: "cb_Config \<Rightarrow> cb_sys \<Rightarrow> bool" where
  "cb_inv cfg s \<longleftrightarrow>
     (sys_epoch s < 2 ^ 64 \<longrightarrow>
        cb_generation (sys_breaker s) = of_nat (sys_epoch s) \<and>
        (\<forall>t \<in># sys_requests s. unat t \<le> sys_epoch s) \<and>
        (sys_strays s < 2 ^ 31 \<longrightarrow> cb_exact cfg (sys_breaker s) (sys_requests s) (sys_strays s)))"

lemma word_succ_neq: "(w :: uint64) + 1 \<noteq> w"
  by simp

lemma cb_moved_simps [simp]:
  "sys_breaker (cb_moved b s) = b" "sys_tickets (cb_moved b s) = sys_tickets s"
  "sys_allowed (cb_moved b s) = sys_allowed s" "sys_requests (cb_moved b s) = sys_requests s"
  by (simp_all add: cb_moved_def Let_def sys_requests_def)

lemma cb_moved_same:
  "cb_generation b = cb_generation (sys_breaker s) \<Longrightarrow>
    sys_epoch (cb_moved b s) = sys_epoch s \<and> sys_strays (cb_moved b s) = sys_strays s"
  by (simp add: cb_moved_def Let_def)

text \<open>After a transition no request has the new generation, and there are no strays.\<close>

lemma cb_inv_fresh:
  assumes inv: "cb_inv cfg s" and s': "sys_breaker s' = sys_breaker s" "sys_epoch s' = sys_epoch s"
    and b: "cb_generation b = cb_generation (sys_breaker s) + 1"
    and c: "cb_halfOpenRequests b = 0" "cb_halfOpenSuccesses b = 0"
    and max: "0 < cb_MaxRequests cfg" and ts: "sys_requests s' \<subseteq># sys_requests s"
  shows "cb_inv cfg (cb_moved b s')"
proof -
  let ?ts = "sys_requests s'"
  have "count ?ts (of_nat (Suc (sys_epoch s))) = 0" "\<forall>t \<in># ?ts. unat t \<le> sys_epoch s"
    if "Suc (sys_epoch s) < 2 ^ 64"
  proof -
    have le: "\<forall>t \<in># sys_requests s. unat t \<le> sys_epoch s" using inv that by (simp add: cb_inv_def)
    with ts show *: "\<forall>t \<in># ?ts. unat t \<le> sys_epoch s" by (meson mset_subset_eqD)
    have "unat (of_nat (Suc (sys_epoch s)) :: uint64) = Suc (sys_epoch s)"
      using that by (simp add: unat_of_nat take_bit_nat_eq_self del: of_nat_Suc)
    with * have "of_nat (Suc (sys_epoch s)) \<notin># ?ts" by fastforce
    then show "count ?ts (of_nat (Suc (sys_epoch s))) = 0" by (simp add: count_eq_zero_iff)
  qed
  moreover have "sys_epoch (cb_moved b s') = Suc (sys_epoch s)" "sys_strays (cb_moved b s') = 0"
    using b s' word_succ_neq by (simp_all add: cb_moved_def Let_def)
  ultimately show ?thesis
    using inv b c max unfolding cb_inv_def cb_exact_def
    by (auto simp: add.commute intro: le_SucI)
qed

text \<open>A step that does not move the breaker to another generation.\<close>

lemma cb_inv_same:
  assumes inv: "cb_inv cfg s" and s': "sys_breaker s' = sys_breaker s" "sys_epoch s' = sys_epoch s"
    and b: "cb_generation b = cb_generation (sys_breaker s)" and n: "sys_strays s \<le> sys_strays s'"
    and ts: "\<forall>t \<in># sys_requests s'. t \<in># sys_requests s \<or> t = cb_generation b"
    and ex: "cb_exact cfg (sys_breaker s) (sys_requests s) (sys_strays s) \<Longrightarrow> sys_strays s' < 2 ^ 31 \<Longrightarrow>
      cb_exact cfg b (sys_requests s') (sys_strays s')"
  shows "cb_inv cfg (cb_moved b s')"
proof -
  have m: "sys_epoch (cb_moved b s') = sys_epoch s" "sys_strays (cb_moved b s') = sys_strays s'"
    using cb_moved_same [of b s'] b s' by simp_all
  show ?thesis
    unfolding cb_inv_def m cb_moved_simps
  proof (intro impI)
    assume e: "sys_epoch s < 2 ^ 64"
    have u: "unat (of_nat (sys_epoch s) :: uint64) = sys_epoch s"
      using e by (simp add: unat_of_nat take_bit_nat_eq_self)
    have I: "cb_generation (sys_breaker s) = of_nat (sys_epoch s)" "\<forall>t \<in># sys_requests s. unat t \<le> sys_epoch s"
      "sys_strays s < 2 ^ 31 \<longrightarrow> cb_exact cfg (sys_breaker s) (sys_requests s) (sys_strays s)"
      using inv e by (simp_all add: cb_inv_def)
    have "unat t \<le> sys_epoch s" if "t \<in># sys_requests s'" for t
      using ts that I(1,2) u b by auto
    moreover have "cb_exact cfg b (sys_requests s') (sys_strays s')" if "sys_strays s' < 2 ^ 31"
      using ex I(3) n that by simp
    ultimately show "cb_generation b = of_nat (sys_epoch s) \<and> (\<forall>t \<in># sys_requests s'. unat t \<le> sys_epoch s) \<and>
        (sys_strays s' < 2 ^ 31 \<longrightarrow> cb_exact cfg b (sys_requests s') (sys_strays s'))"
      using b I(1) by simp
  qed
qed

text \<open>The limits of the configuration as \<open>New\<close> leaves them, within the 32-bit counters.\<close>

definition cb_limits :: "cb_Config \<Rightarrow> bool" where
  "cb_limits cfg \<longleftrightarrow> 0 < cb_MaxRequests cfg \<and> cb_MaxRequests cfg < 2 ^ 31"

lemma cb_inv_recover:
  "cb_inv cfg s \<Longrightarrow> cb_limits cfg \<Longrightarrow> cb_inv cfg (cb_moved (cb_checkRecovery cfg now (sys_breaker s)) s)"
proof (rule cb_checkRecovery_cases [of cfg now "sys_breaker s"])
  assume inv: "cb_inv cfg s" and "cb_limits cfg"
  show ?thesis if "cb_checkRecovery cfg now (sys_breaker s) = sys_breaker s"
    unfolding that using inv by (intro cb_inv_same [of cfg s]) auto
  show ?thesis if "cb_checkRecovery cfg now (sys_breaker s) = cb_trip cfg now StateHalfOpen (sys_breaker s)"
    unfolding that using inv \<open>cb_limits cfg\<close>
    by (intro cb_inv_fresh [of cfg s]) (auto simp: cb_trip_simps cb_limits_def)
qed

lemma cb_moved_moved:
  "cb_generation b = cb_generation b1 \<Longrightarrow> cb_moved b (cb_moved b1 s) = cb_moved b s"
  by (simp add: cb_moved_def Let_def)

lemma cb_before_Some:
  "cb_beforeRequest cfg now b0 = (b, gen, Some err) \<Longrightarrow> b = cb_checkRecovery cfg now b0"
  by (auto simp: cb_beforeRequest_def Let_def split: cb_State.splits if_splits)

lemma cb_before_None:
  "cb_beforeRequest cfg now b0 = (b, gen, None) \<Longrightarrow>
    gen = cb_generation b \<and> cb_generation b = cb_generation (cb_checkRecovery cfg now b0) \<and>
    (cb_state b = StateClosed \<and> b = cb_checkRecovery cfg now b0 \<or>
     cb_state b = StateHalfOpen \<and> sint (cb_halfOpenRequests (cb_checkRecovery cfg now b0)) < cb_MaxRequests cfg \<and>
     cb_state (cb_checkRecovery cfg now b0) = StateHalfOpen \<and>
     b = (cb_checkRecovery cfg now b0)\<lparr>cb_halfOpenRequests := cb_halfOpenRequests (cb_checkRecovery cfg now b0) + 1\<rparr>)"
  by (auto simp: cb_beforeRequest_def Let_def split: cb_State.splits if_splits)


text \<open>Admission, by \<open>Execute\<close> or by \<open>Allow\<close>.\<close>

lemma cb_inv_admit:
  assumes inv: "cb_inv cfg s" and lim: "cb_limits cfg"
    and bef: "cb_beforeRequest cfg now (sys_breaker s) = (b, gen, None)"
    and s': "sys_breaker s' = sys_breaker s" "sys_epoch s' = sys_epoch s" "sys_strays s' = sys_strays s"
      "sys_requests s' = add_mset gen (sys_requests s)"
  shows "cb_inv cfg (cb_moved b s')"
proof -
  let ?b1 = "cb_checkRecovery cfg now (sys_breaker s)"
  let ?s1 = "cb_moved ?b1 s" and ?s2 = "cb_moved ?b1 s'"
  have inv1: "cb_inv cfg ?s1" by (rule cb_inv_recover [OF inv lim])
  have s1: "sys_epoch ?s2 = sys_epoch ?s1" "sys_strays ?s2 = sys_strays ?s1"
    using s' by (simp_all add: cb_moved_def Let_def)
  note B = cb_before_None [OF bef]
  have "cb_exact cfg b (add_mset gen (sys_requests s)) n" if "cb_exact cfg ?b1 (sys_requests s) n" "n < 2 ^ 31" for n
  proof (cases "cb_state b = StateHalfOpen")
    case True
    then have st: "cb_state ?b1 = StateHalfOpen" "sint (cb_halfOpenRequests ?b1) < cb_MaxRequests cfg"
      "b = ?b1\<lparr>cb_halfOpenRequests := cb_halfOpenRequests ?b1 + 1\<rparr>" using B by auto
    have q: "sint (cb_halfOpenRequests ?b1) = int (count (sys_requests s) (cb_generation ?b1)) - int n"
      using that(1) st(1) by (simp add: cb_exact_def)
    moreover have "int n < 2 ^ 31" using that(2) by simp
    ultimately have "- (2 ^ 31) < sint (cb_halfOpenRequests ?b1)" by linarith
    then have "sint (cb_halfOpenRequests ?b1 + 1) = sint (cb_halfOpenRequests ?b1) + 1"
      using st(2) lim by (subst sint_add32) (auto simp: in_int32_def cb_limits_def)
    then show ?thesis using that(1) st q B by (simp add: cb_exact_def)
  next
    case False
    then show ?thesis by (simp add: cb_exact_def)
  qed
  note exact = this
  have "cb_inv cfg (cb_moved b ?s2)"
  proof (rule cb_inv_same [OF inv1])
    show "cb_generation b = cb_generation (sys_breaker ?s1)" "sys_breaker ?s2 = sys_breaker ?s1" using B by simp_all
    show "\<forall>t \<in># sys_requests ?s2. t \<in># sys_requests ?s1 \<or> t = cb_generation b" using B s'(4) by simp
    show "cb_exact cfg b (sys_requests ?s2) (sys_strays ?s2)"
      if "cb_exact cfg (sys_breaker ?s1) (sys_requests ?s1) (sys_strays ?s1)" "sys_strays ?s2 < 2 ^ 31"
      using exact that s1(2) s'(4) by simp
  qed (simp_all add: s1)
  then show ?thesis using B by (simp add: cb_moved_moved)
qed

text \<open>
  A recorded outcome, of \<open>Execute\<close> or of a mark: one request of the current generation less, or one
  stray more.
\<close>

lemma cb_inv_record:
  assumes inv: "cb_inv cfg s" and lim: "cb_limits cfg"
    and s': "sys_breaker s' = sys_breaker s" "sys_epoch s' = sys_epoch s" "sys_strays s \<le> sys_strays s'"
      "sys_requests s' \<subseteq># sys_requests s"
    and one: "int (count (sys_requests s') (cb_generation (sys_breaker s))) - int (sys_strays s') =
      int (count (sys_requests s) (cb_generation (sys_breaker s))) - int (sys_strays s) - 1"
  shows "cb_inv cfg (cb_moved (cb_recordOutcomeAllow cfg now r (sys_breaker s)) s')"
proof -
  let ?B = "sys_breaker s" and ?b = "cb_recordOutcomeAllow cfg now r (sys_breaker s)"
  have fresh: "cb_inv cfg (cb_moved (cb_trip cfg now to b') s')"
    if "cb_generation b' = cb_generation ?B" for to b'
    using inv lim that s' by (intro cb_inv_fresh [of cfg s]) (auto simp: cb_trip_simps cb_limits_def)
  have same: "cb_inv cfg (cb_moved b' s')"
    if "cb_generation b' = cb_generation ?B"
      "cb_exact cfg ?B (sys_requests s) (sys_strays s) \<Longrightarrow> sys_strays s' < 2 ^ 31 \<Longrightarrow>
        cb_exact cfg b' (sys_requests s') (sys_strays s')" for b'
    using inv that s' by (intro cb_inv_same [of cfg s]) (auto dest: mset_subset_eqD)
  show ?thesis
  proof (cases "cb_state ?B")
    case StateClosed
    let ?b1 = "cb_recordOutcome cfg r ?B"
    have g: "cb_generation ?b1 = cb_generation ?B" by (simp add: cb_recordOutcome_def)
    have "?b = (if \<not> r \<and> cb_shouldTrip cfg ?b1 then cb_trip cfg now StateOpen ?b1 else ?b1)"
      using StateClosed by (simp add: cb_recordOutcomeAllow_def Let_def)
    moreover have "cb_inv cfg (cb_moved ?b1 s')"
      using StateClosed by (intro same [OF g]) (simp add: cb_exact_def cb_recordOutcome_def)
    ultimately show ?thesis using fresh [OF g] by (cases r) simp_all
  next
    case StateOpen
    let ?b1 = "?B\<lparr>cb_halfOpenRequests := cb_halfOpenRequests ?B - 1\<rparr>"
    have "?b = ?b1" using StateOpen by (simp add: cb_recordOutcomeAllow_def)
    moreover have "cb_inv cfg (cb_moved ?b1 s')"
      using StateOpen by (intro same) (simp_all add: cb_exact_def)
    ultimately show ?thesis by (simp only:)
  next
    case StateHalfOpen
    let ?b1 = "?B\<lparr>cb_halfOpenRequests := cb_halfOpenRequests ?B - 1\<rparr>"
    let ?b2 = "?b1\<lparr>cb_halfOpenSuccesses := cb_halfOpenSuccesses ?b1 + 1\<rparr>"
    have eq: "?b = (if r then if cb_MaxRequests cfg \<le> sint (cb_halfOpenSuccesses ?b2)
        then cb_trip cfg now StateClosed ?b2 else ?b2 else cb_trip cfg now StateOpen ?b1)"
      using StateHalfOpen by (simp add: cb_recordOutcomeAllow_def Let_def)
    have "cb_exact cfg ?b2 (sys_requests s') (sys_strays s')"
      if ex: "cb_exact cfg ?B (sys_requests s) (sys_strays s)" and n: "sys_strays s' < 2 ^ 31"
        and lt: "\<not> cb_MaxRequests cfg \<le> sint (cb_halfOpenSuccesses ?b2)"
    proof -
      let ?q = "cb_halfOpenRequests ?B" and ?u = "cb_halfOpenSuccesses ?B"
      have e: "sint ?q = int (count (sys_requests s) (cb_generation ?B)) - int (sys_strays s)" "sint ?q \<le> cb_MaxRequests cfg"
        "0 \<le> sint ?u" "sint ?u < cb_MaxRequests cfg"
        using ex StateHalfOpen by (simp_all add: cb_exact_def)
      have "int (sys_strays s') < 2 ^ 31" using n by simp
      then have low: "- (2 ^ 31) < sint ?q - 1" using e(1) one by linarith
      have "sint (?u + 1) = sint ?u + 1"
        using e lim by (subst sint_add32) (auto simp: in_int32_def cb_limits_def)
      moreover have "sint (?q - 1) = sint ?q - 1"
        using e(2) low lim by (subst sint_sub32) (auto simp: in_int32_def cb_limits_def)
      ultimately show ?thesis using e lt one by (simp add: cb_exact_def)
    qed
    then have A: "cb_inv cfg (cb_moved ?b2 s')"
      if "\<not> cb_MaxRequests cfg \<le> sint (cb_halfOpenSuccesses ?b2)"
      using that by (intro same) simp_all
    have B: "cb_inv cfg (cb_moved (cb_trip cfg now StateOpen ?b1) s')" by (rule fresh) simp
    have C: "cb_inv cfg (cb_moved (cb_trip cfg now StateClosed ?b2) s')" by (rule fresh) simp
    show ?thesis
    proof (cases "r \<and> \<not> cb_MaxRequests cfg \<le> sint (cb_halfOpenSuccesses ?b2)")
      case True
      then have e2: "?b = ?b2" using eq by simp
      show ?thesis by (subst e2, rule A) (use True in blast)
    next
      case False
      then have e2: "?b = (if r then cb_trip cfg now StateClosed ?b2 else cb_trip cfg now StateOpen ?b1)"
        using eq by simp
      show ?thesis by (subst e2, cases r) (simp only: if_True if_False B C)+
    qed
  qed
qed

lemma cb_inv_finish:
  assumes inv: "cb_inv cfg s" and lim: "cb_limits cfg" and t: "gen \<in># sys_tickets s"
  shows "cb_inv cfg (cb_moved (cb_afterRequest cfg now gen r (sys_breaker s)) (s\<lparr>sys_tickets := sys_tickets s - {#gen#}\<rparr>))"
proof -
  let ?B = "sys_breaker s" and ?s' = "s\<lparr>sys_tickets := sys_tickets s - {#gen#}\<rparr>"
  have cnt: "sys_requests s = add_mset gen (sys_requests ?s')" using t by (simp add: sys_requests_def)
  have sub: "sys_requests ?s' \<subseteq># sys_requests s" by (simp add: sys_requests_def)
  show ?thesis
  proof (cases "gen = cb_generation ?B")
    case False
    then have "cb_afterRequest cfg now gen r ?B = ?B" by (simp add: cb_afterRequest_def)
    moreover have "cb_inv cfg (cb_moved ?B ?s')"
    proof (rule cb_inv_same [OF inv])
      show "\<forall>t \<in># sys_requests ?s'. t \<in># sys_requests s \<or> t = cb_generation ?B" using sub by (auto dest: mset_subset_eqD)
      show "cb_exact cfg ?B (sys_requests ?s') (sys_strays ?s')" if "cb_exact cfg ?B (sys_requests s) (sys_strays s)"
        using that False by (auto simp: cb_exact_def sys_requests_def)
    qed simp_all
    ultimately show ?thesis by simp
  next
    case True
    then have "cb_afterRequest cfg now gen r ?B = cb_recordOutcomeAllow cfg now r ?B" by (simp add: cb_afterRequest_def)
    moreover have "int (count (sys_requests ?s') (cb_generation ?B)) = int (count (sys_requests s) (cb_generation ?B)) - 1"
      using cnt True by simp
    ultimately show ?thesis using sub by (simp only:) (intro cb_inv_record [OF inv lim], simp_all)
  qed
qed

lemma cb_Mark_eq: "cb_Mark cfg now r b = cb_recordOutcomeAllow cfg now r b"
  by (simp add: cb_Mark_def cb_MarkSuccess_def cb_MarkFailed_def)

lemma cb_inv_mark:
  assumes inv: "cb_inv cfg s" and lim: "cb_limits cfg" and t: "gen \<in># sys_allowed s"
  shows "cb_inv cfg (cb_moved (cb_Mark cfg now r (sys_breaker s))
    (s\<lparr>sys_allowed := sys_allowed s - {#gen#},
       sys_strays := if gen = cb_generation (sys_breaker s) then sys_strays s else sys_strays s + 1\<rparr>))"
proof -
  let ?s' = "s\<lparr>sys_allowed := sys_allowed s - {#gen#},
    sys_strays := if gen = cb_generation (sys_breaker s) then sys_strays s else sys_strays s + 1\<rparr>"
  have "sys_requests s = add_mset gen (sys_requests ?s')" using t by (simp add: sys_requests_def)
  then show ?thesis
    unfolding cb_Mark_eq by (intro cb_inv_record [OF inv lim]) simp_all
qed

lemma cb_inv_step: "cb_step cfg s s' \<Longrightarrow> cb_inv cfg s \<Longrightarrow> cb_limits cfg \<Longrightarrow> cb_inv cfg s'"
proof (induction rule: cb_step.induct)
  case (step_admit now s b gen)
  from cb_inv_admit [OF step_admit(2,3,1)] show ?case by (simp add: sys_requests_def)
next
  case (step_reject now s b gen err)
  then show ?case using cb_before_Some cb_inv_recover by metis
next
  case (step_finish gen s now success)
  from step_finish(2,3,1) show ?case by (rule cb_inv_finish)
next
  case (step_allow now s b)
  then obtain gen where bef: "cb_beforeRequest cfg now (sys_breaker s) = (b, gen, None :: unit cb_error option)"
    by (auto simp: cb_Allow_def split: prod.splits)
  then have "gen = cb_generation b" using cb_before_None by blast
  with cb_inv_admit [OF step_allow(2,3) bef] show ?case by (simp add: sys_requests_def)
next
  case (step_disallow now s b err)
  then have "b = cb_checkRecovery cfg now (sys_breaker s)"
    by (auto simp: cb_Allow_def split: prod.splits intro: cb_before_Some)
  with step_disallow show ?case by (simp add: cb_inv_recover)
next
  case (step_mark gen s now success)
  from step_mark(2,3,1) show ?case by (rule cb_inv_mark)
next
  case (step_stray s now success)
  then show ?case unfolding cb_Mark_eq by (intro cb_inv_record) (simp_all add: sys_requests_def)
next
  case (step_observe s now)
  then show ?case by (intro cb_inv_recover)
next
  case (step_reset s now)
  then show ?case unfolding cb_Reset_def
    by (intro cb_inv_fresh [of cfg s]) (auto simp: cb_trip_simps cb_limits_def)
qed

lemma cb_inv_reachable: "cb_reachable cfg s \<Longrightarrow> cb_limits cfg \<Longrightarrow> cb_inv cfg s"
proof (induction rule: cb_reachable.induct)
  case (reach_init cfg0 b)
  then show ?case by (auto simp: cb_inv_def cb_New_def Let_def cb_exact_def sys_requests_def)
qed (rule cb_inv_step)


text \<open>A run to the half-open state: a failure, the recovery time, an admitted trial.\<close>

definition cb_demo1 :: cb_Config where
  "cb_demo1 = cb_demo\<lparr>cb_MinRequests := 1\<rparr>"

definition cb_demo_admit :: "gotime \<Rightarrow> cb_sys \<Rightarrow> cb_sys" where
  "cb_demo_admit now s =
     (case cb_beforeRequest cb_demo1 now (sys_breaker s) of
        (b, gen, _ :: unit cb_error option) \<Rightarrow>
          cb_moved b (s\<lparr>sys_tickets := add_mset gen (sys_tickets s)\<rparr>))"

definition cb_demo_fail :: "gotime \<Rightarrow> cb_sys \<Rightarrow> cb_sys" where
  "cb_demo_fail now s =
     cb_moved (cb_afterRequest cb_demo1 now 0 False (sys_breaker s)) (s\<lparr>sys_tickets := sys_tickets s - {#0#}\<rparr>)"

definition cb_demo_start :: cb_sys where
  "cb_demo_start = \<lparr>sys_breaker = snd (cb_New cb_demo1), sys_tickets = {#}, sys_allowed = {#}, sys_strays = 0, sys_epoch = 0\<rparr>"

definition cb_demo_run :: cb_sys where
  "cb_demo_run =
     cb_demo_admit (unix_epoch + 11)
       (cb_demo_fail (unix_epoch + 1) (cb_demo_admit (unix_epoch + 1) cb_demo_start))"

lemma cb_demo_admit_reachable:
  assumes "cb_reachable cb_demo1 s"
    and "snd (snd (cb_beforeRequest cb_demo1 now (sys_breaker s))) = (None :: unit cb_error option)"
  shows "cb_reachable cb_demo1 (cb_demo_admit now s)"
proof -
  obtain b gen where e: "cb_beforeRequest cb_demo1 now (sys_breaker s) = (b, gen, None :: unit cb_error option)"
    using assms(2) by (metis prod.collapse)
  show ?thesis
    unfolding cb_demo_admit_def e prod.case by (rule reach_step [OF assms(1) step_admit [OF e]])
qed

lemma cb_demo_reachable: "cb_reachable cb_demo1 cb_demo_run"
proof -
  let ?s1 = "cb_demo_admit (unix_epoch + 1) cb_demo_start"
  let ?s2 = "cb_demo_fail (unix_epoch + 1) ?s1"
  have "cb_New cb_demo1 = (cb_demo1, snd (cb_New cb_demo1))" by code_simp
  then have "cb_reachable cb_demo1 cb_demo_start"
    unfolding cb_demo_start_def by (rule reach_init)
  then have "cb_reachable cb_demo1 ?s1" by (rule cb_demo_admit_reachable) code_simp
  moreover have "0 \<in># sys_tickets ?s1" by code_simp
  ultimately have "cb_reachable cb_demo1 ?s2"
    unfolding cb_demo_fail_def by (rule reach_step [OF _ step_finish])
  then show ?thesis unfolding cb_demo_run_def by (rule cb_demo_admit_reachable) code_simp
qed


section \<open>The open state\<close>

text \<open>
  A breaker that opened at the time \<open>t\<close>, and the steps after it with clock readings below
  some bound: requests, observations and finishing requests of earlier generations.
\<close>

definition cb_opened_at :: "cb_Config \<Rightarrow> gotime \<Rightarrow> CircuitBreaker \<Rightarrow> bool" where
  "cb_opened_at cfg t b \<longleftrightarrow>
     cb_state b = StateOpen \<and> cb_expiry b = UnixNano (t + cb_RecoveryTimeout cfg)"

definition cb_clock_ok :: "gotime \<Rightarrow> bool" where
  "cb_clock_ok t \<longleftrightarrow> unix_epoch < t \<and> t < unix_epoch + 2 ^ 63"

lemma cb_trip_open: "cb_opened_at cfg t (cb_trip cfg t StateOpen b)"
  by (simp add: cb_opened_at_def cb_defs)

lemma sint_UnixNano_ok: "cb_clock_ok t \<Longrightarrow> sint (UnixNano t) = t - unix_epoch"
  by (intro sint_UnixNano) (simp add: cb_clock_ok_def in_int64_def)

lemma UnixNano_neq_0: "cb_clock_ok t \<Longrightarrow> UnixNano t \<noteq> 0"
proof
  assume "cb_clock_ok t" "UnixNano t = 0"
  then have "t - unix_epoch = 0" using sint_UnixNano_ok [of t] by simp
  with \<open>cb_clock_ok t\<close> show False by (simp add: cb_clock_ok_def)
qed

text \<open>
  C29. An open breaker rejects every request, without changing state, until the recovery timeout
  has elapsed since it opened, and the first request after that is admitted as the first
  trial of the half-open state.
\<close>

theorem cb_open_rejects_then_recovers:
  assumes "cb_opened_at cfg t b" "cb_clock_ok now" "cb_clock_ok (t + cb_RecoveryTimeout cfg)"
    and "cb_limits cfg"
  shows "cb_beforeRequest cfg now b =
    (if now < t + cb_RecoveryTimeout cfg then (b, cb_generation b, Some ErrCircuitOpen)
     else ((cb_trip cfg now StateHalfOpen b)\<lparr>cb_halfOpenRequests := 1\<rparr>,
           cb_generation b + 1, None))"
proof -
  have "sint (UnixNano now) < sint (cb_expiry b) \<longleftrightarrow> now < t + cb_RecoveryTimeout cfg"
    using assms by (simp add: cb_opened_at_def sint_UnixNano_ok)
  moreover have "cb_expiry b \<noteq> 0" using assms UnixNano_neq_0 by (simp add: cb_opened_at_def)
  ultimately show ?thesis
    using assms(1,4)
    by (simp add: cb_beforeRequest_def cb_checkRecovery_def Let_def cb_opened_at_def
        cb_trip_simps cb_limits_def)
qed

theorem cb_open_rejects_then_recovers_witness:
  "let b = cb_trip cb_demo (unix_epoch + 5) StateOpen (snd (cb_New cb_demo)) in
   snd (snd (cb_beforeRequest cb_demo (unix_epoch + 14) b)) = Some (ErrCircuitOpen :: unit cb_error) \<and>
   snd (snd (cb_beforeRequest cb_demo (unix_epoch + 15) b)) = (None :: unit cb_error option)"
proof -
  let ?t = "unix_epoch + 5"
  let ?b = "cb_trip cb_demo ?t StateOpen (snd (cb_New cb_demo))"
  have h: "cb_clock_ok (unix_epoch + 14)" "cb_clock_ok (unix_epoch + 15)"
    "cb_clock_ok (?t + cb_RecoveryTimeout cb_demo)" "cb_limits cb_demo"
    by (simp_all add: cb_clock_ok_def cb_demo_def cb_limits_def)
  have "cb_RecoveryTimeout cb_demo = 10" by (simp add: cb_demo_def)
  moreover have "cb_beforeRequest cb_demo (unix_epoch + 14) ?b =
      (?b, cb_generation ?b, Some (ErrCircuitOpen :: unit cb_error))"
    using cb_open_rejects_then_recovers [OF cb_trip_open h(1,3,4)] calculation by simp
  moreover have "cb_beforeRequest cb_demo (unix_epoch + 15) ?b =
      ((cb_trip cb_demo (unix_epoch + 15) StateHalfOpen ?b)\<lparr>cb_halfOpenRequests := 1\<rparr>,
       cb_generation ?b + 1, None :: unit cb_error option)"
    using cb_open_rejects_then_recovers [OF cb_trip_open h(2,3,4)] calculation by simp
  ultimately show ?thesis by (simp add: Let_def)
qed

text \<open>
  The limit bounds the trials in flight, not the trials of a half-open period: with a limit
  of two, a third trial is admitted once the first has succeeded and before the breaker has
  decided.
\<close>

lemma cb_half_open_third_trial:
  "let b0 = cb_trip cb_demo unix_epoch StateHalfOpen (snd (cb_New cb_demo));
       b1 = fst (cb_beforeRequest cb_demo unix_epoch b0);
       b2 = fst (cb_beforeRequest cb_demo unix_epoch b1);
       b3 = cb_afterRequest cb_demo unix_epoch 1 True b2
   in snd (cb_beforeRequest cb_demo unix_epoch b3) = (1, None :: unit cb_error option) \<and>
      cb_state b3 = StateHalfOpen"
  by code_simp

text \<open>
  \<open>MarkFailed\<close> has no generation: a call admitted by \<open>Allow\<close> before the breaker opened
  is recorded against the later half-open period, whose counter becomes negative, and more
  trials than the limit are then admitted at once.
\<close>

lemma cb_mark_without_generation:
  "let b0 = cb_trip cb_demo unix_epoch StateOpen (snd (cb_New cb_demo));
       b1 = cb_trip cb_demo (unix_epoch + 10) StateHalfOpen b0;
       b2 = cb_MarkSuccess cb_demo (unix_epoch + 11) b1
   in sint (cb_halfOpenRequests b2) = -1"
  by code_simp

end
