(* ===== verification/SreBreaker.thy ===== *)
theory SreBreaker
  imports GoPrelude Float64
begin

text \<open>
  The adaptive breaker of \<open>common/circuitbreaker\<close> (file \<open>sre.go\<close>): a rolling counter of
  time slots, and the drop decision computed from it. The random number of a call is an
  argument; a bucket is the triple of its slot and its two counters.
\<close>

section \<open>Data\<close>

record sre_bucket =
  sreb_slot :: int
  sreb_success :: int
  sreb_total :: int

record sre_counter =
  src_buckets :: "sre_bucket list"
  src_bucketDuration :: duration

record sre_options =
  sreo_failureRatio :: float64
  sreo_request :: int
  sreo_bucket :: int
  sreo_window :: duration

datatype sre_State = SREStateOpen | SREStateClosed

record SREBreaker =
  sre_stat :: sre_counter
  sre_k :: float64
  sre_request :: int
  sre_state :: sre_State

section \<open>The rolling counter\<close>

definition newSRERollingCounter :: "nat \<Rightarrow> duration \<Rightarrow> sre_counter" where
  "newSRERollingCounter n d =
     \<lparr>src_buckets = replicate n \<lparr>sreb_slot = 0, sreb_success = 0, sreb_total = 0\<rparr>,
      src_bucketDuration = d\<rparr>"

text \<open>\<open>UnixNano() / duration\<close>; Go's division truncates.\<close>

definition sre_currentSlot :: "gotime \<Rightarrow> sre_counter \<Rightarrow> int" where
  "sre_currentSlot now r = sint (UnixNano now) sdiv src_bucketDuration r"

definition sre_bump :: "int \<Rightarrow> int \<Rightarrow> sre_bucket \<Rightarrow> sre_bucket" where
  "sre_bump slot success b0 =
     (let b = (if sreb_slot b0 \<noteq> slot then \<lparr>sreb_slot = slot, sreb_success = 0, sreb_total = 0\<rparr>
               else b0)
      in b\<lparr>sreb_success := sreb_success b + success, sreb_total := sreb_total b + 1\<rparr>)"

definition sre_add :: "gotime \<Rightarrow> int \<Rightarrow> sre_counter \<Rightarrow> sre_counter" where
  "sre_add now success r =
     (let slot = sre_currentSlot now r;
          offset = nat (slot smod int (length (src_buckets r)))
      in r\<lparr>src_buckets := (src_buckets r)[offset := sre_bump slot success (src_buckets r ! offset)]\<rparr>)"

definition sre_live :: "int \<Rightarrow> int \<Rightarrow> sre_bucket \<Rightarrow> bool" where
  "sre_live slot n b \<longleftrightarrow> \<not> (sreb_total b = 0 \<or> slot - sreb_slot b \<ge> n \<or> sreb_slot b > slot)"

definition sre_summary :: "gotime \<Rightarrow> sre_counter \<Rightarrow> int \<times> int" where
  "sre_summary now r =
     (let slot = sre_currentSlot now r;
          live = filter (sre_live slot (int (length (src_buckets r)))) (src_buckets r)
      in (sum_list (map sreb_success live), sum_list (map sreb_total live)))"

section \<open>The breaker\<close>

definition sre_normalize :: "sre_options \<Rightarrow> sre_options" where
  "sre_normalize o0 = o0
     \<lparr>sreo_failureRatio := if sreo_failureRatio o0 < 0 \<or> sreo_failureRatio o0 \<ge> 1 then 1 / 2
        else sreo_failureRatio o0,
      sreo_request := if sreo_request o0 < 1 then 1 else sreo_request o0,
      sreo_bucket := if sreo_bucket o0 < 1 then 1 else sreo_bucket o0,
      sreo_window := if sreo_window o0 \<le> 0 then 3 * 10 ^ 9 else sreo_window o0\<rparr>"

definition NewSREBreaker :: "sre_options \<Rightarrow> SREBreaker" where
  "NewSREBreaker o0 =
     (let opt = sre_normalize o0;
          d = sreo_window opt sdiv sreo_bucket opt;
          d = (if d \<le> 0 then sreo_window opt else d)
      in \<lparr>sre_stat = newSRERollingCounter (nat (sreo_bucket opt)) d,
          sre_k = f64 (1 / f64 (1 - sreo_failureRatio opt)),
          sre_request = sreo_request opt, sre_state = SREStateClosed\<rparr>)"

definition sre_dropRatio :: "float64 \<Rightarrow> int \<Rightarrow> float64" where
  "sre_dropRatio requests tot =
     max 0 (f64 (f64 (f64 (of_int tot) - requests) / f64 (of_int (tot + 1))))"

definition sre_Allow :: "gotime \<Rightarrow> float64 \<Rightarrow> SREBreaker \<Rightarrow> SREBreaker \<times> bool" where
  "sre_Allow now rnd b =
     (let (successes, tot) = sre_summary now (sre_stat b);
          requests = f64 (sre_k b * f64 (of_int successes))
      in if tot < sre_request b \<or> f64 (of_int tot) < requests
         then (b\<lparr>sre_state := SREStateClosed\<rparr>, True)
         else (b\<lparr>sre_state := SREStateOpen\<rparr>, \<not> rnd < sre_dropRatio requests tot))"

definition sre_MarkSuccess :: "gotime \<Rightarrow> SREBreaker \<Rightarrow> SREBreaker" where
  "sre_MarkSuccess now b = b\<lparr>sre_stat := sre_add now 1 (sre_stat b)\<rparr>"

definition sre_MarkFailed :: "gotime \<Rightarrow> SREBreaker \<Rightarrow> SREBreaker" where
  "sre_MarkFailed now b = b\<lparr>sre_stat := sre_add now 0 (sre_stat b)\<rparr>"

section \<open>The counter counts the recent slots\<close>

text \<open>
  The history: for each recorded outcome its slot and its success (1 or 0). In slot order,
  the bucket of a residue class holds the counts of the newest slot of the class.
\<close>

type_synonym sre_history = "(int \<times> int) list"

definition hist_sum :: "(int \<times> int \<Rightarrow> int) \<Rightarrow> sre_history \<Rightarrow> int \<Rightarrow> int" where
  "hist_sum v h s = sum_list (map (\<lambda>e. if fst e = s then v e else 0) h)"

abbreviation hist_total :: "sre_history \<Rightarrow> int \<Rightarrow> int" where
  "hist_total \<equiv> hist_sum (\<lambda>_. 1)"

abbreviation hist_success :: "sre_history \<Rightarrow> int \<Rightarrow> int" where
  "hist_success \<equiv> hist_sum snd"

definition sre_bucket_ok :: "int \<Rightarrow> int \<Rightarrow> sre_history \<Rightarrow> int \<Rightarrow> sre_bucket \<Rightarrow> bool" where
  "sre_bucket_ok n L h i b \<longleftrightarrow>
     sreb_slot b \<le> L \<and>
     (sreb_total b \<noteq> 0 \<longrightarrow> sreb_slot b mod n = i) \<and>
     (sreb_slot b mod n = i \<longrightarrow>
        sreb_total b = hist_total h (sreb_slot b) \<and> sreb_success b = hist_success h (sreb_slot b)) \<and>
     (\<forall>s. s mod n = i \<and> L - n < s \<and> s \<le> L \<and> hist_total h s \<noteq> 0 \<longrightarrow> sreb_slot b = s)"

definition sre_rep :: "int \<Rightarrow> sre_bucket list \<Rightarrow> sre_history \<Rightarrow> bool" where
  "sre_rep L bs h \<longleftrightarrow>
     0 \<le> L \<and> (\<forall>e \<in> set h. fst e \<le> L) \<and>
     (\<forall>i < length bs. sre_bucket_ok (int (length bs)) L h (int i) (bs ! i))"

lemma hist_total_nonneg: "0 \<le> hist_total h s"
  unfolding hist_sum_def by (intro sum_list_nonneg) auto

lemma hist_total_0: "hist_total h s = 0 \<longleftrightarrow> (\<forall>e \<in> set h. fst e \<noteq> s)"
proof (induction h)
  case (Cons e h)
  then show ?case using hist_total_nonneg [of h s] by (auto simp: hist_sum_def)
qed (simp add: hist_sum_def)

lemma hist_success_0: "hist_total h s = 0 \<Longrightarrow> hist_success h s = 0"
  unfolding hist_total_0 by (induction h) (auto simp: hist_sum_def)

lemma hist_sum_snoc:
  "hist_sum v (h @ [e]) s = hist_sum v h s + (if fst e = s then v e else 0)"
  by (simp add: hist_sum_def)

lemma same_residue_window:
  fixes s t n S :: int
  assumes "s mod n = t mod n" "S - n < s" "s \<le> S" "S - n < t" "t \<le> S"
  shows "s = t"
proof -
  have "\<bar>s - t\<bar> < n" using assms by linarith
  moreover have "n dvd s - t" using assms(1) by (simp add: mod_eq_dvd_iff)
  ultimately show ?thesis using zdvd_not_zless [of "\<bar>s - t\<bar>" n] by (cases "s = t") auto
qed

lemma sre_bucket_ok_other:
  assumes ok: "sre_bucket_ok n L h i b" and S: "L \<le> S" "S mod n \<noteq> i" and h: "\<forall>e \<in> set h. fst e \<le> L"
  shows "sre_bucket_ok n S (h @ [(S, x)]) i b"
proof -
  have tot: "hist_total (h @ [(S, x)]) s = hist_total h s" "hist_success (h @ [(S, x)]) s = hist_success h s"
    if "s mod n = i" for s
    using S(2) that by (auto simp: hist_sum_snoc)
  show ?thesis unfolding sre_bucket_ok_def
  proof (intro conjI allI impI)
    show "sreb_slot b \<le> S" using ok S(1) by (simp add: sre_bucket_ok_def)
    show "sreb_slot b mod n = i" if "sreb_total b \<noteq> 0" using ok that by (simp add: sre_bucket_ok_def)
    show "sreb_total b = hist_total (h @ [(S, x)]) (sreb_slot b)"
      "sreb_success b = hist_success (h @ [(S, x)]) (sreb_slot b)" if "sreb_slot b mod n = i"
      using ok tot [OF that] that by (simp_all add: sre_bucket_ok_def)
    show "sreb_slot b = s"
      if s: "s mod n = i \<and> S - n < s \<and> s \<le> S \<and> hist_total (h @ [(S, x)]) s \<noteq> 0" for s
    proof -
      have "hist_total h s \<noteq> 0" using s tot(1) [of s] by auto
      moreover from this h have "s \<le> L" by (auto simp: hist_total_0)
      moreover have "L - n < s" using s S(1) by simp
      ultimately show ?thesis using ok s by (simp add: sre_bucket_ok_def)
    qed
  qed
qed

lemma sre_bucket_ok_same:
  assumes ok: "sre_bucket_ok n L h i b" and S: "L \<le> S" "S mod n = i" and n: "0 < n"
    and h: "\<forall>e \<in> set h. fst e \<le> L"
  shows "sre_bucket_ok n S (h @ [(S, x)]) i (sre_bump S x b)"
proof -
  define b0 where "b0 = (if sreb_slot b \<noteq> S then \<lparr>sreb_slot = S, sreb_success = 0, sreb_total = 0\<rparr> else b)"
  have bump: "sre_bump S x b = b0\<lparr>sreb_success := sreb_success b0 + x, sreb_total := sreb_total b0 + 1\<rparr>"
    by (simp add: sre_bump_def b0_def)
  have "sreb_slot b0 = S \<and> sreb_total b0 = hist_total h S \<and> sreb_success b0 = hist_success h S"
  proof (cases "sreb_slot b = S")
    case True
    with ok S(2) show ?thesis by (auto simp: b0_def sre_bucket_ok_def)
  next
    case False
    have "hist_total h S = 0"
    proof (rule ccontr)
      assume nz: "hist_total h S \<noteq> 0"
      with h S(1) have "S = L" by (auto simp: hist_total_0)
      with nz ok S(2) n False show False by (auto simp: sre_bucket_ok_def)
    qed
    with False hist_success_0 [of h S] show ?thesis by (simp add: b0_def)
  qed
  then show ?thesis
    using S(2) n same_residue_window [of _ n S S] unfolding bump
    by (auto simp: sre_bucket_ok_def hist_sum_snoc)
qed

text \<open>Recording one outcome.\<close>

definition sre_slot :: "duration \<Rightarrow> gotime \<Rightarrow> int" where
  "sre_slot d t = (t - unix_epoch) div d"

definition sre_clock :: "gotime \<Rightarrow> bool" where
  "sre_clock t \<longleftrightarrow> unix_epoch \<le> t \<and> t < unix_epoch + 2 ^ 63"

lemma sre_currentSlot_eq:
  assumes "sre_clock t" "0 < src_bucketDuration r"
  shows "sre_currentSlot t r = sre_slot (src_bucketDuration r) t" "0 \<le> sre_currentSlot t r"
proof -
  have "sint (UnixNano t) = t - unix_epoch"
    using assms(1) by (intro sint_UnixNano) (simp add: sre_clock_def in_int64_def)
  with assms show "sre_currentSlot t r = sre_slot (src_bucketDuration r) t" "0 \<le> sre_currentSlot t r"
    by (auto simp: sre_currentSlot_def sre_slot_def signed_divide_int_def sgn_if sre_clock_def
        pos_imp_zdiv_nonneg_iff)
qed

lemma sre_rep_add:
  assumes rep: "sre_rep L (src_buckets r) h" and n: "src_buckets r \<noteq> []"
    and S: "S = sre_currentSlot t r" "L \<le> S"
  shows "sre_rep S (src_buckets (sre_add t x r)) (h @ [(S, x)])"
proof -
  let ?n = "int (length (src_buckets r))" and ?i = "nat (S mod int (length (src_buckets r)))"
  have "0 \<le> S" using rep S(2) by (simp add: sre_rep_def)
  then have sm: "S smod ?n = S mod ?n" by (auto simp: smod_int_alt_def sgn_if)
  have n0: "0 < ?n" using n by simp
  then have i: "?i < length (src_buckets r)" "int ?i = S mod ?n" by (simp_all add: nat_less_iff)
  have h: "\<forall>e \<in> set h. fst e \<le> L" using rep by (simp add: sre_rep_def)
  have upd: "src_buckets (sre_add t x r) = (src_buckets r)[?i := sre_bump S x (src_buckets r ! ?i)]"
    by (simp add: sre_add_def Let_def S(1) [symmetric] sm)
  have "sre_bucket_ok ?n S (h @ [(S, x)]) (int j) (src_buckets (sre_add t x r) ! j)"
    if "j < length (src_buckets r)" for j
  proof (cases "j = ?i")
    case True
    have "sre_bucket_ok ?n L h (int ?i) (src_buckets r ! ?i)" using rep i(1) by (simp only: sre_rep_def)
    from sre_bucket_ok_same [OF this S(2) i(2) [symmetric] n0 h, of x]
    show ?thesis unfolding True upd using i(1) by simp
  next
    case False
    with i(2) have ne: "S mod ?n \<noteq> int j" by auto
    have "sre_bucket_ok ?n L h (int j) (src_buckets r ! j)" using rep that by (simp only: sre_rep_def)
    from sre_bucket_ok_other [OF this S(2) ne h, of x] False show ?thesis unfolding upd by simp
  qed
  moreover have "length (src_buckets (sre_add t x r)) = length (src_buckets r)"
    by (simp add: sre_add_def Let_def)
  ultimately show ?thesis using \<open>0 \<le> S\<close> h S(2) by (auto simp: sre_rep_def)
qed


text \<open>The sum over a window of slots, bucket by bucket.\<close>

lemma window_slot:
  fixes n S :: int
  assumes "0 < n" "0 \<le> i" "i < n"
  defines "w \<equiv> S - (S - i) mod n"
  shows "w mod n = i" "S - n < w" "w \<le> S"
proof -
  have "w mod n = (S - (S - i)) mod n" unfolding w_def by (rule mod_diff_right_eq)
  with assms show "w mod n = i" by simp
  show "S - n < w" "w \<le> S" using assms by (simp_all add: w_def)
qed

definition hist_window :: "(int \<times> int \<Rightarrow> int) \<Rightarrow> sre_history \<Rightarrow> int \<Rightarrow> int \<Rightarrow> int" where
  "hist_window v h S n = sum_list (map v (filter (\<lambda>e. S - n < fst e \<and> fst e \<le> S) h))"

lemma hist_window_buckets:
  assumes "0 < n"
  shows "(\<Sum>i<n. hist_sum v h (S - (S - int i) mod int n)) = hist_window v h S (int n)"
proof (induction h)
  case (Cons e h)
  let ?w = "\<lambda>i. S - (S - int i) mod int n"
  have one: "(\<Sum>i<n. if fst e = ?w i then v e else 0) =
      (if S - int n < fst e \<and> fst e \<le> S then v e else 0)"
  proof (cases "S - int n < fst e \<and> fst e \<le> S")
    case True
    let ?j = "nat (fst e mod int n)"
    have j: "?j < n" "int ?j = fst e mod int n" using assms by (simp_all add: nat_less_iff)
    have "fst e = ?w i \<longleftrightarrow> i = ?j" if "i < n" for i
    proof
      assume "fst e = ?w i"
      with that assms window_slot(1) [of "int n" "int i" S] show "i = ?j" by simp
    next
      assume "i = ?j"
      then have "?w i mod int n = fst e mod int n" using window_slot(1) [of "int n" "int i" S] that assms j by simp
      with True window_slot [of "int n" "int i" S] that assms show "fst e = ?w i"
        by (intro same_residue_window [of "fst e" "int n" "?w i" S]) simp_all
    qed
    then have "(\<Sum>i<n. if fst e = ?w i then v e else 0) = (\<Sum>i<n. if i = ?j then v e else 0)"
      by (intro sum.cong) auto
    with j(1) True show ?thesis by simp
  next
    case False
    have "fst e \<noteq> ?w i" if "i < n" for i
      using window_slot(2,3) [of "int n" "int i" S] that assms False by auto
    then show ?thesis unfolding if_not_P [OF False] by (intro sum.neutral) auto
  qed
  have "(\<Sum>i<n. hist_sum v (e # h) (?w i)) =
      (\<Sum>i<n. if fst e = ?w i then v e else 0) + (\<Sum>i<n. hist_sum v h (?w i))"
    by (simp add: hist_sum_def sum.distrib [symmetric])
  with one Cons show ?case by (simp add: hist_window_def)
qed (simp add: hist_sum_def hist_window_def)

lemma sum_list_filter_sum:
  "sum_list (map f (filter P xs)) = (\<Sum>i<length xs. if P (xs ! i) then f (xs ! i) else (0 :: int))"
proof -
  have "sum_list (map f (filter P xs)) = sum_list (map (\<lambda>x. if P x then f x else 0) xs)"
    by (induction xs) auto
  also have "\<dots> = (\<Sum>i<length xs. if P (xs ! i) then f (xs ! i) else 0)"
    by (simp add: sum_list_sum_nth atLeast0LessThan)
  finally show ?thesis .
qed

lemma sre_bucket_window:
  assumes ok: "sre_bucket_ok n L h i b" and n: "0 < n" "0 \<le> i" "i < n" and S: "L \<le> S"
    and h: "\<forall>e \<in> set h. fst e \<le> L"
  defines "w \<equiv> S - (S - i) mod n"
  shows "(if sre_live S n b then sreb_total b else 0) = hist_total h w"
    "(if sre_live S n b then sreb_success b else 0) = hist_success h w"
proof -
  note w = window_slot [OF n, of S, folded w_def]
  have "(if sre_live S n b then sreb_total b else 0) = hist_total h w \<and>
    (if sre_live S n b then sreb_success b else 0) = hist_success h w"
  proof (cases "sre_live S n b")
    case True
    then have "sreb_slot b mod n = i" "S - n < sreb_slot b" "sreb_slot b \<le> S"
      using ok by (auto simp: sre_live_def sre_bucket_ok_def)
    then have "sreb_slot b = w"
      using w by (intro same_residue_window [of "sreb_slot b" n w S]) simp_all
    with True ok w(1) show ?thesis by (auto simp: sre_bucket_ok_def)
  next
    case False
    have "hist_total h w = 0"
    proof (rule ccontr)
      assume nz: "hist_total h w \<noteq> 0"
      then have "w \<le> L" using h by (auto simp: hist_total_0)
      with nz ok w S have "sreb_slot b = w" by (auto simp: sre_bucket_ok_def)
      with nz ok w False show False by (auto simp: sre_bucket_ok_def sre_live_def)
    qed
    with False hist_success_0 show ?thesis by simp
  qed
  then show "(if sre_live S n b then sreb_total b else 0) = hist_total h w"
    "(if sre_live S n b then sreb_success b else 0) = hist_success h w" by blast+
qed

lemma sre_summary_window:
  assumes rep: "sre_rep L (src_buckets r) h" and n: "src_buckets r \<noteq> []"
    and S: "S = sre_currentSlot t r" "L \<le> S"
  shows "sre_summary t r =
    (hist_window snd h S (int (length (src_buckets r))),
     hist_window (\<lambda>_. 1) h S (int (length (src_buckets r))))"
proof -
  let ?n = "length (src_buckets r)"
  have b: "(if sre_live S (int ?n) (src_buckets r ! i) then sreb_total (src_buckets r ! i) else 0) =
      hist_total h (S - (S - int i) mod int ?n)"
    "(if sre_live S (int ?n) (src_buckets r ! i) then sreb_success (src_buckets r ! i) else 0) =
      hist_success h (S - (S - int i) mod int ?n)" if "i < ?n" for i
    using sre_bucket_window [of "int ?n" L h "int i" "src_buckets r ! i" S] rep that S(2) n
    by (auto simp: sre_rep_def)
  show ?thesis
    using n b unfolding sre_summary_def Let_def S(1) [symmetric] sum_list_filter_sum
    by (simp add: hist_window_buckets [symmetric] cong: sum.cong_simp)
qed

text \<open>A sequence of outcomes with their times.\<close>

definition sre_record_all :: "(gotime \<times> int) list \<Rightarrow> sre_counter \<Rightarrow> sre_counter" where
  "sre_record_all evs r = fold (\<lambda>(t, x). sre_add t x) evs r"

lemma sre_add_frame [frame_simps, simp]:
  "src_bucketDuration (sre_add t x r) = src_bucketDuration r"
  "length (src_buckets (sre_add t x r)) = length (src_buckets r)"
  by (simp_all add: sre_add_def Let_def)

lemma sre_record_all_rep:
  assumes "sre_rep L (src_buckets r) h" "src_buckets r \<noteq> []" "0 < src_bucketDuration r"
    and "sorted (map fst evs)" "\<forall>e \<in> set evs. sre_clock (fst e) \<and> L \<le> sre_slot (src_bucketDuration r) (fst e)"
    and "\<forall>e \<in> set evs. sre_slot (src_bucketDuration r) (fst e) \<le> M" "L \<le> M"
  shows "\<exists>L'. L' \<le> M \<and> sre_rep L' (src_buckets (sre_record_all evs r))
      (h @ map (\<lambda>(t, x). (sre_slot (src_bucketDuration r) t, x)) evs) \<and>
    length (src_buckets (sre_record_all evs r)) = length (src_buckets r) \<and>
    src_bucketDuration (sre_record_all evs r) = src_bucketDuration r"
  using assms
proof (induction evs arbitrary: L r h)
  case Nil
  then show ?case by (auto simp: sre_record_all_def)
next
  case (Cons e evs)
  obtain t x where e: "e = (t, x)" by (cases e)
  let ?S = "sre_slot (src_bucketDuration r) t"
  have S: "?S = sre_currentSlot t r" "L \<le> ?S"
    using Cons.prems(3,5) sre_currentSlot_eq(1) [of t r] by (auto simp: e)
  have "?S \<le> sre_slot (src_bucketDuration r) (fst e')" if "e' \<in> set evs" for e'
    unfolding sre_slot_def using Cons.prems(3,4) that by (intro zdiv_mono1) (auto simp: e)
  moreover have "sre_rep ?S (src_buckets (sre_add t x r)) (h @ [(?S, x)])"
    by (rule sre_rep_add [OF Cons.prems(1,2) S])
  moreover have "src_buckets (sre_add t x r) \<noteq> []"
    using Cons.prems(2) sre_add_frame(2) [of t x r] by (metis length_0_conv)
  ultimately have "\<exists>L'. L' \<le> M \<and> sre_rep L' (src_buckets (sre_record_all evs (sre_add t x r)))
      ((h @ [(?S, x)]) @ map (\<lambda>(u, y). (sre_slot (src_bucketDuration (sre_add t x r)) u, y)) evs) \<and>
    length (src_buckets (sre_record_all evs (sre_add t x r))) = length (src_buckets (sre_add t x r)) \<and>
    src_bucketDuration (sre_record_all evs (sre_add t x r)) = src_bucketDuration (sre_add t x r)"
    using Cons.prems(3-6) by (intro Cons.IH [where L = ?S and r = "sre_add t x r" and h = "h @ [(?S, x)]"]) (simp_all add: e)
  then show ?case by (simp add: e sre_record_all_def)
qed


text \<open>
  C30. The rolling counter counts exactly the recent slots: after outcomes recorded in time
  order, \<open>summary\<close> returns the successes and the number of the outcomes whose time slot is
  among the last \<open>n\<close>, the current one included, and nothing older.
\<close>

theorem sre_counts_recent_slots:
  fixes evs :: "(gotime \<times> int) list"
  assumes "0 < n" "0 < d" "sorted (map fst evs)" "\<forall>e \<in> set evs. sre_clock (fst e) \<and> fst e \<le> now"
    and "sre_clock now"
  defines "recent \<equiv> filter (\<lambda>e. sre_slot d now - int n < sre_slot d (fst e)) evs"
  shows "sre_summary now (sre_record_all evs (newSRERollingCounter n d)) =
    (sum_list (map snd recent), int (length recent))"
proof -
  let ?r = "newSRERollingCounter n d" and ?M = "sre_slot d now"
  have r: "src_buckets ?r \<noteq> []" "src_bucketDuration ?r = d" "length (src_buckets ?r) = n"
    using assms(1) by (simp_all add: newSRERollingCounter_def)
  have nn: "0 \<le> sre_slot d t" if "sre_clock t" for t
    using that assms(2) by (simp add: sre_slot_def sre_clock_def pos_imp_zdiv_nonneg_iff)
  have mono: "sre_slot d t \<le> ?M" if "t \<le> now" for t
    unfolding sre_slot_def using that assms(2) by (intro zdiv_mono1) auto
  have "sre_rep 0 (src_buckets ?r) []"
    by (simp add: sre_rep_def newSRERollingCounter_def sre_bucket_ok_def hist_sum_def)
  from sre_record_all_rep [OF this r(1), of evs ?M] obtain L where L: "L \<le> ?M"
    "sre_rep L (src_buckets (sre_record_all evs ?r)) (map (\<lambda>(t, x). (sre_slot d t, x)) evs)"
    "length (src_buckets (sre_record_all evs ?r)) = n" "src_bucketDuration (sre_record_all evs ?r) = d"
    using r assms(2-5) nn mono by auto
  have ne: "src_buckets (sre_record_all evs ?r) \<noteq> []" using L(3) assms(1) by auto
  have S: "?M = sre_currentSlot now (sre_record_all evs ?r)"
    using sre_currentSlot_eq(1) [OF assms(5), of "sre_record_all evs ?r"] L(4) assms(2) by simp
  have "hist_window v (map (\<lambda>(t, x). (sre_slot d t, x)) evs) ?M (int n) =
      sum_list (map (\<lambda>(t, x). v (sre_slot d t, x)) recent)" for v
  proof -
    have "filter (\<lambda>e. ?M - int n < sre_slot d (fst e) \<and> sre_slot d (fst e) \<le> ?M) evs = recent"
      unfolding recent_def using mono assms(4) by (intro filter_cong) auto
    then show ?thesis
      by (simp add: hist_window_def filter_map comp_def split_def)
  qed
  with sre_summary_window [OF L(2) ne S L(1)] L(3) show ?thesis
    by (simp add: split_def sum_list_triv)
qed

theorem sre_counts_recent_slots_witness:
  "sre_summary (unix_epoch + 35)
     (sre_record_all [(unix_epoch + 1, 1), (unix_epoch + 12, 0), (unix_epoch + 31, 1)]
       (newSRERollingCounter 3 10)) = (1, 2)"
proof -
  let ?evs = "[(unix_epoch + 1, 1), (unix_epoch + 12, 0), (unix_epoch + 31, 1)] :: (gotime \<times> int) list"
  have "sorted (map fst ?evs)" "\<forall>e \<in> set ?evs. sre_clock (fst e) \<and> fst e \<le> unix_epoch + 35"
    "sre_clock (unix_epoch + 35)" by (simp_all add: sre_clock_def)
  from sre_counts_recent_slots [OF _ _ this, of 3 10] show ?thesis by (simp add: sre_slot_def)
qed

end
