(* ===== verification/Retry.thy ===== *)
theory Retry
  imports CircuitBreaker GoDecimal
begin

text \<open>
  The package \<open>common/retry\<close> (file \<open>retry.go\<close>): the backoff strategies and the loop of
  \<open>Do\<close>. The state \<open>'s\<close> is everything the loop touches from outside: the operation's
  world, the clock, the breaker. What the loop calls is an environment: the attempt
  (the operation, or the breaker's \<open>Execute\<close> around it), \<open>ctx.Err()\<close> of the derived context,
  the wait of the \<open>select\<close>, the random source, \<open>math.Pow\<close>, and Go's conversion of a
  \<open>float64\<close> to \<open>int64\<close>, which the language leaves to the implementation out of range.
  With \<open>MaxAttempts <= 0\<close> the loop need not end, so it is a partial function: None is a run
  that never returns.
\<close>

section \<open>Backoff\<close>

record ExponentialBackoff =
  ebo_Base :: duration
  ebo_MaxDelay :: duration
  ebo_Factor :: float64
  ebo_Jitter :: bool

datatype Backoff = Exponential ExponentialBackoff | Fixed duration | NoBackoff

definition NewExponentialBackoff :: "duration \<Rightarrow> duration \<Rightarrow> float64 \<Rightarrow> bool \<Rightarrow> ExponentialBackoff" where
  "NewExponentialBackoff base maxDelay factor jitter =
     \<lparr>ebo_Base = if base \<le> 0 then 100 * 10 ^ 6 else base, ebo_MaxDelay = maxDelay,
      ebo_Factor = if factor \<le> 1 then 2 else factor, ebo_Jitter = jitter\<rparr>"

definition NewFixedInterval :: "duration \<Rightarrow> Backoff" where
  "NewFixedInterval interval = Fixed (if interval \<le> 0 then 100 * 10 ^ 6 else interval)"

record ('s, 'e) retry_env =
  env_attempt :: "'s \<Rightarrow> 's \<times> 'e option"
  env_ctxErr :: "duration \<Rightarrow> 's \<Rightarrow> ctx"
  env_wait :: "duration \<Rightarrow> 's \<Rightarrow> 's \<times> ctx"
  env_rand :: "int \<Rightarrow> 's \<Rightarrow> 's \<times> int"
  env_pow :: "float64 \<Rightarrow> float64 \<Rightarrow> float64"
  env_trunc :: "float64 \<Rightarrow> int"
  env_text :: "'e \<Rightarrow> string"

text \<open>
  \<open>NextDelay\<close> of the exponential strategy: the delay before jitter, then the jitter.
  \<open>rand.Int64N\<close> panics on a bound that is not positive; None is that panic.
\<close>

definition ebo_delay :: "('s, 'e) retry_env \<Rightarrow> ExponentialBackoff \<Rightarrow> int \<Rightarrow> duration" where
  "ebo_delay env e attempt0 =
     (let attempt = (if attempt0 < 0 then 0 else attempt0);
          mult = env_pow env (ebo_Factor e) (f64 (of_int attempt));
          delay = env_trunc env (f64 (f64 (of_int (ebo_Base e)) * mult))
      in if ebo_MaxDelay e > 0 \<and> delay > ebo_MaxDelay e then ebo_MaxDelay e else delay)"

definition ebo_NextDelay ::
    "('s, 'e) retry_env \<Rightarrow> ExponentialBackoff \<Rightarrow> int \<Rightarrow> 's \<Rightarrow> ('s \<times> duration) option" where
  "ebo_NextDelay env e attempt s =
     (let delay = ebo_delay env e attempt in
      if ebo_Jitter e \<and> delay > 0 then
        (let jitterRange = delay sdiv 4 in
         if jitterRange * 2 \<le> 0 then None
         else case env_rand env (jitterRange * 2) s of
           (s', r) \<Rightarrow>
             (let delay = delay + (r - jitterRange) in
              Some (s', if delay < 0 then 0 else delay)))
      else Some (s, delay))"

definition Backoff_NextDelay ::
    "('s, 'e) retry_env \<Rightarrow> Backoff \<Rightarrow> int \<Rightarrow> 's \<Rightarrow> ('s \<times> duration) option" where
  "Backoff_NextDelay env b attempt s =
     (case b of
        Exponential e \<Rightarrow> ebo_NextDelay env e attempt s
      | Fixed d \<Rightarrow> Some (s, d)
      | NoBackoff \<Rightarrow> Some (s, 0))"

section \<open>Options\<close>

record 'e Options =
  opt_MaxAttempts :: int
  opt_Timeout :: duration
  opt_Backoff :: "Backoff option"
  opt_RetryIf :: "('e \<Rightarrow> bool) option"
  opt_CircuitBreaker :: bool
  opt_OnRetry :: bool
  opt_OnSuccess :: bool
  opt_OnError :: bool

definition applyOptions :: "('e Options \<Rightarrow> 'e Options) list \<Rightarrow> 'e Options" where
  "applyOptions opts = fold (\<lambda>opt cfg. opt cfg) opts
     \<lparr>opt_MaxAttempts = 3, opt_Timeout = 0, opt_Backoff = None, opt_RetryIf = None,
      opt_CircuitBreaker = False, opt_OnRetry = False, opt_OnSuccess = False, opt_OnError = False\<rparr>"

definition WithMaxAttempts :: "int \<Rightarrow> 'e Options \<Rightarrow> 'e Options" where
  "WithMaxAttempts n cfg = cfg\<lparr>opt_MaxAttempts := n\<rparr>"

definition WithTimeout :: "duration \<Rightarrow> 'e Options \<Rightarrow> 'e Options" where
  "WithTimeout d cfg = cfg\<lparr>opt_Timeout := d\<rparr>"

definition WithBackoff :: "Backoff \<Rightarrow> 'e Options \<Rightarrow> 'e Options" where
  "WithBackoff b cfg = cfg\<lparr>opt_Backoff := Some b\<rparr>"

definition WithExponentialBackoff ::
    "duration \<Rightarrow> duration \<Rightarrow> float64 \<Rightarrow> bool \<Rightarrow> 'e Options \<Rightarrow> 'e Options" where
  "WithExponentialBackoff base maxDelay factor jitter =
     WithBackoff (Exponential (NewExponentialBackoff base maxDelay factor jitter))"

definition WithFixedInterval :: "duration \<Rightarrow> 'e Options \<Rightarrow> 'e Options" where
  "WithFixedInterval interval = WithBackoff (NewFixedInterval interval)"

definition WithNoBackoff :: "'e Options \<Rightarrow> 'e Options" where
  "WithNoBackoff = WithBackoff NoBackoff"

definition WithRetryIf :: "('e \<Rightarrow> bool) \<Rightarrow> 'e Options \<Rightarrow> 'e Options" where
  "WithRetryIf fn cfg = cfg\<lparr>opt_RetryIf := Some fn\<rparr>"

definition WithCircuitBreaker :: "'e Options \<Rightarrow> 'e Options" where
  "WithCircuitBreaker cfg = cfg\<lparr>opt_CircuitBreaker := True\<rparr>"

section \<open>The loop\<close>

datatype 'e retry_error =
    RetryNoOperation
  | RetryContext ctx_err "'e option"
  | RetryMaxAttemptsExceeded nat 'e
  | RetryOp 'e
  | RetryPanic

datatype 'e retry_event = OnRetry nat 'e | OnSuccess nat | OnError nat 'e

definition str_contains :: "string \<Rightarrow> string \<Rightarrow> bool" where
  "str_contains s t = list_ex (\<lambda>i. is_prefix t (drop i s)) [0..<Suc (length s)]"

definition isCircuitOpen :: "string \<Rightarrow> bool" where
  "isCircuitOpen text = str_contains text ''circuit is open''"

definition retry_retryIf :: "'e Options \<Rightarrow> 'e \<Rightarrow> bool" where
  "retry_retryIf cfg = (case opt_RetryIf cfg of None \<Rightarrow> (\<lambda>_. True) | Some f \<Rightarrow> f)"

definition retry_backoff :: "'e Options \<Rightarrow> Backoff" where
  "retry_backoff cfg = (case opt_Backoff cfg of None \<Rightarrow> NoBackoff | Some b \<Rightarrow> b)"

text \<open>The decisions after a failed attempt, in the order of the code: Some is a return.\<close>

definition retry_stop ::
    "('s, 'e) retry_env \<Rightarrow> 'e Options \<Rightarrow> nat \<Rightarrow> 'e \<Rightarrow> 'e retry_error option" where
  "retry_stop env cfg attempts err =
     (if opt_CircuitBreaker cfg \<and> isCircuitOpen (env_text env err) then Some (RetryOp err)
      else if \<not> retry_retryIf cfg err then Some (RetryOp err)
      else if opt_MaxAttempts cfg > 0 \<and> int attempts \<ge> opt_MaxAttempts cfg
      then Some (RetryMaxAttemptsExceeded attempts err)
      else None)"

text \<open>
  One turn of \<open>for { ... }\<close>, entered with the attempts made so far and the last error:
  either the loop returns (an error or None, with the number of attempts), or it goes on.
\<close>

datatype ('s, 'e) retry_turn =
    Return "'e retry_error option" nat 's "'e retry_event list"
  | Again nat 'e 's "'e retry_event list"

definition retry_turn ::
    "('s, 'e) retry_env \<Rightarrow> 'e Options \<Rightarrow> nat \<Rightarrow> 'e option \<Rightarrow> 's \<Rightarrow> 'e retry_event list \<Rightarrow> ('s, 'e) retry_turn" where
  "retry_turn env cfg attempts0 lastErr s evs =
     (let attempts = attempts0 + 1 in
      case env_ctxErr env (opt_Timeout cfg) s of
        Some ce \<Rightarrow> Return (Some (RetryContext ce lastErr)) attempts s evs
      | None \<Rightarrow>
          (case env_attempt env s of
             (s1, None) \<Rightarrow>
               Return None attempts s1 (if opt_OnSuccess cfg then evs @ [OnSuccess attempts] else evs)
           | (s1, Some err) \<Rightarrow>
               (case retry_stop env cfg attempts err of
                  Some r \<Rightarrow>
                    Return (Some r) attempts s1 (if opt_OnError cfg then evs @ [OnError attempts err] else evs)
                | None \<Rightarrow>
                    (let evs = (if opt_OnRetry cfg then evs @ [OnRetry (attempts + 1) err] else evs) in
                     case Backoff_NextDelay env (retry_backoff cfg) (int attempts - 1) s1 of
                       None \<Rightarrow> Return (Some RetryPanic) attempts s1 evs
                     | Some (s2, delay) \<Rightarrow>
                         if delay > 0 then
                           (case env_wait env delay s2 of
                              (s3, Some ce) \<Rightarrow> Return (Some (RetryContext ce (Some err))) attempts s3 evs
                            | (s3, None) \<Rightarrow> Again attempts err s3 evs)
                         else Again attempts err s2 evs))))"

partial_function (option) retry_loop ::
    "('s, 'e) retry_env \<Rightarrow> 'e Options \<Rightarrow> nat \<Rightarrow> 'e option \<Rightarrow> 's \<Rightarrow> 'e retry_event list \<Rightarrow>
     ('e retry_error option \<times> nat \<times> 's \<times> 'e retry_event list) option" where
  "retry_loop env cfg attempts lastErr s evs =
     (case retry_turn env cfg attempts lastErr s evs of
        Return r n s' evs' \<Rightarrow> Some (r, n, s', evs')
      | Again n err s' evs' \<Rightarrow> retry_loop env cfg n (Some err) s' evs')"

text \<open>\<open>Do\<close>; \<open>has_op\<close> is False for a nil operation.\<close>

definition retry_Do ::
    "('s, 'e) retry_env \<Rightarrow> bool \<Rightarrow> 'e Options \<Rightarrow> 's \<Rightarrow>
     ('e retry_error option \<times> nat \<times> 's \<times> 'e retry_event list) option" where
  "retry_Do env has_op cfg s =
     (if \<not> has_op then Some (Some RetryNoOperation, 0, s, []) else retry_loop env cfg 0 None s [])"

definition IsMaxAttempts :: "'e retry_error \<Rightarrow> bool" where
  "IsMaxAttempts err = (case err of RetryMaxAttemptsExceeded _ _ \<Rightarrow> True | _ \<Rightarrow> False)"

section \<open>Turns\<close>

lemma retry_turn_Again:
  assumes "retry_turn env cfg a le s evs = Again n err s' evs'"
  shows "n = a + 1" "retry_stop env cfg n err = None"
    "evs' = (if opt_OnRetry cfg then evs @ [OnRetry (n + 1) err] else evs)"
  using assms by (auto simp: retry_turn_def Let_def split: option.splits prod.splits if_splits)

text \<open>What a run reports last, by the way it returns.\<close>

definition retry_final :: "'e Options \<Rightarrow> 'e retry_error option \<Rightarrow> nat \<Rightarrow> 'e retry_event list" where
  "retry_final cfg r n =
     (case r of
        None \<Rightarrow> if opt_OnSuccess cfg then [OnSuccess n] else []
      | Some (RetryOp e) \<Rightarrow> if opt_OnError cfg then [OnError n e] else []
      | Some (RetryMaxAttemptsExceeded k e) \<Rightarrow> if opt_OnError cfg then [OnError n e] else []
      | _ \<Rightarrow> [])"

definition retry_hook :: "'e Options \<Rightarrow> nat \<Rightarrow> 'e \<Rightarrow> 'e retry_event list" where
  "retry_hook cfg n e = (if opt_OnRetry cfg then [OnRetry n e] else [])"

lemma retry_turn_Return:
  assumes "retry_turn env cfg a le s evs = Return r n s' evs'"
  shows "n = a + 1" "r = Some RetryPanic \<Longrightarrow> \<exists>e. opt_Backoff cfg = Some (Exponential e) \<and> ebo_Jitter e"
  using assms
  by (auto simp: retry_turn_def retry_stop_def Let_def retry_backoff_def Backoff_NextDelay_def ebo_NextDelay_def
      split: option.splits prod.splits if_splits Backoff.splits)

lemma retry_turn_cases:
  obtains (ret) r n s' evs' where "retry_turn env cfg a le s evs = Return r n s' evs'"
  | (again) n err s' evs' where "retry_turn env cfg a le s evs = Again n err s' evs'"
  by (cases "retry_turn env cfg a le s evs") auto

section \<open>Attempts are bounded\<close>

lemma retry_loop_bounded:
  assumes "int a < opt_MaxAttempts cfg"
  shows "\<exists>r n s' evs'. retry_loop env cfg a le s evs = Some (r, n, s', evs') \<and>
    a < n \<and> int n \<le> opt_MaxAttempts cfg \<and>
    (r = Some RetryPanic \<longrightarrow> (\<exists>e. opt_Backoff cfg = Some (Exponential e) \<and> ebo_Jitter e))"
  using assms
proof (induction "nat (opt_MaxAttempts cfg - int a)" arbitrary: a le s evs rule: less_induct)
  case less
  show ?case
  proof (cases rule: retry_turn_cases [of env cfg a le s evs])
    case (ret r n s' evs')
    with less.prems retry_turn_Return [OF ret] show ?thesis
      by (subst retry_loop.simps) simp
  next
    case (again n err s' evs')
    note n = retry_turn_Again [OF again]
    have "int n < opt_MaxAttempts cfg"
      using n(2) less.prems by (auto simp: retry_stop_def split: if_splits)
    then have "nat (opt_MaxAttempts cfg - int n) < nat (opt_MaxAttempts cfg - int a)" using n(1) by simp
    from less.hyps [OF this \<open>int n < _\<close>, of "Some err" s' evs'] n(1) show ?thesis
      by (subst retry_loop.simps) (fastforce simp: again)
  qed
qed

text \<open>
  C5. With a positive \<open>MaxAttempts\<close> the retry loop always ends, after at least one turn and
  at most \<open>MaxAttempts\<close> turns, whatever the operation, the context, the backoff and the
  breaker do. It ends by returning, except that with jitter in an exponential backoff the random
  source may panic.
\<close>

theorem retry_bounded:
  assumes "0 < opt_MaxAttempts cfg"
  shows "\<exists>r n s' evs. retry_Do env True cfg s = Some (r, n, s', evs) \<and>
    1 \<le> n \<and> int n \<le> opt_MaxAttempts cfg \<and>
    (r = Some RetryPanic \<longrightarrow> (\<exists>e. opt_Backoff cfg = Some (Exponential e) \<and> ebo_Jitter e))"
  using retry_loop_bounded [of 0 cfg env None s "[]"] assms by (fastforce simp: retry_Do_def)

text \<open>An environment for the examples: the operation reads its results from a script.\<close>

definition script_env :: "(string option list, string) retry_env" where
  "script_env = \<lparr>env_attempt = (\<lambda>s. (tl s, hd s)), env_ctxErr = (\<lambda>_ _. None),
     env_wait = (\<lambda>_ s. (s, None)), env_rand = (\<lambda>_ s. (s, 0)), env_pow = (\<lambda>x _. x),
     env_trunc = floor, env_text = id\<rparr>"

definition script_cfg :: "string Options" where
  "script_cfg = \<lparr>opt_MaxAttempts = 3, opt_Timeout = 0, opt_Backoff = None,
     opt_RetryIf = Some (\<lambda>e. e \<noteq> ''fatal''), opt_CircuitBreaker = False,
     opt_OnRetry = True, opt_OnSuccess = True, opt_OnError = True\<rparr>"

theorem retry_bounded_witness:
  "(\<exists>r n s' evs. retry_Do script_env True script_cfg [Some ''a'', Some ''b'', Some ''c'', None] =
      Some (r, n, s', evs) \<and> 1 \<le> n \<and> int n \<le> 3) \<and>
   retry_Do script_env True script_cfg [Some ''a'', Some ''b'', Some ''c'', None] =
     Some (Some (RetryMaxAttemptsExceeded 3 ''c''), 3, [None],
       [OnRetry 2 ''a'', OnRetry 3 ''b'', OnError 3 ''c''])"
proof -
  have "0 < opt_MaxAttempts script_cfg" "opt_MaxAttempts script_cfg = 3" by (simp_all add: script_cfg_def)
  moreover have "retry_Do script_env True script_cfg [Some ''a'', Some ''b'', Some ''c'', None] =
     Some (Some (RetryMaxAttemptsExceeded 3 ''c''), 3, [None],
       [OnRetry 2 ''a'', OnRetry 3 ''b'', OnError 3 ''c''])"
    by (simp add: retry_Do_def script_env_def script_cfg_def retry_loop.simps retry_turn_def
        retry_stop_def retry_retryIf_def retry_backoff_def Backoff_NextDelay_def)
  ultimately show ?thesis
    using retry_bounded [of script_cfg script_env "[Some ''a'', Some ''b'', Some ''c'', None]"] by simp
qed

section \<open>The callbacks\<close>

text \<open>
  The environment that also logs what the attempts returned, in order; logging changes nothing else.
\<close>

definition logged :: "('s, 'e) retry_env \<Rightarrow> ('s \<times> 'e option list, 'e) retry_env" where
  "logged env =
     \<lparr>env_attempt = (\<lambda>(s, trail). case env_attempt env s of (s', r) \<Rightarrow> ((s', trail @ [r]), r)),
      env_ctxErr = (\<lambda>d (s, trail). env_ctxErr env d s),
      env_wait = (\<lambda>d (s, trail). case env_wait env d s of (s', c) \<Rightarrow> ((s', trail), c)),
      env_rand = (\<lambda>k (s, trail). case env_rand env k s of (s', r) \<Rightarrow> ((s', trail), r)),
      env_pow = env_pow env, env_trunc = env_trunc env, env_text = env_text env\<rparr>"

text \<open>The calls of \<open>OnRetry\<close> for the retried failures, the first before attempt \<open>k\<close>.\<close>

fun retry_reports :: "'e Options \<Rightarrow> nat \<Rightarrow> 'e list \<Rightarrow> 'e retry_event list" where
  "retry_reports cfg k [] = []"
| "retry_reports cfg k (e # es) = retry_hook cfg k e @ retry_reports cfg (k + 1) es"

text \<open>
  The log of a run that is entered after \<open>a\<close> attempts with the last error \<open>le\<close> and returns \<open>r\<close> with \<open>n\<close>
  attempts: the retried failures \<open>es\<close> come first, and what follows them says how the run returns.
\<close>

definition retry_log ::
    "('s, 'e) retry_env \<Rightarrow> 'e Options \<Rightarrow> nat \<Rightarrow> 'e option \<Rightarrow> 'e retry_error option \<Rightarrow> nat \<Rightarrow> 'e option list \<Rightarrow> 'e list \<Rightarrow> bool" where
  "retry_log env cfg a le r n trail es \<longleftrightarrow>
     (\<forall>i < length es. retry_stop env cfg (a + 1 + i) (es ! i) = None) \<and>
     (case r of
        None \<Rightarrow> trail = map Some es @ [None] \<and> n = a + length es + 1
      | Some (RetryContext ce l) \<Rightarrow>
          trail = map Some es \<and> (n = a + length es + 1 \<or> n = a + length es \<and> es \<noteq> []) \<and>
          l = (if es = [] then le else Some (last es))
      | Some RetryPanic \<Rightarrow> trail = map Some es \<and> n = a + length es \<and> es \<noteq> []
      | Some x \<Rightarrow> \<exists>e. trail = map Some es @ [Some e] \<and> n = a + length es + 1 \<and> retry_stop env cfg n e = Some x)"

lemma retry_log_Again:
  assumes "retry_log env cfg (a + 1) (Some e) r n trail es" "retry_stop env cfg (a + 1) e = None"
  shows "retry_log env cfg a le r n (Some e # trail) (e # es)"
proof -
  have "\<forall>i < length (e # es). retry_stop env cfg (a + 1 + i) ((e # es) ! i) = None"
    using assms by (auto simp: retry_log_def nth_Cons split: nat.splits)
  with assms(1) show ?thesis
    unfolding retry_log_def by (auto split: option.splits retry_error.splits)
qed

lemma retry_stop_logged [simp]: "retry_stop (logged env) cfg n e = retry_stop env cfg n e"
  by (simp add: retry_stop_def logged_def)

lemma NextDelay_logged:
  "Backoff_NextDelay (logged env) b k (s, trail) =
     map_option (\<lambda>(s', d). ((s', trail), d)) (Backoff_NextDelay env b k s)"
  by (auto simp: Backoff_NextDelay_def ebo_NextDelay_def ebo_delay_def logged_def Let_def
      split: Backoff.splits prod.splits)

text \<open>What one turn does on the logging environment, and what it logs and reports.\<close>

lemma retry_turn_logged_Again:
  assumes "retry_turn env cfg a le s evs = Again n e s' evs'"
  shows "retry_turn (logged env) cfg a le (s, trail) evs = Again n e (s', trail @ [Some e]) evs'"
  using assms
  by (auto simp: retry_turn_def Let_def NextDelay_logged logged_def retry_stop_logged [unfolded logged_def]
      NextDelay_logged [unfolded logged_def] split: option.splits prod.splits if_splits)

lemma retry_turn_logged_Return:
  assumes "retry_turn env cfg a le s evs = Return r n s' evs'"
  shows "\<exists>l es. retry_turn (logged env) cfg a le (s, trail) evs = Return r n (s', trail @ l) evs' \<and>
    retry_log env cfg a le r n l es \<and> evs' = evs @ retry_reports cfg (a + 2) es @ retry_final cfg r n"
proof -
  note tr = retry_stop_logged [of env cfg] NextDelay_logged [of env "retry_backoff cfg"]
  obtain s1 res where at: "env_attempt env s = (s1, res)" by (cases "env_attempt env s")
  have at': "env_attempt (logged env) (s, trail) = ((s1, trail @ [res]), res)"
    and ctx: "env_ctxErr (logged env) d (x, tr) = env_ctxErr env d x"
    and wait: "env_wait (logged env) d (x, tr) = (case env_wait env d x of (s', c) \<Rightarrow> ((s', tr), c))" for d x tr
    using at by (simp_all add: logged_def)
  note T = assms [unfolded retry_turn_def Let_def at prod.case]
  note T' = retry_turn_def [of "logged env" cfg a le "(s, trail)" evs, unfolded Let_def at' prod.case ctx tr]
  consider ce where "env_ctxErr env (opt_Timeout cfg) s = Some ce"
    | "env_ctxErr env (opt_Timeout cfg) s = None" "res = None"
    | e x where "env_ctxErr env (opt_Timeout cfg) s = None" "res = Some e" "retry_stop env cfg (a + 1) e = Some x"
    | e where "env_ctxErr env (opt_Timeout cfg) s = None" "res = Some e" "retry_stop env cfg (a + 1) e = None"
    by (cases "env_ctxErr env (opt_Timeout cfg) s"; cases res; cases "retry_stop env cfg (a + 1) (the res)") auto
  then show ?thesis
  proof cases
    case 1
    with T T' show ?thesis
      by (intro exI [of _ "[] :: 'b option list"] exI [of _ "[] :: 'b list"]) (auto simp: retry_log_def retry_final_def)
  next
    case 2
    with T T' show ?thesis
      by (intro exI [of _ "[None]"] exI [of _ "[]"]) (auto simp: retry_log_def retry_final_def)
  next
    case (3 e x)
    then have x: "x = RetryOp e \<or> x = RetryMaxAttemptsExceeded (a + 1) e" by (auto simp: retry_stop_def split: if_splits)
    have R: "r = Some x" "n = a + 1" "s' = s1" "evs' = (if opt_OnError cfg then evs @ [OnError (a + 1) e] else evs)"
      using T 3 by auto
    have "retry_turn (logged env) cfg a le (s, trail) evs = Return r n (s', trail @ [Some e]) evs'"
      using T' 3 R by simp
    moreover have "retry_log env cfg a le r n [Some e] []" using 3 x R by (auto simp: retry_log_def)
    moreover have "evs' = evs @ retry_reports cfg (a + 2) [] @ retry_final cfg r n" using x R by (auto simp: retry_final_def)
    ultimately show ?thesis by blast
  next
    case (4 e)
    with T T' wait show ?thesis
      by (intro exI [of _ "[Some e]"] exI [of _ "[e]"])
        (auto simp: retry_log_def retry_final_def retry_hook_def split: option.splits prod.splits if_splits)
  qed
qed

lemmas retry_loop_induct = retry_loop.raw_induct [rotated, consumes 1, case_names turn]

lemma retry_loop_logged:
  "retry_loop env cfg a le s evs = Some y \<Longrightarrow>
   \<exists>l es. retry_loop (logged env) cfg a le (s, trail) evs = Some (fst y, fst (snd y), (fst (snd (snd y)), trail @ l), snd (snd (snd y))) \<and>
     retry_log env cfg a le (fst y) (fst (snd y)) l es \<and>
     snd (snd (snd y)) = evs @ retry_reports cfg (a + 2) es @ retry_final cfg (fst y) (fst (snd y))"
proof (induction arbitrary: trail rule: retry_loop_induct)
  case (turn loop env cfg a le s evs y)
  show ?case
  proof (cases rule: retry_turn_cases [of env cfg a le s evs])
    case (ret r n s' evs')
    with turn(2) have y: "y = (r, n, s', evs')" by simp
    from retry_turn_logged_Return [OF ret, of trail] show ?thesis
      unfolding y by (subst retry_loop.simps) auto
  next
    case (again n err s' evs')
    note n = retry_turn_Again [OF again]
    from again turn(2) have "loop env cfg n (Some err) s' evs' = Some y" by simp
    from turn(1) [OF this, of "trail @ [Some err]"] obtain l es where
      1: "retry_loop (logged env) cfg n (Some err) (s', trail @ [Some err]) evs' =
        Some (fst y, fst (snd y), (fst (snd (snd y)), (trail @ [Some err]) @ l), snd (snd (snd y)))"
      and 2: "retry_log env cfg n (Some err) (fst y) (fst (snd y)) l es"
      and 3: "snd (snd (snd y)) = evs' @ retry_reports cfg (n + 2) es @ retry_final cfg (fst y) (fst (snd y))" by blast
    have "evs' = evs @ retry_hook cfg (a + 2) err" using n by (simp add: retry_hook_def)
    with 1 2 3 n retry_turn_logged_Again [OF again, of trail] retry_log_Again [of env cfg a err _ _ l es le]
    show ?thesis
      by (subst retry_loop.simps) (auto intro!: exI [of _ "Some err # l"] exI [of _ "err # es"])
  qed
qed



section \<open>Backoff bounds\<close>

text \<open>What \<open>rand.Int64N\<close> promises: a value from zero up to its bound.\<close>

definition rand_ok :: "('s, 'e) retry_env \<Rightarrow> bool" where
  "rand_ok env \<longleftrightarrow> (\<forall>n s. 0 < n \<longrightarrow> 0 \<le> snd (env_rand env n s) \<and> snd (env_rand env n s) < n)"

lemma ebo_delay_cap: "0 < ebo_MaxDelay e \<Longrightarrow> ebo_delay env e k \<le> ebo_MaxDelay e"
  by (simp add: ebo_delay_def Let_def)

text \<open>
  The delay of the exponential strategy stays within a quarter of the delay before jitter,
  is not negative when that delay is positive, and never exceeds the cap by more than a
  quarter of it; without jitter it does not exceed the cap at all.
\<close>

lemma backoff_bounds:
  assumes "ebo_NextDelay env e k s = Some (s', d)" "rand_ok env" "0 < ebo_MaxDelay e"
  shows "(\<not> ebo_Jitter e \<longrightarrow> d \<le> ebo_MaxDelay e) \<and>
    d \<le> ebo_MaxDelay e + ebo_MaxDelay e div 4 \<and>
    (0 < ebo_delay env e k \<longrightarrow> 0 \<le> d \<and> \<bar>d - ebo_delay env e k\<bar> \<le> ebo_delay env e k div 4)"
proof (cases "ebo_Jitter e \<and> 0 < ebo_delay env e k")
  case False
  then have "d = ebo_delay env e k" using assms(1) by (auto simp: ebo_NextDelay_def Let_def)
  moreover have "0 \<le> ebo_MaxDelay e div 4" using assms(3) by (simp add: pos_imp_zdiv_nonneg_iff)
  ultimately show ?thesis
    using False ebo_delay_cap [OF assms(3), of env k] by (auto simp: pos_imp_zdiv_nonneg_iff)
next
  case True
  define x where "x = ebo_delay env e k"
  define j where "j = x div 4"
  have q: "x sdiv 4 = j" using True by (simp add: signed_divide_int_def sgn_if x_def j_def)
  obtain s1 r where r: "env_rand env (j * 2) s = (s1, r)" by (cases "env_rand env (j * 2) s")
  have j: "0 < j" "d = max 0 (x + (r - j))"
    using assms(1) True r unfolding ebo_NextDelay_def Let_def x_def [symmetric] q
    by (auto split: if_splits)
  then have "0 < j * 2" by simp
  then have "0 \<le> r" "r < j * 2" using assms(2) r unfolding rand_ok_def by (metis snd_conv)+
  moreover have "x \<le> ebo_MaxDelay e" using ebo_delay_cap [OF assms(3)] by (simp add: x_def)
  then have "j \<le> ebo_MaxDelay e div 4" unfolding j_def by (rule zdiv_mono1) simp
  moreover have "4 * j \<le> x" unfolding j_def by presburger
  ultimately show ?thesis using True j \<open>x \<le> ebo_MaxDelay e\<close> unfolding x_def [symmetric] j_def [symmetric] by auto
qed

lemma backoff_bounds_witness:
  "ebo_NextDelay script_env (NewExponentialBackoff 100 1000 2 True) 0 [] = Some ([], 150) \<and>
   (150 :: int) \<le> 1000 + 1000 div 4"
proof -
  let ?e = "NewExponentialBackoff 100 1000 2 True"
  have tr: "f64 (f64 100 * 2) = 200" by code_simp
  have run: "ebo_NextDelay script_env ?e 0 [] = Some ([], 150)"
    using tr by (simp add: ebo_NextDelay_def ebo_delay_def script_env_def NewExponentialBackoff_def
        Let_def signed_divide_int_def)
  have ok: "rand_ok script_env" by (simp add: rand_ok_def script_env_def)
  have "0 < ebo_MaxDelay ?e" "ebo_MaxDelay ?e = 1000" by (simp_all add: NewExponentialBackoff_def)
  with run backoff_bounds [OF run ok] show ?thesis by simp
qed

text \<open>A delay of one to three nanoseconds makes the jitter range empty: \<open>rand.Int64N(0)\<close> panics.\<close>

lemma backoff_jitter_panics:
  assumes "ebo_Jitter e" "ebo_delay env e k \<in> {1, 2, 3}"
  shows "ebo_NextDelay env e k s = None"
  using assms by (auto simp: ebo_NextDelay_def Let_def signed_divide_int_def)

text \<open>
  The cap is tested after the conversion to \<open>int64\<close>: where an implementation converts an
  overflow to a negative number, the cap does not apply and the next attempt is immediate.
\<close>

lemma backoff_overflow_not_capped:
  assumes "\<And>x. 2 ^ 63 \<le> x \<Longrightarrow> env_trunc env x = - (2 ^ 63)"
    and "2 ^ 63 \<le> f64 (f64 (of_int (ebo_Base e)) * env_pow env (ebo_Factor e) (f64 (of_int k)))"
    and "0 \<le> k" "0 < ebo_MaxDelay e"
  shows "ebo_NextDelay env e k s = Some (s, - (2 ^ 63))"
  using assms by (simp add: ebo_NextDelay_def ebo_delay_def Let_def)

section \<open>What a run keeps\<close>

definition env_keeps :: "('s, 'e) retry_env \<Rightarrow> ('s \<Rightarrow> bool) \<Rightarrow> bool" where
  "env_keeps env P \<longleftrightarrow>
     (\<forall>s. P s \<longrightarrow> P (fst (env_attempt env s)) \<and> (\<forall>d. P (fst (env_wait env d s))) \<and>
        (\<forall>n. P (fst (env_rand env n s))))"

lemma env_keepsD:
  assumes "env_keeps env P" "P s"
  shows "env_attempt env s = (s1, r) \<Longrightarrow> P s1" "env_wait env d s = (s1, c) \<Longrightarrow> P s1"
    "env_rand env n s = (s1, k) \<Longrightarrow> P s1"
  using assms unfolding env_keeps_def by (metis fst_conv)+

lemma NextDelay_keeps:
  assumes "env_keeps env P" "P s" "Backoff_NextDelay env b k s = Some (s1, d)"
  shows "P s1"
  using assms(3) env_keepsD(3) [OF assms(1,2)] assms(2)
  by (auto simp: Backoff_NextDelay_def ebo_NextDelay_def Let_def split: Backoff.splits if_splits prod.splits)

lemma retry_turn_keeps:
  assumes keeps: "env_keeps env P" and P: "P s"
  shows "retry_turn env cfg a le s evs = Return r n s' evs' \<Longrightarrow>
      P s' \<and> (r = None \<longrightarrow> (\<exists>s0. env_attempt env s0 = (s', None)))"
    "retry_turn env cfg a le s evs = Again n e s' evs' \<Longrightarrow> P s'"
proof -
  obtain s1 res where at: "env_attempt env s = (s1, res)" by (cases "env_attempt env s")
  note P1 = env_keepsD(1) [OF keeps P at]
  note turn = retry_turn_def [of env cfg a le s evs, unfolded Let_def at prod.case]
  define dl where "dl = Backoff_NextDelay env (retry_backoff cfg) (int (a + 1) - 1) s1"
  have P2: "P s2 \<and> (\<forall>s3 c. env_wait env d s2 = (s3, c) \<longrightarrow> P s3)" if "dl = Some (s2, d)" for s2 d
    using NextDelay_keeps [OF keeps P1] env_keepsD(2) [OF keeps] that unfolding dl_def by metis
  note turn = turn [folded dl_def]
  show "P s' \<and> (r = None \<longrightarrow> (\<exists>s0. env_attempt env s0 = (s', None)))"
    if "retry_turn env cfg a le s evs = Return r n s' evs'"
    using that P P1 P2 at unfolding turn by (auto split: option.splits prod.splits if_splits)
  show "P s'" if "retry_turn env cfg a le s evs = Again n e s' evs'"
    using that P P1 P2 unfolding turn by (auto split: option.splits prod.splits if_splits)
qed

lemma retry_loop_keeps:
  assumes "retry_loop env cfg a le s evs = Some y" "env_keeps env P" "P s"
  shows "P (fst (snd (snd y))) \<and> (fst y = None \<longrightarrow> (\<exists>s0. env_attempt env s0 = (fst (snd (snd y)), None)))"
  using assms
proof (induction rule: retry_loop_induct)
  case (turn loop env cfg a le s evs y)
  show ?case
  proof (cases rule: retry_turn_cases [of env cfg a le s evs])
    case (ret r n s' evs')
    with turn.hyps have y: "y = (r, n, s', evs')" by simp
    show ?thesis using retry_turn_keeps(1) [OF turn.prems ret] by (simp add: y)
  next
    case (again n err s' evs')
    with turn.hyps have l: "loop env cfg n (Some err) s' evs' = Some y" by simp
    from turn.IH [OF l turn.prems(1) retry_turn_keeps(2) [OF turn.prems again]] show ?thesis .
  qed
qed

section \<open>Retry through a breaker\<close>

text \<open>
  The interface \<open>CircuitBreaker\<close> of the package: an \<open>Execute\<close> on the breaker's state \<open>'b\<close> and
  the operation's world \<open>'w\<close>. Its contract: it either rejects without running the operation,
  or runs it once and returns its result (errors embedded by \<open>wrap\<close>), and it preserves the
  breaker's invariant.
\<close>

locale breaker =
  fixes execute :: "('w \<Rightarrow> 'w \<times> 'e option) \<Rightarrow> 'b \<times> 'w \<Rightarrow> ('b \<times> 'w) \<times> 'x option"
    and wrap :: "'e \<Rightarrow> 'x"
    and invar :: "'b \<Rightarrow> bool"
  assumes exec_cases: "execute f (b, w) = ((b', w'), r) \<Longrightarrow>
      w' = w \<and> r \<noteq> None \<or> (\<exists>r0. f w = (w', r0) \<and> r = map_option wrap r0)"
    and exec_invar: "execute f (b, w) = ((b', w'), r) \<Longrightarrow> invar b \<Longrightarrow> invar b'"
begin

lemma exec_ok: "execute f (b, w) = ((b', w'), None) \<Longrightarrow> f w = (w', None)"
  using exec_cases [of f b w b' w' None] by auto

text \<open>The loop over guarded attempts: the waits and the random source leave the breaker alone.\<close>

lemma guarded_loop:
  assumes "retry_loop env cfg a le s evs = Some y"
    and "env_attempt env = execute f" "invar (fst s)"
    and "\<And>d s. fst (fst (env_wait env d s)) = fst s" "\<And>n s. fst (fst (env_rand env n s)) = fst s"
  shows "invar (fst (fst (snd (snd y)))) \<and>
    (fst y = None \<longrightarrow> (\<exists>w. f w = (snd (fst (snd (snd y))), None)))"
proof -
  have "invar (fst (fst (execute f s)))" if "invar (fst s)" for s
    using that exec_invar by (metis prod.collapse)
  then have "env_keeps env (\<lambda>s. invar (fst s))" using assms(2,4,5) by (simp add: env_keeps_def)
  from retry_loop_keeps [OF assms(1) this assms(3)] assms(2) exec_ok show ?thesis
    by (metis prod.collapse)
qed

end

text \<open>
  The breaker of \<open>common/circuitbreaker\<close> behind that interface, on an environment of the
  bare operation: \<open>Execute\<close> reads the context and the clock of the operation's world.
\<close>

definition cb_guard ::
    "cb_Config \<Rightarrow> ('w \<Rightarrow> ctx) \<Rightarrow> ('w \<Rightarrow> gotime) \<Rightarrow> ('w \<Rightarrow> 'w \<times> 'e option) \<Rightarrow>
     CircuitBreaker \<times> 'w \<Rightarrow> (CircuitBreaker \<times> 'w) \<times> 'e cb_error option" where
  "cb_guard cfg ctxErr clock f = (\<lambda>(b, w).
     cb_Execute cfg (ctxErr w) (clock w) (clock (fst (f w))) (Some f) (b, w))"

definition cb_error_text :: "('e \<Rightarrow> string) \<Rightarrow> 'e cb_error \<Rightarrow> string" where
  "cb_error_text text e =
     (case e of
        ErrNilOperation \<Rightarrow> ''circuitbreaker: operation must not be nil''
      | ErrContext Canceled \<Rightarrow> ''context canceled''
      | ErrContext DeadlineExceeded \<Rightarrow> ''context deadline exceeded''
      | ErrCircuitOpen \<Rightarrow> ''circuitbreaker: circuit is open''
      | ErrTooManyRequests \<Rightarrow> ''circuitbreaker: too many requests in half-open state''
      | ErrOperation x \<Rightarrow> text x)"

definition breaker_env ::
    "cb_Config \<Rightarrow> ('w \<Rightarrow> gotime) \<Rightarrow> duration \<Rightarrow> ('w, 'e) retry_env \<Rightarrow>
     (CircuitBreaker \<times> 'w, 'e cb_error) retry_env" where
  "breaker_env cfg clock timeout env =
     \<lparr>env_attempt = cb_guard cfg (env_ctxErr env timeout) clock (env_attempt env),
      env_ctxErr = (\<lambda>d s. env_ctxErr env d (snd s)),
      env_wait = (\<lambda>d s. case env_wait env d (snd s) of (w, r) \<Rightarrow> ((fst s, w), r)),
      env_rand = (\<lambda>n s. case env_rand env n (snd s) of (w, r) \<Rightarrow> ((fst s, w), r)),
      env_pow = env_pow env, env_trunc = env_trunc env,
      env_text = cb_error_text (env_text env)\<rparr>"

lemma cb_wf_before: "cb_wf cfg b \<Longrightarrow> cb_beforeRequest cfg now b = (b', gen, r) \<Longrightarrow> cb_wf cfg b'"
  by (auto simp: cb_beforeRequest_def Let_def split: cb_State.splits if_splits intro!: inv_intros)

lemma cb_wf_after: "cb_wf cfg b \<Longrightarrow> cb_wf cfg (cb_afterRequest cfg now gen r b)"
  by (simp add: cb_afterRequest_def cb_wf_record)

interpretation cbx: breaker "cb_guard cfg ctxErr clock" ErrOperation "cb_wf cfg"
proof
  fix f :: "'a \<Rightarrow> 'a \<times> 'b option" and b w b' w' r
  assume "cb_guard cfg ctxErr clock f (b, w) = ((b', w'), r)"
  note ex = this [unfolded cb_guard_def cb_Execute_def prod.case option.case]
  show "w' = w \<and> r \<noteq> None \<or> (\<exists>r0. f w = (w', r0) \<and> r = map_option ErrOperation r0)"
    using ex by (auto split: option.splits prod.splits)
  show "cb_wf cfg b'" if "cb_wf cfg b"
    using ex that by (auto split: option.splits prod.splits intro: cb_wf_before cb_wf_after)
qed

lemma breaker_env_simps:
  "fst (fst (env_wait (breaker_env cfg clock timeout env) d s)) = fst s"
  "fst (fst (env_rand (breaker_env cfg clock timeout env) n s)) = fst s"
  "env_attempt (breaker_env cfg clock timeout env) =
     cb_guard cfg (env_ctxErr env timeout) clock (env_attempt env)"
  by (simp_all add: breaker_env_def split: prod.splits)

text \<open>
  A success through the breaker is the operation's success: when \<open>Do\<close> with a breaker
  returns no error, its last attempt ran the operation and the operation succeeded; and the
  breaker is left in a well-formed state.
\<close>

lemma retry_breaker_success:
  assumes "retry_Do (breaker_env cbcfg clock (opt_Timeout cfg) env) True cfg (b, w) =
      Some (None, n, (b', w'), evs)" "cb_wf cbcfg b"
  shows "(\<exists>w0. env_attempt env w0 = (w', None)) \<and> cb_wf cbcfg b'"
proof -
  let ?env = "breaker_env cbcfg clock (opt_Timeout cfg) env"
  from assms(1) have "retry_loop ?env cfg 0 None (b, w) [] = Some (None, n, (b', w'), evs)"
    by (simp add: retry_Do_def)
  from cbx.guarded_loop [OF this breaker_env_simps(3) _ breaker_env_simps(1,2)] assms(2)
  show ?thesis by auto
qed

lemma retry_breaker_success_witness:
  "\<exists>w0. env_attempt script_env w0 = ([], None)"
proof -
  let ?s = "(snd (cb_New cb_demo), [None])"
  let ?cfg = "applyOptions [WithCircuitBreaker] :: string cb_error Options"
  have wf: "cb_wf cb_demo (snd (cb_New cb_demo))"
    by (rule cb_wf_New [of cb_demo]) (simp add: cb_New_def Let_def cb_normalize_def cb_demo_def)
  have "\<exists>b'. retry_Do (breaker_env cb_demo (\<lambda>_. 0) (opt_Timeout ?cfg) script_env) True ?cfg ?s =
      Some (None, 1, (b', []), [])"
    by (simp add: retry_Do_def retry_loop.simps retry_turn_def breaker_env_def cb_guard_def
        cb_Execute_def script_env_def applyOptions_def WithCircuitBreaker_def cb_beforeRequest_def
        cb_checkRecovery_def cb_New_def Let_def)
  then obtain b' where run: "retry_Do (breaker_env cb_demo (\<lambda>_. 0) (opt_Timeout ?cfg) script_env) True ?cfg ?s =
      Some (None, 1, (b', []), [])" by blast
  from retry_breaker_success [OF run wf] show ?thesis by simp
qed

text \<open>
  C12. An open breaker stops the retry loop at once: \<open>Do\<close> returns the breaker's error after one
  turn, whatever the limit of attempts; the operation has not run and neither the breaker
  nor the world has changed.
\<close>

theorem retry_stops_on_open_circuit:
  fixes env :: "('w, 'e) retry_env"
  assumes "cb_opened_at cbcfg t b" "cb_clock_ok (clock w)" "cb_clock_ok (t + cb_RecoveryTimeout cbcfg)"
    and "clock w < t + cb_RecoveryTimeout cbcfg"
    and "opt_CircuitBreaker cfg" "env_ctxErr env (opt_Timeout cfg) w = None"
  shows "retry_Do (breaker_env cbcfg clock (opt_Timeout cfg) env) True cfg (b, w) =
    Some (Some (RetryOp ErrCircuitOpen), 1, (b, w),
      if opt_OnError cfg then [OnError 1 ErrCircuitOpen] else [])"
proof -
  have "sint (UnixNano (clock w)) < sint (cb_expiry b)"
    using assms(1-4) by (simp add: cb_opened_at_def sint_UnixNano_ok)
  then have "cb_beforeRequest cbcfg (clock w) b = (b, cb_generation b, Some (ErrCircuitOpen :: 'e cb_error))"
    using assms(1) by (simp add: cb_beforeRequest_def cb_checkRecovery_def cb_opened_at_def)
  moreover have "isCircuitOpen (cb_error_text tx ErrCircuitOpen)" for tx :: "'e \<Rightarrow> string"
    by (simp add: cb_error_text_def) code_simp
  ultimately show ?thesis
    using assms(5,6)
    by (simp add: retry_Do_def retry_loop.simps retry_turn_def breaker_env_def cb_guard_def
        cb_Execute_def retry_stop_def)
qed

theorem retry_stops_on_open_circuit_witness:
  "let b = cb_trip cb_demo (unix_epoch + 5) StateOpen (snd (cb_New cb_demo));
       cfg = applyOptions [WithMaxAttempts 0, WithCircuitBreaker]
   in retry_Do (breaker_env cb_demo (\<lambda>_. unix_epoch + 6) 0 script_env) True cfg (b, [None]) =
      Some (Some (RetryOp ErrCircuitOpen), 1, (b, [None]), [])"
proof -
  let ?b = "cb_trip cb_demo (unix_epoch + 5) StateOpen (snd (cb_New cb_demo))"
  let ?cfg = "applyOptions [WithMaxAttempts 0, WithCircuitBreaker] :: string cb_error Options"
  have h: "cb_clock_ok (unix_epoch + 6)" "cb_clock_ok (unix_epoch + 5 + cb_RecoveryTimeout cb_demo)"
    "unix_epoch + 6 < unix_epoch + 5 + cb_RecoveryTimeout cb_demo"
    by (simp_all add: cb_clock_ok_def cb_demo_def)
  have c: "opt_CircuitBreaker ?cfg" "opt_Timeout ?cfg = 0" "\<not> opt_OnError ?cfg"
    by (simp_all add: applyOptions_def WithCircuitBreaker_def WithMaxAttempts_def)
  have "env_ctxErr script_env (opt_Timeout ?cfg) [None] = None" by (simp add: script_env_def)
  with retry_stops_on_open_circuit [where clock = "\<lambda>_. unix_epoch + 6" and w = "[None]",
      OF cb_trip_open h c(1), of script_env] c
  show ?thesis by (simp add: Let_def)
qed

end
