(* ===== verification/Cache.thy ===== *)
theory Cache
  imports GoPrelude
begin

text \<open>
  The packages \<open>common/cache\<close> (files \<open>cache.go\<close>, \<open>options.go\<close>, \<open>helpers.go\<close>,
  \<open>cacheaside.go\<close>), \<open>common/cache/memory\<close> and \<open>common/cache/multilevel\<close>. A cache is a
  record of its operations (the Go interface) on a state of its own; every operation takes the
  clock reading it may use. The contract of the interface is the locale \<open>cache\<close>: the memory
  cache and the two-level cache of two lawful caches both satisfy it, and the cache-aside
  helper is verified against it.
\<close>

section \<open>The interface\<close>

datatype cache_error =
    CacheErrNotFound | CacheErrClosed | CacheErrInvalidCapacity | CacheErrEmptyKey
  | CacheErrLockNotObtained | CacheErrCtx ctx_err

record ('s, 'k, 'v) cache_ops =
  co_Get :: "ctx \<Rightarrow> gotime \<Rightarrow> 'k \<Rightarrow> 's \<Rightarrow> 's \<times> (cache_error + 'v)"
  co_Set :: "ctx \<Rightarrow> gotime \<Rightarrow> 'k \<Rightarrow> 'v \<Rightarrow> duration \<Rightarrow> 's \<Rightarrow> 's \<times> cache_error option"
  co_Delete :: "ctx \<Rightarrow> 'k \<Rightarrow> 's \<Rightarrow> 's \<times> cache_error option"
  co_Exists :: "ctx \<Rightarrow> gotime \<Rightarrow> 'k \<Rightarrow> 's \<Rightarrow> 's \<times> (cache_error + bool)"
  co_Clear :: "ctx \<Rightarrow> 's \<Rightarrow> 's \<times> cache_error option"
  co_Close :: "'s \<Rightarrow> 's \<times> cache_error option"

record cache_Options =
  copt_Prefix :: string
  copt_DefaultTTL :: duration

definition cache_WithPrefix :: "string \<Rightarrow> cache_Options \<Rightarrow> cache_Options" where
  "cache_WithPrefix p o0 = o0\<lparr>copt_Prefix := p\<rparr>"

definition cache_WithDefaultTTL :: "duration \<Rightarrow> cache_Options \<Rightarrow> cache_Options" where
  "cache_WithDefaultTTL ttl o0 = o0\<lparr>copt_DefaultTTL := ttl\<rparr>"

definition cache_ApplyOptions :: "(cache_Options \<Rightarrow> cache_Options) option list \<Rightarrow> cache_Options" where
  "cache_ApplyOptions opts =
     fold (\<lambda>opt o0. case opt of None \<Rightarrow> o0 | Some f \<Rightarrow> f o0) opts
       \<lparr>copt_Prefix = [], copt_DefaultTTL = 0\<rparr>"

definition ResolveTTL :: "cache_Options \<Rightarrow> duration \<Rightarrow> duration" where
  "ResolveTTL o0 ttl = (if ttl > 0 then ttl else copt_DefaultTTL o0)"

definition cache_Key :: "cache_Options \<Rightarrow> string \<Rightarrow> string" where
  "cache_Key o0 key = (if copt_Prefix o0 = [] then key else copt_Prefix o0 @ key)"

section \<open>The memory cache\<close>

record 'v mem_entry =
  me_value :: 'v
  me_expiresAt :: gotime

record ('k, 'v) mem_cache =
  mc_items :: "'k \<rightharpoonup> 'v mem_entry"
  mc_opts :: cache_Options
  mc_closed :: bool

definition mem_New :: "cache_Options \<Rightarrow> ('k, 'v) mem_cache" where
  "mem_New o0 = \<lparr>mc_items = Map.empty, mc_opts = o0, mc_closed = False\<rparr>"

definition mem_expired :: "gotime \<Rightarrow> 'v mem_entry \<Rightarrow> bool" where
  "mem_expired now ent \<longleftrightarrow> \<not> time_IsZero (me_expiresAt ent) \<and> \<not> time_After (me_expiresAt ent) now"

definition mem_Get :: "ctx \<Rightarrow> gotime \<Rightarrow> 'k \<Rightarrow> ('k, 'v) mem_cache \<Rightarrow> ('k, 'v) mem_cache \<times> (cache_error + 'v)" where
  "mem_Get ctx now key c =
     (case ctx of
        Some e \<Rightarrow> (c, Inl (CacheErrCtx e))
      | None \<Rightarrow>
          if mc_closed c then (c, Inl CacheErrClosed)
          else (case mc_items c key of
                  None \<Rightarrow> (c, Inl CacheErrNotFound)
                | Some ent \<Rightarrow>
                    if mem_expired now ent
                    then (c\<lparr>mc_items := (mc_items c)(key := None)\<rparr>, Inl CacheErrNotFound)
                    else (c, Inr (me_value ent))))"

definition mem_Set ::
    "ctx \<Rightarrow> gotime \<Rightarrow> 'k \<Rightarrow> 'v \<Rightarrow> duration \<Rightarrow> ('k, 'v) mem_cache \<Rightarrow> ('k, 'v) mem_cache \<times> cache_error option" where
  "mem_Set ctx now key v ttl0 c =
     (case ctx of
        Some e \<Rightarrow> (c, Some (CacheErrCtx e))
      | None \<Rightarrow>
          (let ttl = ResolveTTL (mc_opts c) ttl0;
               expiresAt = (if ttl > 0 then now + ttl else 0)
           in if mc_closed c then (c, Some CacheErrClosed)
              else (c\<lparr>mc_items := (mc_items c)(key \<mapsto> \<lparr>me_value = v, me_expiresAt = expiresAt\<rparr>)\<rparr>, None)))"

definition mem_Delete :: "ctx \<Rightarrow> 'k \<Rightarrow> ('k, 'v) mem_cache \<Rightarrow> ('k, 'v) mem_cache \<times> cache_error option" where
  "mem_Delete ctx key c =
     (case ctx of
        Some e \<Rightarrow> (c, Some (CacheErrCtx e))
      | None \<Rightarrow>
          if mc_closed c then (c, Some CacheErrClosed)
          else (c\<lparr>mc_items := (mc_items c)(key := None)\<rparr>, None))"

definition mem_Exists :: "ctx \<Rightarrow> gotime \<Rightarrow> 'k \<Rightarrow> ('k, 'v) mem_cache \<Rightarrow> ('k, 'v) mem_cache \<times> (cache_error + bool)" where
  "mem_Exists ctx now key c =
     (case ctx of
        Some e \<Rightarrow> (c, Inl (CacheErrCtx e))
      | None \<Rightarrow>
          if mc_closed c then (c, Inl CacheErrClosed)
          else (case mc_items c key of
                  None \<Rightarrow> (c, Inr False)
                | Some ent \<Rightarrow>
                    if mem_expired now ent
                    then (c\<lparr>mc_items := (mc_items c)(key := None)\<rparr>, Inr False)
                    else (c, Inr True)))"

definition mem_Clear :: "ctx \<Rightarrow> ('k, 'v) mem_cache \<Rightarrow> ('k, 'v) mem_cache \<times> cache_error option" where
  "mem_Clear ctx c =
     (case ctx of
        Some e \<Rightarrow> (c, Some (CacheErrCtx e))
      | None \<Rightarrow>
          if mc_closed c then (c, Some CacheErrClosed)
          else (c\<lparr>mc_items := Map.empty\<rparr>, None))"

definition mem_Close :: "('k, 'v) mem_cache \<Rightarrow> ('k, 'v) mem_cache \<times> cache_error option" where
  "mem_Close c =
     (if mc_closed c then (c, None)
      else (c\<lparr>mc_closed := True, mc_items := Map.empty\<rparr>, None))"

definition mem_Len :: "('k, 'v) mem_cache \<Rightarrow> nat" where
  "mem_Len c = card (dom (mc_items c))"

definition mem_purge :: "gotime \<Rightarrow> ('k, 'v) mem_cache \<Rightarrow> ('k, 'v) mem_cache" where
  "mem_purge now c =
     (if mc_closed c then c
      else c\<lparr>mc_items := (\<lambda>k. case mc_items c k of
               None \<Rightarrow> None
             | Some ent \<Rightarrow> if mem_expired now ent then None else Some ent)\<rparr>)"

definition mem_ops :: "(('k, 'v) mem_cache, 'k, 'v) cache_ops" where
  "mem_ops = \<lparr>co_Get = mem_Get, co_Set = mem_Set, co_Delete = mem_Delete, co_Exists = mem_Exists,
     co_Clear = mem_Clear, co_Close = mem_Close\<rparr>"

section \<open>The two-level cache\<close>

record ('s, 't) ml_cache =
  ml_l1 :: 's
  ml_l2 :: 't
  ml_closed :: bool

definition ml_check :: "ctx \<Rightarrow> ('s, 't) ml_cache \<Rightarrow> cache_error option" where
  "ml_check ctx c =
     (if ml_closed c then Some CacheErrClosed
      else case ctx of Some e \<Rightarrow> Some (CacheErrCtx e) | None \<Rightarrow> None)"

definition ml_Get ::
    "('s, 'k, 'v) cache_ops \<Rightarrow> ('t, 'k, 'v) cache_ops \<Rightarrow> ctx \<Rightarrow> gotime \<Rightarrow> 'k \<Rightarrow>
     ('s, 't) ml_cache \<Rightarrow> ('s, 't) ml_cache \<times> (cache_error + 'v)" where
  "ml_Get o1 o2 ctx now key c =
     (case ml_check ctx c of
        Some e \<Rightarrow> (c, Inl e)
      | None \<Rightarrow>
          (case co_Get o1 ctx now key (ml_l1 c) of
             (s1, Inr v) \<Rightarrow> (c\<lparr>ml_l1 := s1\<rparr>, Inr v)
           | (s1, Inl e) \<Rightarrow>
               if e \<noteq> CacheErrNotFound then (c\<lparr>ml_l1 := s1\<rparr>, Inl e)
               else
                 (case co_Get o2 ctx now key (ml_l2 c) of
                    (s2, Inl e) \<Rightarrow> (c\<lparr>ml_l1 := s1, ml_l2 := s2\<rparr>, Inl e)
                  | (s2, Inr v) \<Rightarrow>
                      (c\<lparr>ml_l1 := fst (co_Set o1 ctx now key v 0 s1), ml_l2 := s2\<rparr>, Inr v))))"

definition ml_Set ::
    "('s, 'k, 'v) cache_ops \<Rightarrow> ('t, 'k, 'v) cache_ops \<Rightarrow> ctx \<Rightarrow> gotime \<Rightarrow> 'k \<Rightarrow> 'v \<Rightarrow> duration \<Rightarrow>
     ('s, 't) ml_cache \<Rightarrow> ('s, 't) ml_cache \<times> cache_error option" where
  "ml_Set o1 o2 ctx now key v ttl c =
     (case ml_check ctx c of
        Some e \<Rightarrow> (c, Some e)
      | None \<Rightarrow>
          (case co_Set o2 ctx now key v ttl (ml_l2 c) of
             (s2, Some e) \<Rightarrow> (c\<lparr>ml_l2 := s2\<rparr>, Some e)
           | (s2, None) \<Rightarrow>
               (case co_Set o1 ctx now key v ttl (ml_l1 c) of
                  (s1, r) \<Rightarrow> (c\<lparr>ml_l1 := s1, ml_l2 := s2\<rparr>, r))))"

definition ml_Delete ::
    "('s, 'k, 'v) cache_ops \<Rightarrow> ('t, 'k, 'v) cache_ops \<Rightarrow> ctx \<Rightarrow> 'k \<Rightarrow>
     ('s, 't) ml_cache \<Rightarrow> ('s, 't) ml_cache \<times> cache_error option" where
  "ml_Delete o1 o2 ctx key c =
     (case ml_check ctx c of
        Some e \<Rightarrow> (c, Some e)
      | None \<Rightarrow>
          (let s1 = fst (co_Delete o1 ctx key (ml_l1 c)) in
           case co_Delete o2 ctx key (ml_l2 c) of
             (s2, r) \<Rightarrow> (c\<lparr>ml_l1 := s1, ml_l2 := s2\<rparr>, r)))"

definition ml_Exists ::
    "('s, 'k, 'v) cache_ops \<Rightarrow> ('t, 'k, 'v) cache_ops \<Rightarrow> ctx \<Rightarrow> gotime \<Rightarrow> 'k \<Rightarrow>
     ('s, 't) ml_cache \<Rightarrow> ('s, 't) ml_cache \<times> (cache_error + bool)" where
  "ml_Exists o1 o2 ctx now key c =
     (case ml_check ctx c of
        Some e \<Rightarrow> (c, Inl e)
      | None \<Rightarrow>
          (case co_Exists o1 ctx now key (ml_l1 c) of
             (s1, Inl e) \<Rightarrow> (c\<lparr>ml_l1 := s1\<rparr>, Inl e)
           | (s1, Inr True) \<Rightarrow> (c\<lparr>ml_l1 := s1\<rparr>, Inr True)
           | (s1, Inr False) \<Rightarrow>
               (case co_Exists o2 ctx now key (ml_l2 c) of
                  (s2, r) \<Rightarrow> (c\<lparr>ml_l1 := s1, ml_l2 := s2\<rparr>, r))))"

definition ml_Clear ::
    "('s, 'k, 'v) cache_ops \<Rightarrow> ('t, 'k, 'v) cache_ops \<Rightarrow> ctx \<Rightarrow>
     ('s, 't) ml_cache \<Rightarrow> ('s, 't) ml_cache \<times> cache_error option" where
  "ml_Clear o1 o2 ctx c =
     (case ctx of
        Some e \<Rightarrow> (c, Some (CacheErrCtx e))
      | None \<Rightarrow>
          if ml_closed c then (c, Some CacheErrClosed)
          else
            (let s1 = fst (co_Clear o1 ctx (ml_l1 c)) in
             case co_Clear o2 ctx (ml_l2 c) of
               (s2, r) \<Rightarrow> (c\<lparr>ml_l1 := s1, ml_l2 := s2\<rparr>, r)))"

definition ml_Close ::
    "('s, 'k, 'v) cache_ops \<Rightarrow> ('t, 'k, 'v) cache_ops \<Rightarrow>
     ('s, 't) ml_cache \<Rightarrow> ('s, 't) ml_cache \<times> cache_error option" where
  "ml_Close o1 o2 c =
     (if ml_closed c then (c, None)
      else
        (case co_Close o1 (ml_l1 c) of
           (s1, err1) \<Rightarrow>
             (case co_Close o2 (ml_l2 c) of
                (s2, err2) \<Rightarrow>
                  (c\<lparr>ml_closed := True, ml_l1 := s1, ml_l2 := s2\<rparr>,
                   if err1 \<noteq> None then err1 else err2))))"

definition ml_ops ::
    "('s, 'k, 'v) cache_ops \<Rightarrow> ('t, 'k, 'v) cache_ops \<Rightarrow> (('s, 't) ml_cache, 'k, 'v) cache_ops" where
  "ml_ops o1 o2 = \<lparr>co_Get = ml_Get o1 o2, co_Set = ml_Set o1 o2, co_Delete = ml_Delete o1 o2,
     co_Exists = ml_Exists o1 o2, co_Clear = ml_Clear o1 o2, co_Close = ml_Close o1 o2\<rparr>"

section \<open>The contract\<close>

text \<open>
  What a client may rely on, on an open cache with a live context: \<open>live now s\<close> is the map of
  the entries visible at the time \<open>now\<close>.
\<close>

locale cache =
  fixes ops :: "('s, 'k, 'v) cache_ops"
    and live :: "gotime \<Rightarrow> 's \<Rightarrow> 'k \<rightharpoonup> 'v"
    and is_open :: "'s \<Rightarrow> bool"
  assumes get: "is_open s \<Longrightarrow> 0 \<le> now \<Longrightarrow> \<exists>s'. co_Get ops None now k s =
        (s', case live now s k of None \<Rightarrow> Inl CacheErrNotFound | Some v \<Rightarrow> Inr v) \<and>
        is_open s' \<and> live now s' = live now s"
    and set: "is_open s \<Longrightarrow> 0 \<le> now \<Longrightarrow> \<exists>s'. co_Set ops None now k v ttl s = (s', None) \<and>
        is_open s' \<and> live now s' = (live now s)(k \<mapsto> v)"
    and delete: "is_open s \<Longrightarrow> \<exists>s'. co_Delete ops None k s = (s', None) \<and> is_open s' \<and>
        (\<forall>now. live now s' = (live now s)(k := None))"
    and exist: "is_open s \<Longrightarrow> \<exists>s'. co_Exists ops None now k s = (s', Inr (live now s k \<noteq> None)) \<and>
        is_open s' \<and> live now s' = live now s"
    and clear: "is_open s \<Longrightarrow> \<exists>s'. co_Clear ops None s = (s', None) \<and> is_open s' \<and>
        (\<forall>now. live now s' = Map.empty)"
    and ctx_get: "is_open s \<Longrightarrow> co_Get ops (Some e) now k s = (s, Inl (CacheErrCtx e))"
    and ctx_set: "is_open s \<Longrightarrow> co_Set ops (Some e) now k v ttl s = (s, Some (CacheErrCtx e))"
begin

lemma get_cases:
  assumes "is_open s" "0 \<le> now"
  obtains (hit) s' v where "co_Get ops None now k s = (s', Inr v)" "live now s k = Some v"
      "is_open s'" "live now s' = live now s"
  | (miss) s' where "co_Get ops None now k s = (s', Inl CacheErrNotFound)" "live now s k = None"
      "is_open s'" "live now s' = live now s"
  using get [OF assms, of k] by (cases "live now s k") auto

lemma set_then_get:
  assumes "is_open s" "0 \<le> now"
  shows "snd (co_Get ops None now k (fst (co_Set ops None now k v ttl s))) = Inr v"
proof -
  obtain s' where "co_Set ops None now k v ttl s = (s', None)" "is_open s'"
    "live now s' = (live now s)(k \<mapsto> v)" using set [OF assms] by blast
  with get [of s' now k] assms(2) show ?thesis by auto
qed

end

text \<open>The memory cache satisfies it.\<close>

definition mem_live :: "gotime \<Rightarrow> ('k, 'v) mem_cache \<Rightarrow> 'k \<rightharpoonup> 'v" where
  "mem_live now c k =
     (case mc_items c k of
        None \<Rightarrow> None
      | Some ent \<Rightarrow> if mem_expired now ent then None else Some (me_value ent))"

definition mem_open :: "('k, 'v) mem_cache \<Rightarrow> bool" where
  "mem_open c \<longleftrightarrow> \<not> mc_closed c"

lemma mem_ops_simps [simp]:
  "co_Get mem_ops = mem_Get" "co_Set mem_ops = mem_Set" "co_Delete mem_ops = mem_Delete"
  "co_Exists mem_ops = mem_Exists" "co_Clear mem_ops = mem_Clear" "co_Close mem_ops = mem_Close"
  by (simp_all add: mem_ops_def)

lemma mem_live_drop:
  "mc_items c k = Some ent \<Longrightarrow> mem_expired now ent \<Longrightarrow> now \<le> t \<Longrightarrow>
    mem_live t (c\<lparr>mc_items := (mc_items c)(k := None)\<rparr>) = mem_live t c"
  by (auto simp: mem_live_def mem_expired_def fun_eq_iff)

lemma mem_live_set:
  "0 \<le> now \<Longrightarrow> mem_open c \<Longrightarrow>
    mem_live t (fst (mem_Set None now k v ttl c)) =
      (if 0 < ResolveTTL (mc_opts c) ttl \<and> now + ResolveTTL (mc_opts c) ttl \<le> t
       then (mem_live t c)(k := None) else (mem_live t c)(k \<mapsto> v))"
  by (auto simp: mem_Set_def mem_live_def mem_expired_def mem_open_def fun_eq_iff Let_def)

interpretation mem: cache mem_ops mem_live mem_open
proof
  fix s :: "('a, 'b) mem_cache" and now k v ttl e
  assume s: "mem_open s"
  show "\<exists>s'. co_Get mem_ops None now k s =
        (s', case mem_live now s k of None \<Rightarrow> Inl CacheErrNotFound | Some v \<Rightarrow> Inr v) \<and>
        mem_open s' \<and> mem_live now s' = mem_live now s"
    using s mem_live_drop [of s k _ now now]
    by (auto simp: mem_Get_def mem_open_def mem_live_def [of now s k] split: option.splits)
  show "\<exists>s'. co_Exists mem_ops None now k s = (s', Inr (mem_live now s k \<noteq> None)) \<and>
        mem_open s' \<and> mem_live now s' = mem_live now s"
    using s mem_live_drop [of s k _ now now]
    by (auto simp: mem_Exists_def mem_open_def mem_live_def [of now s k] split: option.splits)
  show "\<exists>s'. co_Delete mem_ops None k s = (s', None) \<and> mem_open s' \<and>
        (\<forall>now. mem_live now s' = (mem_live now s)(k := None))"
    using s by (auto simp: mem_Delete_def mem_open_def mem_live_def fun_eq_iff)
  show "\<exists>s'. co_Clear mem_ops None s = (s', None) \<and> mem_open s' \<and> (\<forall>now. mem_live now s' = Map.empty)"
    using s by (auto simp: mem_Clear_def mem_open_def mem_live_def fun_eq_iff)
  show "co_Get mem_ops (Some e) now k s = (s, Inl (CacheErrCtx e))" by (simp add: mem_Get_def)
  show "co_Set mem_ops (Some e) now k v ttl s = (s, Some (CacheErrCtx e))" by (simp add: mem_Set_def)
  show "\<exists>s'. co_Set mem_ops None now k v ttl s = (s', None) \<and> mem_open s' \<and>
        mem_live now s' = (mem_live now s)(k \<mapsto> v)" if "0 \<le> now"
    using mem_live_set [OF that s, of now k v ttl] s
    by (cases "mem_Set None now k v ttl s") (auto simp: mem_Set_def mem_open_def Let_def)
qed

text \<open>Lookups, existence tests and purges, as they happen between two operations.\<close>

datatype 'k mem_look = LookGet 'k gotime | LookExists 'k gotime | LookPurge gotime

fun mem_look_time :: "'k mem_look \<Rightarrow> gotime" where
  "mem_look_time (LookGet k t) = t"
| "mem_look_time (LookExists k t) = t"
| "mem_look_time (LookPurge t) = t"

fun mem_do :: "'k mem_look \<Rightarrow> ('k, 'v) mem_cache \<Rightarrow> ('k, 'v) mem_cache" where
  "mem_do (LookGet k t) c = fst (mem_Get None t k c)"
| "mem_do (LookExists k t) c = fst (mem_Exists None t k c)"
| "mem_do (LookPurge t) c = mem_purge t c"

lemma mem_look_live:
  assumes "mem_look_time op \<le> t" "mem_open c"
  shows "mem_live t (mem_do op c) = mem_live t c \<and> mem_open (mem_do op c)"
proof (cases op)
  case (LookGet k u)
  with assms mem_live_drop [of c k _ u t] show ?thesis
    by (auto simp: mem_Get_def mem_open_def split: option.splits)
next
  case (LookExists k u)
  with assms mem_live_drop [of c k _ u t] show ?thesis
    by (auto simp: mem_Exists_def mem_open_def split: option.splits)
next
  case (LookPurge u)
  with assms show ?thesis
    by (auto simp: mem_purge_def mem_open_def mem_live_def mem_expired_def fun_eq_iff split: option.splits)
qed

lemma mem_looks_live:
  "\<forall>op \<in> set lks. mem_look_time op \<le> t \<Longrightarrow> mem_open c \<Longrightarrow>
    mem_live t (fold mem_do lks c) = mem_live t c \<and> mem_open (fold mem_do lks c)"
proof (induction lks arbitrary: c)
  case (Cons lk lks)
  then have lk: "mem_look_time lk \<le> t" and rest: "\<forall>op \<in> set lks. mem_look_time op \<le> t" by auto
  note step = mem_look_live [OF lk Cons.prems(2)]
  from Cons.IH [OF rest conjunct2 [OF step]] step show ?case by simp
qed simp

lemma mem_Get_live:
  "mem_open c \<Longrightarrow> 0 \<le> now \<Longrightarrow> snd (mem_Get None now k c) =
    (case mem_live now c k of None \<Rightarrow> Inl CacheErrNotFound | Some v \<Rightarrow> Inr v)"
  using mem.get [of c now k] by auto

text \<open>
  C35. Expiry of the memory cache: a value stored with a time to live is returned by every
  \<open>Get\<close> before its expiry and by none from it on; without a time to live (neither given nor
  by default) it is returned for ever. Whatever lookups, existence tests and purges happen
  in between at earlier times do not change that.
\<close>

theorem mem_ttl:
  fixes c :: "('k, 'v) mem_cache" and ttl :: duration
  assumes "mem_open c" "0 \<le> now" "now \<le> t" "\<forall>op \<in> set lks. mem_look_time op \<le> t"
  defines "ttl' \<equiv> ResolveTTL (mc_opts c) ttl"
  shows "snd (mem_Get None t k (fold mem_do lks (fst (mem_Set None now k v ttl c)))) =
    (if 0 < ttl' \<and> now + ttl' \<le> t then Inl CacheErrNotFound else Inr v)"
proof -
  let ?c1 = "fst (mem_Set None now k v ttl c)"
  have "mem_open ?c1" using assms(1) by (simp add: mem_Set_def mem_open_def Let_def)
  from mem_looks_live [OF assms(4) this] mem_live_set [OF assms(2,1), of t k v ttl]
  have "mem_live t (fold mem_do lks ?c1) k = (if 0 < ttl' \<and> now + ttl' \<le> t then None else Some v)"
    and "mem_open (fold mem_do lks ?c1)" by (auto simp: ttl'_def)
  then show ?thesis using assms(2,3) by (simp add: mem_Get_live)
qed

theorem mem_ttl_witness:
  "snd (mem_Get None 109 ''k'' (fold mem_do [LookPurge 105, LookGet ''j'' 107]
     (fst (mem_Set None 100 ''k'' (7 :: nat) 10 (mem_New (cache_ApplyOptions [])))))) = Inr 7"
proof -
  let ?c = "mem_New (cache_ApplyOptions []) :: (string, nat) mem_cache"
  have "mem_open ?c" by (simp add: mem_open_def mem_New_def)
  moreover have "\<forall>op \<in> set [LookPurge 105, LookGet ''j'' 107]. mem_look_time op \<le> 109" by simp
  ultimately show ?thesis using mem_ttl [of ?c 100 109 "[LookPurge 105, LookGet ''j'' 107]" "''k''" 7 10]
    by (simp add: ResolveTTL_def)
qed

section \<open>Two levels\<close>

text \<open>
  What a two-level cache shows: the first level over the second. It is a lawful cache again
  when both levels are; the laws speak of one instant, since a lookup may promote an entry to
  the first level, where it lives longer.
\<close>

definition ml_live ::
    "(gotime \<Rightarrow> 's \<Rightarrow> 'k \<rightharpoonup> 'v) \<Rightarrow> (gotime \<Rightarrow> 't \<Rightarrow> 'k \<rightharpoonup> 'v) \<Rightarrow> gotime \<Rightarrow> ('s, 't) ml_cache \<Rightarrow> 'k \<rightharpoonup> 'v" where
  "ml_live live1 live2 now c = live2 now (ml_l2 c) ++ live1 now (ml_l1 c)"

definition ml_open :: "('s \<Rightarrow> bool) \<Rightarrow> ('t \<Rightarrow> bool) \<Rightarrow> ('s, 't) ml_cache \<Rightarrow> bool" where
  "ml_open open1 open2 c \<longleftrightarrow> \<not> ml_closed c \<and> open1 (ml_l1 c) \<and> open2 (ml_l2 c)"

lemma ml_ops_simps [simp]:
  "co_Get (ml_ops o1 o2) = ml_Get o1 o2" "co_Set (ml_ops o1 o2) = ml_Set o1 o2"
  "co_Delete (ml_ops o1 o2) = ml_Delete o1 o2" "co_Exists (ml_ops o1 o2) = ml_Exists o1 o2"
  "co_Clear (ml_ops o1 o2) = ml_Clear o1 o2" "co_Close (ml_ops o1 o2) = ml_Close o1 o2"
  by (simp_all add: ml_ops_def)

locale two_caches = l1: cache o1 live1 open1 + l2: cache o2 live2 open2
  for o1 :: "('s, 'k, 'v) cache_ops" and live1 open1
    and o2 :: "('t, 'k, 'v) cache_ops" and live2 open2
begin

lemma ml_get:
  assumes "ml_open open1 open2 c" "0 \<le> now"
  shows "\<exists>c'. ml_Get o1 o2 None now k c =
      (c', case ml_live live1 live2 now c k of None \<Rightarrow> Inl CacheErrNotFound | Some v \<Rightarrow> Inr v) \<and>
      ml_open open1 open2 c' \<and> ml_live live1 live2 now c' = ml_live live1 live2 now c"
proof -
  from assms(1) have op: "open1 (ml_l1 c)" "open2 (ml_l2 c)" and chk: "ml_check None c = None"
    by (simp_all add: ml_open_def ml_check_def)
  show ?thesis
  proof (rule l1.get_cases [OF op(1) assms(2), of k], goal_cases)
    case hit: (1 s1 v)
    with assms(1) chk show ?thesis by (auto simp: ml_Get_def ml_live_def ml_open_def)
  next
    case m1: (2 s1)
    show ?thesis
    proof (rule l2.get_cases [OF op(2) assms(2), of k], goal_cases)
      case hit: (1 s2 v)
      obtain s1' where "co_Set o1 None now k v 0 s1 = (s1', None)" "open1 s1'"
        "live1 now s1' = (live1 now s1)(k \<mapsto> v)"
        using l1.set [OF m1(3) assms(2)] by blast
      with m1 hit assms(1) chk show ?thesis
        by (auto simp: ml_Get_def ml_live_def ml_open_def map_add_def fun_eq_iff split: option.splits)
    next
      case miss: (2 s2)
      with m1 assms(1) chk show ?thesis
        by (auto simp: ml_Get_def ml_live_def ml_open_def map_add_def fun_eq_iff split: option.splits)
    qed
  qed
qed

lemma ml_set:
  assumes "ml_open open1 open2 c" "0 \<le> now"
  shows "\<exists>c'. ml_Set o1 o2 None now k v ttl c = (c', None) \<and> ml_open open1 open2 c' \<and>
    ml_live live1 live2 now c' = (ml_live live1 live2 now c)(k \<mapsto> v)"
proof -
  from assms(1) have op: "open1 (ml_l1 c)" "open2 (ml_l2 c)" and chk: "ml_check None c = None"
    by (simp_all add: ml_open_def ml_check_def)
  from l1.set [OF op(1) assms(2)] l2.set [OF op(2) assms(2)] obtain s1 s2 where
    "co_Set o1 None now k v ttl (ml_l1 c) = (s1, None)" "open1 s1" "live1 now s1 = (live1 now (ml_l1 c))(k \<mapsto> v)"
    "co_Set o2 None now k v ttl (ml_l2 c) = (s2, None)" "open2 s2" "live2 now s2 = (live2 now (ml_l2 c))(k \<mapsto> v)"
    by metis
  with assms(1) chk show ?thesis
    by (auto simp: ml_Set_def ml_open_def ml_live_def map_add_def fun_eq_iff split: option.splits)
qed

lemma ml_delete:
  assumes "ml_open open1 open2 c"
  shows "\<exists>c'. ml_Delete o1 o2 None k c = (c', None) \<and> ml_open open1 open2 c' \<and>
    (\<forall>now. ml_live live1 live2 now c' = (ml_live live1 live2 now c)(k := None))"
proof -
  from assms have op: "open1 (ml_l1 c)" "open2 (ml_l2 c)" and chk: "ml_check None c = None"
    by (simp_all add: ml_open_def ml_check_def)
  from l1.delete [OF op(1)] l2.delete [OF op(2)] obtain s1 s2 where
    "co_Delete o1 None k (ml_l1 c) = (s1, None)" "open1 s1" "\<forall>now. live1 now s1 = (live1 now (ml_l1 c))(k := None)"
    "co_Delete o2 None k (ml_l2 c) = (s2, None)" "open2 s2" "\<forall>now. live2 now s2 = (live2 now (ml_l2 c))(k := None)"
    by metis
  with assms chk show ?thesis
    by (auto simp: ml_Delete_def ml_open_def ml_live_def map_add_def fun_eq_iff split: option.splits)
qed

lemma ml_exists:
  assumes "ml_open open1 open2 c"
  shows "\<exists>c'. ml_Exists o1 o2 None now k c = (c', Inr (ml_live live1 live2 now c k \<noteq> None)) \<and>
    ml_open open1 open2 c' \<and> ml_live live1 live2 now c' = ml_live live1 live2 now c"
proof -
  from assms have op: "open1 (ml_l1 c)" "open2 (ml_l2 c)" and chk: "ml_check None c = None"
    by (simp_all add: ml_open_def ml_check_def)
  from l1.exist [OF op(1), of now k] l2.exist [OF op(2), of now k] obtain s1 s2 where
    "co_Exists o1 None now k (ml_l1 c) = (s1, Inr (live1 now (ml_l1 c) k \<noteq> None))" "open1 s1"
    "live1 now s1 = live1 now (ml_l1 c)"
    "co_Exists o2 None now k (ml_l2 c) = (s2, Inr (live2 now (ml_l2 c) k \<noteq> None))" "open2 s2"
    "live2 now s2 = live2 now (ml_l2 c)"
    by metis
  with assms chk show ?thesis
    by (cases "live1 now (ml_l1 c) k")
      (auto simp: ml_Exists_def ml_open_def ml_live_def map_add_def split: option.splits)
qed

lemma ml_clear:
  assumes "ml_open open1 open2 c"
  shows "\<exists>c'. ml_Clear o1 o2 None c = (c', None) \<and> ml_open open1 open2 c' \<and>
    (\<forall>now. ml_live live1 live2 now c' = Map.empty)"
proof -
  from assms have op: "open1 (ml_l1 c)" "open2 (ml_l2 c)" "\<not> ml_closed c" by (simp_all add: ml_open_def)
  from l1.clear [OF op(1)] l2.clear [OF op(2)] obtain s1 s2 where
    "co_Clear o1 None (ml_l1 c) = (s1, None)" "open1 s1" "\<forall>now. live1 now s1 = Map.empty"
    "co_Clear o2 None (ml_l2 c) = (s2, None)" "open2 s2" "\<forall>now. live2 now s2 = Map.empty"
    by metis
  with op show ?thesis by (auto simp: ml_Clear_def ml_open_def ml_live_def)
qed

end

sublocale two_caches \<subseteq> ml: cache "ml_ops o1 o2" "ml_live live1 live2" "ml_open open1 open2"
proof
  fix c now k v ttl e
  assume c: "ml_open open1 open2 c"
  then have chk: "ml_check (Some e) c = Some (CacheErrCtx e)" by (simp add: ml_open_def ml_check_def)
  show "co_Get (ml_ops o1 o2) (Some e) now k c = (c, Inl (CacheErrCtx e))"
    by (simp add: ml_Get_def chk)
  show "co_Set (ml_ops o1 o2) (Some e) now k v ttl c = (c, Some (CacheErrCtx e))"
    by (simp add: ml_Set_def chk)
qed (use ml_exists in \<open>simp_all add: ml_get ml_set ml_delete ml_clear\<close>)

interpretation mm: two_caches mem_ops mem_live mem_open mem_ops mem_live mem_open
  by unfold_locales


definition ml_demo :: "((string, nat) mem_cache, (string, nat) mem_cache) ml_cache" where
  "ml_demo = \<lparr>ml_l1 = mem_New (cache_ApplyOptions []), ml_l2 = mem_New (cache_ApplyOptions []),
     ml_closed = False\<rparr>"


text \<open>
  Promotion forgets the time to live: an entry read through the second level is stored in the
  first with the first level's default, here none, and outlives its expiry.
\<close>

lemma ml_promotion_outlives:
  "let c1 = ml_demo\<lparr>ml_l2 := fst (mem_Set None 100 ''k'' 7 10 (ml_l2 ml_demo))\<rparr>;
       c2 = fst (ml_Get mem_ops mem_ops None 105 ''k'' c1)
   in snd (ml_Get mem_ops mem_ops None 200 ''k'' c1) = Inl CacheErrNotFound \<and>
      snd (ml_Get mem_ops mem_ops None 200 ''k'' c2) = Inr 7"
  by (simp add: ml_demo_def mem_New_def cache_ApplyOptions_def mem_Set_def ResolveTTL_def
      ml_Get_def ml_check_def mem_Get_def mem_expired_def Let_def)

end
