(* ===== verification/Lock.thy ===== *)
theory Lock
  imports GoPrelude
begin

text \<open>
  The packages \<open>common/lock\<close> (files \<open>lock.go\<close>, \<open>token.go\<close>) and \<open>common/lock/memory\<close>
  (file \<open>memory.go\<close>): the lock interface, its options and tokens, and the process-local
  lock with a lease. The manager is a map from keys to entries; an operation of a mutex is
  one atomic step on the manager and the mutex (the entry's own mutex is held throughout).
  The condition variable of an entry is never used by the code and is left out.
\<close>

section \<open>Options and tokens\<close>

datatype lock_error =
    LockErrNotObtained | LockErrNotHeld | LockErrInvalidTTL | LockErrEmptyKey
  | LockErrCtx ctx_err | LockErrRand

record lock_Options =
  lock_TTL :: duration
  lock_RetryDelay :: duration
  lock_Value :: string

definition lock_WithTTL :: "duration \<Rightarrow> lock_Options \<Rightarrow> lock_Options" where
  "lock_WithTTL ttl o0 = o0\<lparr>lock_TTL := ttl\<rparr>"

definition lock_WithRetryDelay :: "duration \<Rightarrow> lock_Options \<Rightarrow> lock_Options" where
  "lock_WithRetryDelay d o0 = o0\<lparr>lock_RetryDelay := d\<rparr>"

definition lock_WithValue :: "string \<Rightarrow> lock_Options \<Rightarrow> lock_Options" where
  "lock_WithValue v o0 = o0\<lparr>lock_Value := v\<rparr>"

text \<open>A nil option is skipped: an option is None or a function.\<close>

definition lock_ApplyOptions :: "(lock_Options \<Rightarrow> lock_Options) option list \<Rightarrow> lock_Options" where
  "lock_ApplyOptions opts =
     fold (\<lambda>opt o0. case opt of None \<Rightarrow> o0 | Some f \<Rightarrow> f o0) opts
       \<lparr>lock_TTL = 10 * 10 ^ 9, lock_RetryDelay = 50 * 10 ^ 6, lock_Value = []\<rparr>"

text \<open>\<open>hex.EncodeToString\<close>, and a token from the bytes of the random source (None on failure).\<close>

definition hex_digit :: "nat \<Rightarrow> char" where
  "hex_digit n = (if n < 10 then char_of (48 + n) else char_of (87 + n))"

definition hex_encode :: "string \<Rightarrow> string" where
  "hex_encode bs = concat (map (\<lambda>b. [hex_digit (of_char b div 16), hex_digit (of_char b mod 16)]) bs)"

definition NewToken :: "string option \<Rightarrow> lock_error + string" where
  "NewToken rnd = (case rnd of None \<Rightarrow> Inl LockErrRand | Some bs \<Rightarrow> Inr (hex_encode bs))"

definition ResolveValue :: "string option \<Rightarrow> lock_Options \<Rightarrow> lock_error + lock_Options" where
  "ResolveValue rnd o0 =
     (if lock_Value o0 \<noteq> [] then Inr o0
      else res_bind (NewToken rnd) (\<lambda>v. Inr (o0\<lparr>lock_Value := v\<rparr>)))"

section \<open>The memory lock\<close>

record lock_entry =
  le_holder :: string
  le_expiresAt :: gotime

type_synonym lock_Manager = "string \<rightharpoonup> lock_entry"

record lock_Mutex =
  mx_key :: string
  mx_opts :: lock_Options
  mx_held :: bool

definition NewManager :: lock_Manager where
  "NewManager = Map.empty"

definition NewMutex ::
    "string option \<Rightarrow> string \<Rightarrow> (lock_Options \<Rightarrow> lock_Options) option list \<Rightarrow> lock_error + lock_Mutex" where
  "NewMutex rnd key opts =
     (if key = [] then Inl LockErrEmptyKey
      else
        let o0 = lock_ApplyOptions opts in
        if lock_TTL o0 \<le> 0 then Inl LockErrInvalidTTL
        else res_bind (ResolveValue rnd o0)
               (\<lambda>o1. Inr \<lparr>mx_key = key, mx_opts = o1, mx_held = False\<rparr>))"

definition lock_get :: "string \<Rightarrow> lock_Manager \<Rightarrow> lock_Manager \<times> lock_entry" where
  "lock_get key mgr =
     (case mgr key of
        Some e \<Rightarrow> (mgr, e)
      | None \<Rightarrow> let e = \<lparr>le_holder = [], le_expiresAt = 0\<rparr> in (mgr(key \<mapsto> e), e))"

type_synonym lock_state = "lock_Manager \<times> lock_Mutex"

definition memlock_TryLock :: "ctx \<Rightarrow> gotime \<Rightarrow> lock_state \<Rightarrow> lock_state \<times> lock_error option" where
  "memlock_TryLock ctx now = (\<lambda>(mgr, m).
     case ctx of
       Some e \<Rightarrow> ((mgr, m), Some (LockErrCtx e))
     | None \<Rightarrow>
         (let (mgr, e) = lock_get (mx_key m) mgr in
          if le_holder e \<noteq> [] \<and> time_After (le_expiresAt e) now
          then ((mgr, m), Some LockErrNotObtained)
          else ((mgr(mx_key m \<mapsto>
                   \<lparr>le_holder = lock_Value (mx_opts m), le_expiresAt = now + lock_TTL (mx_opts m)\<rparr>),
                 m\<lparr>mx_held := True\<rparr>), None)))"

definition memlock_Unlock :: "ctx \<Rightarrow> lock_state \<Rightarrow> lock_state \<times> lock_error option" where
  "memlock_Unlock ctx = (\<lambda>(mgr, m).
     case ctx of
       Some e \<Rightarrow> ((mgr, m), Some (LockErrCtx e))
     | None \<Rightarrow>
         (let (mgr, e) = lock_get (mx_key m) mgr in
          if \<not> mx_held m \<or> le_holder e \<noteq> lock_Value (mx_opts m)
          then ((mgr, m), Some LockErrNotHeld)
          else ((mgr(mx_key m \<mapsto> \<lparr>le_holder = [], le_expiresAt = 0\<rparr>), m\<lparr>mx_held := False\<rparr>), None)))"

definition memlock_Refresh :: "ctx \<Rightarrow> gotime \<Rightarrow> lock_state \<Rightarrow> lock_state \<times> lock_error option" where
  "memlock_Refresh ctx now = (\<lambda>(mgr, m).
     case ctx of
       Some e \<Rightarrow> ((mgr, m), Some (LockErrCtx e))
     | None \<Rightarrow>
         (let (mgr, e) = lock_get (mx_key m) mgr in
          if \<not> mx_held m \<or> le_holder e \<noteq> lock_Value (mx_opts m) \<or> \<not> time_After (le_expiresAt e) now
          then ((mgr, m), Some LockErrNotHeld)
          else ((mgr(mx_key m \<mapsto> e\<lparr>le_expiresAt := now + lock_TTL (mx_opts m)\<rparr>), m), None)))"

text \<open>
  \<open>Lock\<close> polls. The list holds what happens at each turn: the context and the clock at the
  attempt, what the other goroutines do to the manager during the wait, and whether the wait
  ends by the context. None: the turns are used up and the call is still waiting.
\<close>

record lock_poll =
  lp_ctx :: ctx
  lp_now :: gotime
  lp_others :: "lock_Manager \<Rightarrow> lock_Manager"
  lp_done :: ctx

fun memlock_Lock :: "lock_poll list \<Rightarrow> lock_state \<Rightarrow> (lock_state \<times> lock_error option) option" where
  "memlock_Lock [] s = None"
| "memlock_Lock (p # ps) s =
     (case memlock_TryLock (lp_ctx p) (lp_now p) s of
        (s', None) \<Rightarrow> Some (s', None)
      | ((mgr, m), Some LockErrNotObtained) \<Rightarrow>
          (case lp_done p of
             Some e \<Rightarrow> Some ((lp_others p mgr, m), Some (LockErrCtx e))
           | None \<Rightarrow> memlock_Lock ps (lp_others p mgr, m))
      | (s', Some err) \<Rightarrow> Some (s', Some err))"

section \<open>Several mutexes\<close>

text \<open>
  The mutexes share the manager. An event is an operation of one of them at a time; a run
  applies the events in order and collects the results.
\<close>

datatype lock_op = TryLock | Unlock | Refresh

record 'i lock_event =
  ev_mutex :: 'i
  ev_op :: lock_op
  ev_ctx :: ctx
  ev_now :: gotime

type_synonym 'i lock_sys = "lock_Manager \<times> ('i \<Rightarrow> lock_Mutex)"

definition lock_apply :: "lock_op \<Rightarrow> ctx \<Rightarrow> gotime \<Rightarrow> lock_state \<Rightarrow> lock_state \<times> lock_error option" where
  "lock_apply op ctx now =
     (case op of
        TryLock \<Rightarrow> memlock_TryLock ctx now
      | Unlock \<Rightarrow> memlock_Unlock ctx
      | Refresh \<Rightarrow> memlock_Refresh ctx now)"

definition lock_step :: "'i lock_event \<Rightarrow> 'i lock_sys \<Rightarrow> 'i lock_sys \<times> lock_error option" where
  "lock_step ev = (\<lambda>(mgr, ms).
     case lock_apply (ev_op ev) (ev_ctx ev) (ev_now ev) (mgr, ms (ev_mutex ev)) of
       ((mgr', m'), r) \<Rightarrow> ((mgr', ms(ev_mutex ev := m')), r))"

fun lock_run :: "'i lock_event list \<Rightarrow> 'i lock_sys \<Rightarrow> 'i lock_sys \<times> lock_error option list" where
  "lock_run [] s = (s, [])"
| "lock_run (ev # evs) s =
     (case lock_step ev s of
        (s', r) \<Rightarrow> (case lock_run evs s' of (s'', rs) \<Rightarrow> (s'', r # rs)))"

section \<open>Lemmas\<close>

lemmas memlock_defs = memlock_TryLock_def memlock_Unlock_def memlock_Refresh_def lock_get_def Let_def

lemma lock_apply_frame:
  assumes "lock_apply op ctx now (mgr, m) = ((mgr', m'), r)"
  shows "mx_key m' = mx_key m" "mx_opts m' = mx_opts m" "k \<noteq> mx_key m \<Longrightarrow> mgr' k = mgr k"
  using assms
  by (cases op; auto simp: lock_apply_def memlock_defs Let_def split: option.splits if_splits prod.splits)+

text \<open>A lease: the entry of a key has a holder until a time.\<close>

definition lock_lease :: "string \<Rightarrow> string \<Rightarrow> gotime \<Rightarrow> lock_Manager \<Rightarrow> bool" where
  "lock_lease key v t mgr \<longleftrightarrow> v \<noteq> [] \<and> mgr key = Some \<lparr>le_holder = v, le_expiresAt = t\<rparr>"

lemma TryLock_lease:
  assumes "memlock_TryLock None now (mgr, m) = ((mgr', m'), None)" "lock_Value (mx_opts m) \<noteq> []"
  shows "lock_lease (mx_key m) (lock_Value (mx_opts m)) (now + lock_TTL (mx_opts m)) mgr'"
    "mx_held m'" "mx_key m' = mx_key m" "mx_opts m' = mx_opts m"
  using assms by (auto simp: memlock_defs lock_lease_def Let_def split: if_splits option.splits)

lemma lease_blocks:
  assumes "lock_lease key v t mgr" "now < t" "lock_Value (mx_opts m) \<noteq> v"
    and "lock_apply op ctx now (mgr, m) = ((mgr', m'), r)"
  shows "lock_lease key v t mgr'" "mx_key m = key \<Longrightarrow> r \<noteq> None"
proof -
  have "lock_lease key v t mgr' \<and> (mx_key m = key \<longrightarrow> r \<noteq> None)"
  proof (cases "mx_key m = key")
    case True
    with assms show ?thesis
      by (cases op) (auto simp: lock_apply_def memlock_defs lock_lease_def split: option.splits if_splits)
  next
    case False
    with assms lock_apply_frame(3) [OF assms(4), of key] show ?thesis by (auto simp: lock_lease_def)
  qed
  then show "lock_lease key v t mgr'" "mx_key m = key \<Longrightarrow> r \<noteq> None" by blast+
qed

text \<open>The events of others while a lease runs: other tokens, times before its end.\<close>

definition others_before :: "'i \<Rightarrow> string \<Rightarrow> gotime \<Rightarrow> ('i \<Rightarrow> lock_Mutex) \<Rightarrow> 'i lock_event list \<Rightarrow> bool" where
  "others_before i v t ms evs \<longleftrightarrow>
     (\<forall>ev \<in> set evs. ev_mutex ev \<noteq> i \<and> lock_Value (mx_opts (ms (ev_mutex ev))) \<noteq> v \<and> ev_now ev < t)"

lemma lock_run_lease:
  assumes "lock_lease key v t mgr" "others_before i v t ms evs"
    and "lock_run evs (mgr, ms) = ((mgr', ms'), rs)"
  shows "lock_lease key v t mgr' \<and> ms' i = ms i \<and>
    (\<forall>k < length evs. mx_key (ms (ev_mutex (evs ! k))) = key \<longrightarrow> rs ! k \<noteq> None)"
  using assms
proof (induction evs arbitrary: mgr ms rs)
  case (Cons ev evs)
  obtain mgr1 m1 r where op: "lock_apply (ev_op ev) (ev_ctx ev) (ev_now ev) (mgr, ms (ev_mutex ev)) =
      ((mgr1, m1), r)" by (metis prod.collapse)
  let ?ms1 = "ms(ev_mutex ev := m1)"
  from op Cons.prems(3) obtain rs1 where run: "lock_run evs (mgr1, ?ms1) = ((mgr', ms'), rs1)" "rs = r # rs1"
    by (auto simp: lock_step_def split: prod.splits)
  from Cons.prems(2) have ev: "ev_mutex ev \<noteq> i" "ev_now ev < t"
    "lock_Value (mx_opts (ms (ev_mutex ev))) \<noteq> v" by (simp_all add: others_before_def)
  have key: "mx_key (?ms1 j) = mx_key (ms j)" "mx_opts (?ms1 j) = mx_opts (ms j)" for j
    using lock_apply_frame(1,2) [OF op] by auto
  from Cons.prems(2) have ob: "others_before i v t ?ms1 evs"
    unfolding others_before_def key by simp
  note lb = lease_blocks [OF Cons.prems(1) ev(2,3) op]
  from Cons.IH [OF lb(1) ob run(1)] lb(2) ev(1) show ?case
    unfolding key by (auto simp: run(2) nth_Cons split: nat.splits)
qed simp

text \<open>
  C15. A lease is exclusive: after a mutex has acquired the lock at a time, no operation of a
  mutex with another token on the same key succeeds before the lease ends, whatever the
  others do on this and other keys; and then the owner's \<open>Unlock\<close> succeeds and frees the lock.
\<close>

theorem lock_lease_exclusive:
  fixes i :: 'i
  assumes "memlock_TryLock None now (mgr, ms i) = ((mgr1, m1), None)"
    and "lock_Value (mx_opts (ms i)) \<noteq> []"
    and "lock_run evs (mgr1, ms(i := m1)) = ((mgr2, ms2), rs)"
    and "others_before i (lock_Value (mx_opts (ms i))) (now + lock_TTL (mx_opts (ms i))) ms evs"
  shows "(\<forall>k < length evs. mx_key (ms (ev_mutex (evs ! k))) = mx_key (ms i) \<longrightarrow> rs ! k \<noteq> None) \<and>
    (\<exists>mgr3 m3. memlock_Unlock None (mgr2, ms2 i) = ((mgr3, m3), None) \<and>
       mgr3 (mx_key (ms i)) = Some \<lparr>le_holder = [], le_expiresAt = 0\<rparr>)"
proof -
  note acq = TryLock_lease [OF assms(1,2)]
  have key: "mx_key ((ms(i := m1)) j) = mx_key (ms j)" "mx_opts ((ms(i := m1)) j) = mx_opts (ms j)" for j
    using acq(3,4) by simp_all
  have "others_before i (lock_Value (mx_opts (ms i))) (now + lock_TTL (mx_opts (ms i))) (ms(i := m1)) evs"
    using assms(4) unfolding others_before_def key .
  from lock_run_lease [OF acq(1) this assms(3)] have
    lease: "lock_lease (mx_key (ms i)) (lock_Value (mx_opts (ms i))) (now + lock_TTL (mx_opts (ms i))) mgr2"
    and own: "ms2 i = m1"
    and rs: "\<forall>k < length evs. mx_key (ms (ev_mutex (evs ! k))) = mx_key (ms i) \<longrightarrow> rs ! k \<noteq> None"
    unfolding key by auto
  have "\<exists>mgr3 m3. memlock_Unlock None (mgr2, m1) = ((mgr3, m3), None) \<and>
       mgr3 (mx_key (ms i)) = Some \<lparr>le_holder = [], le_expiresAt = 0\<rparr>"
    using lease acq(2-4) by (simp add: memlock_Unlock_def lock_get_def lock_lease_def)
  with rs show ?thesis unfolding own by blast
qed

text \<open>Two mutexes on one key, for the examples.\<close>

definition lock_demo :: "bool \<Rightarrow> lock_Mutex" where
  "lock_demo b = \<lparr>mx_key = ''job'',
     mx_opts = \<lparr>lock_TTL = 10, lock_RetryDelay = 1, lock_Value = (if b then ''B'' else ''A'')\<rparr>,
     mx_held = False\<rparr>"

theorem lock_lease_exclusive_witness:
  "snd (lock_run [\<lparr>ev_mutex = False, ev_op = TryLock, ev_ctx = None, ev_now = 100\<rparr>,
      \<lparr>ev_mutex = True, ev_op = TryLock, ev_ctx = None, ev_now = 109\<rparr>] (NewManager, lock_demo)) ! 1 \<noteq> None"
proof -
  let ?ev = "\<lparr>ev_mutex = True, ev_op = TryLock, ev_ctx = None, ev_now = 109\<rparr>"
  let ?m1 = "(lock_demo False)\<lparr>mx_held := True\<rparr>"
  let ?mgr1 = "NewManager(''job'' \<mapsto> \<lparr>le_holder = ''A'', le_expiresAt = 110\<rparr>)"
  have t: "memlock_TryLock None 100 (NewManager, lock_demo False) = ((?mgr1, ?m1), None)"
    by (simp add: memlock_defs lock_demo_def NewManager_def)
  obtain mgr2 ms2 rs where run: "lock_run [?ev] (?mgr1, lock_demo(False := ?m1)) = ((mgr2, ms2), rs)"
    by (metis prod.collapse)
  have o: "others_before False (lock_Value (mx_opts (lock_demo False)))
      (100 + lock_TTL (mx_opts (lock_demo False))) lock_demo [?ev]"
    by (simp add: others_before_def lock_demo_def)
  have v: "lock_Value (mx_opts (lock_demo False)) \<noteq> []" by (simp add: lock_demo_def)
  from lock_lease_exclusive [OF t v run o] have "rs ! 0 \<noteq> None" by (simp add: lock_demo_def)
  moreover have "lock_run [\<lparr>ev_mutex = False, ev_op = TryLock, ev_ctx = None, ev_now = 100\<rparr>, ?ev]
      (NewManager, lock_demo) = ((mgr2, ms2), None # rs)"
    using t run by (simp add: lock_step_def lock_apply_def split: prod.splits)
  ultimately show ?thesis by simp
qed

text \<open>
  A lock taken over is not released by its former owner: once the entry has another
  holder, the former owner's \<open>Unlock\<close> and \<open>Refresh\<close> return \<open>ErrNotHeld\<close> and leave the
  manager as it is.
\<close>

theorem lock_former_owner_refused:
  assumes "lock_lease (mx_key m) v t mgr" "v \<noteq> lock_Value (mx_opts m)"
  shows "memlock_Unlock None (mgr, m) = ((mgr, m), Some LockErrNotHeld) \<and>
    memlock_Refresh None now (mgr, m) = ((mgr, m), Some LockErrNotHeld)"
  using assms by (simp_all add: memlock_defs lock_lease_def)

theorem lock_former_owner_refused_witness:
  "let (s1, r1) = lock_run [\<lparr>ev_mutex = False, ev_op = TryLock, ev_ctx = None, ev_now = 100\<rparr>,
        \<lparr>ev_mutex = True, ev_op = TryLock, ev_ctx = None, ev_now = 110\<rparr>] (NewManager, lock_demo)
   in r1 = [None, None] \<and> snd (memlock_Unlock None (fst s1, snd s1 False)) = Some LockErrNotHeld"
proof -
  let ?mgr = "[''job'' \<mapsto> \<lparr>le_holder = ''B'', le_expiresAt = 120\<rparr>]"
  let ?m = "(lock_demo False)\<lparr>mx_held := True\<rparr>"
  have l: "lock_lease (mx_key ?m) ''B'' 120 ?mgr" "''B'' \<noteq> lock_Value (mx_opts ?m)"
    by (simp_all add: lock_lease_def lock_demo_def)
  have "fst (lock_run [\<lparr>ev_mutex = False, ev_op = TryLock, ev_ctx = None, ev_now = 100\<rparr>,
        \<lparr>ev_mutex = True, ev_op = TryLock, ev_ctx = None, ev_now = 110\<rparr>] (NewManager, lock_demo)) =
      (?mgr, lock_demo(False := ?m, True := (lock_demo True)\<lparr>mx_held := True\<rparr>))"
    "snd (lock_run [\<lparr>ev_mutex = False, ev_op = TryLock, ev_ctx = None, ev_now = 100\<rparr>,
        \<lparr>ev_mutex = True, ev_op = TryLock, ev_ctx = None, ev_now = 110\<rparr>] (NewManager, lock_demo)) = [None, None]"
    by (simp_all add: lock_step_def lock_apply_def memlock_defs lock_demo_def NewManager_def)
  with lock_former_owner_refused [OF l, of 111] show ?thesis by (simp add: split_def Let_def)
qed

text \<open>
  \<open>Unlock\<close> tests the context before it releases: with a cancelled context the lock stays
  taken until its lease ends.
\<close>

lemma lock_cancelled_unlock_keeps:
  "memlock_Unlock (Some e) (mgr, m) = ((mgr, m), Some (LockErrCtx e))"
  by (simp add: memlock_Unlock_def)

end
