(* ===== verification/CacheAside.thy ===== *)
theory CacheAside
  imports Cache Lock
begin

text \<open>
  The cache-aside helpers of \<open>common/cache\<close> (files \<open>cacheaside.go\<close>, \<open>helpers.go\<close>) over any
  cache that meets the contract of the theory Cache. The loader runs on a world \<open>'w\<close>; the
  optional lock is the two operations of the interface \<open>Locker\<close>, whose contract is the
  locale \<open>locker\<close>, met by the memory lock of the theory Lock. Between any two steps of a call
  time passes, its context may end, and other goroutines may change the cache, the lock and the
  world. JSON encoding is not modelled, nor a loader that panics.
\<close>

section \<open>Data\<close>

definition nullMarker :: string where
  "nullMarker = char_of (0 :: nat) # ''null'' @ [char_of (0 :: nat)]"

definition isNullMarker :: "string \<Rightarrow> bool" where
  "isNullMarker b \<longleftrightarrow> length b = length nullMarker \<and> b = nullMarker"

record 'l locker_ops =
  lk_TryLock :: "ctx \<Rightarrow> gotime \<Rightarrow> 'l \<Rightarrow> 'l \<times> bool"
  lk_Unlock :: "ctx \<Rightarrow> 'l \<Rightarrow> 'l \<times> bool"

record 'l CacheAsideOptions =
  ca_CacheTTL :: duration
  ca_NullTTL :: duration
  ca_LockTTL :: duration
  ca_Locker :: "'l locker_ops option"
  ca_NullMarkerEnabled :: bool

definition DefaultCacheAsideOptions :: "'l CacheAsideOptions" where
  "DefaultCacheAsideOptions =
     \<lparr>ca_CacheTTL = 30 * 60 * 10 ^ 9, ca_NullTTL = 5 * 60 * 10 ^ 9, ca_LockTTL = 10 * 10 ^ 9,
      ca_Locker = None, ca_NullMarkerEnabled = True\<rparr>"

definition WithCacheTTL :: "duration \<Rightarrow> 'l CacheAsideOptions \<Rightarrow> 'l CacheAsideOptions" where
  "WithCacheTTL ttl o0 = o0\<lparr>ca_CacheTTL := ttl\<rparr>"

definition WithNullTTL :: "duration \<Rightarrow> 'l CacheAsideOptions \<Rightarrow> 'l CacheAsideOptions" where
  "WithNullTTL ttl o0 = o0\<lparr>ca_NullTTL := ttl\<rparr>"

definition WithLocker :: "'l locker_ops \<Rightarrow> 'l CacheAsideOptions \<Rightarrow> 'l CacheAsideOptions" where
  "WithLocker l o0 = o0\<lparr>ca_Locker := Some l\<rparr>"

definition WithNullMarker :: "bool \<Rightarrow> 'l CacheAsideOptions \<Rightarrow> 'l CacheAsideOptions" where
  "WithNullMarker enabled o0 = o0\<lparr>ca_NullMarkerEnabled := enabled\<rparr>"

text \<open>The loader reports a missing key by \<open>ErrNotFound\<close>, or another error.\<close>

datatype 'e load_error = LoadNotFound | LoadErr 'e

datatype 'e ca_error = CaCache cache_error | CaLoader 'e

definition load_ca_error :: "'e load_error \<Rightarrow> 'e ca_error" where
  "load_ca_error e = (case e of LoadNotFound \<Rightarrow> CaCache CacheErrNotFound | LoadErr x \<Rightarrow> CaLoader x)"

section \<open>GetOrLoad\<close>

text \<open>
  The steps of a call that use the cache, the lock or the loader. The surroundings of a call say, for
  each of them, what \<open>ctx.Err()\<close> returns, what the clock shows, and what the others have done to the
  cache, the lock and the world since the step before.
\<close>

datatype gol_point = AtGet | AtLock | AtRecheck | AtLoad | AtStore | AtUnlock

record ('s, 'l, 'w) surroundings =
  gr_ctx :: "gol_point \<Rightarrow> ctx"
  gr_now :: "gol_point \<Rightarrow> gotime"
  gr_others :: "gol_point \<Rightarrow> 's \<times> 'l \<times> 'w \<Rightarrow> 's \<times> 'l \<times> 'w"

text \<open>A lookup, with the result to return at once; None is a miss.\<close>

definition ca_lookup ::
    "('s, string, string) cache_ops \<Rightarrow> ctx \<Rightarrow> gotime \<Rightarrow> string \<Rightarrow> 's \<Rightarrow> 's \<times> (cache_error + string) option" where
  "ca_lookup ops ctx now key s =
     (case co_Get ops ctx now key s of
        (s', Inr v) \<Rightarrow> (s', Some (if isNullMarker v then Inl CacheErrNotFound else Inr v))
      | (s', Inl e) \<Rightarrow> (s', if e \<noteq> CacheErrNotFound then Some (Inl e) else None))"

definition ca_result :: "cache_error + string \<Rightarrow> 'e ca_error + string" where
  "ca_result = map_sum CaCache id"

definition ca_load ::
    "('s, 'l, 'w) surroundings \<Rightarrow> ('s, string, string) cache_ops \<Rightarrow> 'l CacheAsideOptions \<Rightarrow> string \<Rightarrow>
     ('w \<Rightarrow> 'w \<times> ('e load_error + string)) \<Rightarrow> 's \<times> 'l \<times> 'w \<Rightarrow> ('s \<times> 'l \<times> 'w) \<times> ('e ca_error + string)" where
  "ca_load env ops o0 key loader st =
     (case gr_others env AtLoad st of
        (s, l, w) \<Rightarrow>
          (case loader w of
             (w', Inl err) \<Rightarrow>
               if err = LoadNotFound \<and> ca_NullMarkerEnabled o0 then
                 (case gr_others env AtStore (s, l, w') of
                    (s2, l2, w2) \<Rightarrow>
                      ((fst (co_Set ops (gr_ctx env AtStore) (gr_now env AtStore) key nullMarker (ca_NullTTL o0) s2), l2, w2),
                       Inl (load_ca_error err)))
               else ((s, l, w'), Inl (load_ca_error err))
           | (w', Inr data) \<Rightarrow>
               (case gr_others env AtStore (s, l, w') of
                  (s2, l2, w2) \<Rightarrow>
                    ((fst (co_Set ops (gr_ctx env AtStore) (gr_now env AtStore) key data (ca_CacheTTL o0) s2), l2, w2),
                     Inr data))))"

text \<open>The deferred \<open>Unlock\<close>, whose error is ignored.\<close>

definition ca_unlock :: "('s, 'l, 'w) surroundings \<Rightarrow> 'l locker_ops \<Rightarrow> 's \<times> 'l \<times> 'w \<Rightarrow> 's \<times> 'l \<times> 'w" where
  "ca_unlock env lk st =
     (case gr_others env AtUnlock st of (s, l, w) \<Rightarrow> (s, fst (lk_Unlock lk (gr_ctx env AtUnlock) l), w))"

definition GetOrLoad ::
    "('s, 'l, 'w) surroundings \<Rightarrow> ('s, string, string) cache_ops \<Rightarrow> 'l CacheAsideOptions \<Rightarrow> string \<Rightarrow>
     ('w \<Rightarrow> 'w \<times> ('e load_error + string)) option \<Rightarrow> 's \<times> 'l \<times> 'w \<Rightarrow>
     ('s \<times> 'l \<times> 'w) \<times> ('e ca_error + string)" where
  "GetOrLoad env ops o0 key loader0 = (\<lambda>(s, l, w).
     case loader0 of
       None \<Rightarrow> ((s, l, w), Inl (CaCache CacheErrNotFound))
     | Some loader \<Rightarrow>
         (case ca_lookup ops (gr_ctx env AtGet) (gr_now env AtGet) key s of
            (s1, Some r) \<Rightarrow> ((s1, l, w), ca_result r)
          | (s1, None) \<Rightarrow>
              (case ca_Locker o0 of
                 None \<Rightarrow> ca_load env ops o0 key loader (s1, l, w)
               | Some lk \<Rightarrow>
                   (case gr_others env AtLock (s1, l, w) of
                      (s2, l2, w2) \<Rightarrow>
                        (case lk_TryLock lk (gr_ctx env AtLock) (gr_now env AtLock) l2 of
                           (l3, False) \<Rightarrow> ((s2, l3, w2), Inl (CaCache CacheErrLockNotObtained))
                         | (l3, True) \<Rightarrow>
                             (case gr_others env AtRecheck (s2, l3, w2) of
                                (s4, l4, w4) \<Rightarrow>
                                  (case ca_lookup ops (gr_ctx env AtRecheck) (gr_now env AtRecheck) key s4 of
                                     (s5, Some r) \<Rightarrow> (ca_unlock env lk (s5, l4, w4), ca_result r)
                                   | (s5, None) \<Rightarrow>
                                       (case ca_load env ops o0 key loader (s5, l4, w4) of
                                          (st, r) \<Rightarrow> (ca_unlock env lk st, r)))))))))"

definition Invalidate :: "('s, string, string) cache_ops \<Rightarrow> ctx \<Rightarrow> string \<Rightarrow> 's \<Rightarrow> 's \<times> cache_error option" where
  "Invalidate ops ctx key s = co_Delete ops ctx key s"

fun InvalidateBatch ::
    "('s, string, string) cache_ops \<Rightarrow> ctx \<Rightarrow> string list \<Rightarrow> 's \<Rightarrow> 's \<times> cache_error option" where
  "InvalidateBatch ops ctx [] s = (s, None)"
| "InvalidateBatch ops ctx (k # ks) s =
     (case co_Delete ops ctx k s of
        (s', r) \<Rightarrow>
          if r \<noteq> None \<and> r \<noteq> Some CacheErrNotFound then (s', r)
          else InvalidateBatch ops ctx ks s')"

section \<open>Helpers\<close>

definition cache_GetString ::
    "('s, string, string) cache_ops \<Rightarrow> ctx \<Rightarrow> gotime \<Rightarrow> string \<Rightarrow> 's \<Rightarrow> 's \<times> (cache_error + string)" where
  "cache_GetString ops ctx now key s = co_Get ops ctx now key s"

definition cache_SetString ::
    "('s, string, string) cache_ops \<Rightarrow> ctx \<Rightarrow> gotime \<Rightarrow> string \<Rightarrow> string \<Rightarrow> duration \<Rightarrow> 's \<Rightarrow> 's \<times> cache_error option" where
  "cache_SetString ops ctx now key v ttl s = co_Set ops ctx now key v ttl s"

definition GetOrSet ::
    "('s, string, string) cache_ops \<Rightarrow> ctx \<Rightarrow> gotime \<times> gotime \<Rightarrow> string \<Rightarrow> duration \<Rightarrow>
     ('w \<Rightarrow> 'w \<times> ('e + string)) option \<Rightarrow> 's \<times> 'w \<Rightarrow> ('s \<times> 'w) \<times> ('e ca_error + string)" where
  "GetOrSet ops ctx = (\<lambda>(now1, now2) key ttl fn (s, w).
     case fn of
       None \<Rightarrow> ((s, w), Inl (CaCache CacheErrNotFound))
     | Some f \<Rightarrow>
         (case co_Get ops ctx now1 key s of
            (s1, Inr v) \<Rightarrow> ((s1, w), Inr v)
          | (s1, Inl e) \<Rightarrow>
              if e \<noteq> CacheErrNotFound then ((s1, w), Inl (CaCache e))
              else
                (case f w of
                   (w', Inl x) \<Rightarrow> ((s1, w'), Inl (CaLoader x))
                 | (w', Inr v) \<Rightarrow>
                     (case co_Set ops ctx now2 key v ttl s1 of
                        (s2, Some e) \<Rightarrow> ((s2, w'), Inl (CaCache e))
                      | (s2, None) \<Rightarrow> ((s2, w'), Inr v)))))"

section \<open>Cache-aside over a lawful cache\<close>

text \<open>
  The specification speaks of what the cache shows at the times of a call. A lookup answers what is
  shown, or reports that the context has ended; a miss leaves what is shown from then on.
\<close>

definition gol_answer :: "string \<Rightarrow> cache_error + string" where
  "gol_answer v = (if v = nullMarker then Inl CacheErrNotFound else Inr v)"

definition look_spec ::
    "(gotime \<Rightarrow> 's \<Rightarrow> string \<rightharpoonup> string) \<Rightarrow> ctx \<Rightarrow> gotime \<Rightarrow> string \<Rightarrow> 's \<Rightarrow> 's \<Rightarrow> (cache_error + string) option \<Rightarrow> bool" where
  "look_spec live ctx now key s s' a \<longleftrightarrow>
     (case ctx of
        Some e \<Rightarrow> s' = s \<and> a = Some (Inl (CacheErrCtx e))
      | None \<Rightarrow>
          live now s' = live now s \<and> a = map_option gol_answer (live now s key) \<and>
          (a = None \<longrightarrow> (\<forall>t \<ge> now. live t s' = live t s)))"

text \<open>
  A write with a live context shows the value from then on until its time to live has passed, and
  nothing after that; with a context that has ended it does nothing.
\<close>

definition store_spec ::
    "(gotime \<Rightarrow> 's \<Rightarrow> string \<rightharpoonup> string) \<Rightarrow> ctx \<Rightarrow> gotime \<Rightarrow> string \<Rightarrow> string \<Rightarrow> duration \<Rightarrow> 's \<Rightarrow> 's \<Rightarrow> bool" where
  "store_spec live ctx now key v ttl s s' \<longleftrightarrow>
     (if ctx = None then \<forall>t \<ge> now. live t s' = (live t s)(key := if t < now + ttl then Some v else None)
      else s' = s)"

text \<open>One run of the loader, and what is stored: the data, the null marker, or nothing.\<close>

definition load_spec ::
    "(gotime \<Rightarrow> 's \<Rightarrow> string \<rightharpoonup> string) \<Rightarrow> ('s, 'l, 'w) surroundings \<Rightarrow> 'l CacheAsideOptions \<Rightarrow> string \<Rightarrow>
     ('w \<Rightarrow> 'w \<times> ('e load_error + string)) \<Rightarrow> 's \<times> 'l \<times> 'w \<Rightarrow> 's \<times> 'l \<times> 'w \<Rightarrow> 'e ca_error + string \<Rightarrow> bool" where
  "load_spec live env o0 key loader st st' r \<longleftrightarrow>
     (\<exists>s l w w' r0. gr_others env AtLoad st = (s, l, w) \<and> loader w = (w', r0) \<and>
        (let store = (\<lambda>v ttl. snd st' = snd (gr_others env AtStore (s, l, w')) \<and>
               store_spec live (gr_ctx env AtStore) (gr_now env AtStore) key v ttl
                 (fst (gr_others env AtStore (s, l, w'))) (fst st'))
         in case r0 of
              Inr d \<Rightarrow> r = Inr d \<and> store d (ca_CacheTTL o0)
            | Inl LoadNotFound \<Rightarrow>
                r = Inl (CaCache CacheErrNotFound) \<and>
                (if ca_NullMarkerEnabled o0 then store nullMarker (ca_NullTTL o0) else st' = (s, l, w'))
            | Inl (LoadErr x) \<Rightarrow> r = Inl (CaLoader x) \<and> st' = (s, l, w')))"

definition gol_spec ::
    "(gotime \<Rightarrow> 's \<Rightarrow> string \<rightharpoonup> string) \<Rightarrow> ('s, 'l, 'w) surroundings \<Rightarrow> 'l CacheAsideOptions \<Rightarrow> string \<Rightarrow>
     ('w \<Rightarrow> 'w \<times> ('e load_error + string)) \<Rightarrow> 's \<times> 'l \<times> 'w \<Rightarrow> 's \<times> 'l \<times> 'w \<Rightarrow> 'e ca_error + string \<Rightarrow> bool" where
  "gol_spec live env o0 key loader st st' r \<longleftrightarrow>
     (\<exists>s1 a. look_spec live (gr_ctx env AtGet) (gr_now env AtGet) key (fst st) s1 a \<and>
        (case a of
           Some r' \<Rightarrow> r = ca_result r' \<and> st' = (s1, snd st)
         | None \<Rightarrow>
             (case ca_Locker o0 of
                None \<Rightarrow> load_spec live env o0 key loader (s1, snd st) st' r
              | Some lk \<Rightarrow>
                  (let (s2, l2, w2) = gr_others env AtLock (s1, snd st);
                       (l3, obtained) = lk_TryLock lk (gr_ctx env AtLock) (gr_now env AtLock) l2
                   in if \<not> obtained then r = Inl (CaCache CacheErrLockNotObtained) \<and> st' = (s2, l3, w2)
                      else (let (s4, l4, w4) = gr_others env AtRecheck (s2, l3, w2)
                            in \<exists>s5 a' st5. st' = ca_unlock env lk st5 \<and>
                                 look_spec live (gr_ctx env AtRecheck) (gr_now env AtRecheck) key s4 s5 a' \<and>
                                 (case a' of
                                    Some r' \<Rightarrow> r = ca_result r' \<and> st5 = (s5, l4, w4)
                                  | None \<Rightarrow> load_spec live env o0 key loader (s5, l4, w4) st5 r))))))"

text \<open>The others leave the cache open, and the clock does not show a time before its origin.\<close>

definition surroundings_ok :: "('s \<Rightarrow> bool) \<Rightarrow> ('s, 'l, 'w) surroundings \<Rightarrow> bool" where
  "surroundings_ok is_open env \<longleftrightarrow>
     (\<forall>p st. is_open (fst st) \<longrightarrow> is_open (fst (gr_others env p st))) \<and> (\<forall>p. 0 \<le> gr_now env p)"

lemma isNullMarker_eq [simp]: "isNullMarker v \<longleftrightarrow> v = nullMarker"
  by (auto simp: isNullMarker_def)

text \<open>Whether a call runs its loader: a loader in its place that fails in a way of its own would be heard.\<close>

definition runs_loader ::
    "('s, 'l, 'w) surroundings \<Rightarrow> ('s, string, string) cache_ops \<Rightarrow> 'l CacheAsideOptions \<Rightarrow> string \<Rightarrow> 's \<times> 'l \<times> 'w \<Rightarrow> bool" where
  "runs_loader env ops o0 key st \<longleftrightarrow>
     snd (GetOrLoad env ops o0 key (Some (\<lambda>w. (w, Inl (LoadErr ())))) st) = Inl (CaLoader ())"

lemma ca_result_neq [simp]: "ca_result r \<noteq> Inl (CaLoader x)"
  by (cases r) (simp_all add: ca_result_def)

text \<open>What the helper needs of a cache beside the contract: what later instants show.\<close>

locale byte_cache = cache ops live is_open
  for ops :: "('s, string, string) cache_ops" and live is_open +
  assumes set_later: "is_open s \<Longrightarrow> 0 \<le> now \<Longrightarrow> 0 < ttl \<Longrightarrow> now \<le> t \<Longrightarrow>
      live t (fst (co_Set ops None now k v ttl s)) = (live t s)(k := if t < now + ttl then Some v else None)"
    and miss_later: "is_open s \<Longrightarrow> 0 \<le> now \<Longrightarrow> live now s k = None \<Longrightarrow> now \<le> t \<Longrightarrow>
      live t (fst (co_Get ops None now k s)) = live t s"
begin

lemma lookup_spec:
  assumes "is_open s" "0 \<le> now"
  obtains s' a where "ca_lookup ops ctx now key s = (s', a)" "is_open s'" "look_spec live ctx now key s s' a"
proof (cases ctx)
  case None
  from get [OF assms, of key] obtain s' where g: "co_Get ops None now key s =
      (s', case live now s key of None \<Rightarrow> Inl CacheErrNotFound | Some v \<Rightarrow> Inr v)" "is_open s'" "live now s' = live now s"
    by blast
  have "ca_lookup ops ctx now key s = (s', map_option gol_answer (live now s key))"
    using g(1) None by (simp add: ca_lookup_def gol_answer_def split: option.splits)
  moreover have "\<forall>t \<ge> now. live t s' = live t s" if "live now s key = None"
    using miss_later [OF assms that] g(1) by simp
  ultimately show thesis using that [of s'] g(2,3) None by (simp add: look_spec_def)
next
  case (Some e)
  then show thesis using that assms ctx_get [OF assms(1), of e now key] by (simp add: ca_lookup_def look_spec_def)
qed

lemma write_spec:
  assumes "is_open s" "0 \<le> now" "0 < ttl"
  shows "store_spec live ctx now key v ttl s (fst (co_Set ops ctx now key v ttl s)) \<and>
    is_open (fst (co_Set ops ctx now key v ttl s))"
proof (cases ctx)
  case None
  then show ?thesis using set [OF assms(1,2), of key v ttl] set_later [OF assms] by (auto simp: store_spec_def)
next
  case (Some e)
  then show ?thesis using ctx_set [OF assms(1), of e now key v ttl] assms(1) by (simp add: store_spec_def)
qed

lemma load_meets_spec:
  assumes "is_open (fst st)" "surroundings_ok is_open env" "0 < ca_CacheTTL o0" "0 < ca_NullTTL o0"
  obtains st' r where "ca_load env ops o0 key loader st = (st', r)" "is_open (fst st')"
    "load_spec live env o0 key loader st st' r"
proof -
  obtain s l w where o: "gr_others env AtLoad st = (s, l, w)" by (cases "gr_others env AtLoad st")
  obtain w' r0 where L: "loader w = (w', r0)" by (cases "loader w")
  obtain s2 l2 w2 where o2: "gr_others env AtStore (s, l, w') = (s2, l2, w2)" by (cases "gr_others env AtStore (s, l, w')")
  have s: "is_open s" using assms(1,2) o by (metis fst_conv surroundings_ok_def)
  then have s2: "is_open s2" using assms(2) o2 by (metis fst_conv surroundings_ok_def)
  have now: "0 \<le> gr_now env AtStore" using assms(2) by (simp add: surroundings_ok_def)
  note wr = write_spec [OF s2 now assms(3)] write_spec [OF s2 now assms(4)]
  show thesis
  proof (cases r0)
    case (Inr d)
    with that o L o2 wr(1) show thesis by (simp add: ca_load_def load_spec_def)
  next
    case (Inl e)
    with that o L o2 wr(2) s show thesis
      by (cases e; cases "ca_NullMarkerEnabled o0") (simp_all add: ca_load_def load_spec_def load_ca_error_def)
  qed
qed

lemma gol_meets_spec:
  assumes "is_open (fst st)" "surroundings_ok is_open env" "0 < ca_CacheTTL o0" "0 < ca_NullTTL o0"
  obtains st' r where "GetOrLoad env ops o0 key (Some loader) st = (st', r)" "is_open (fst st')"
    "gol_spec live env o0 key loader st st' r"
proof -
  note keep = assms(2) [unfolded surroundings_ok_def, THEN conjunct1, rule_format]
  note now = assms(2) [unfolded surroundings_ok_def, THEN conjunct2, rule_format]
  obtain s l w where st: "st = (s, l, w)" by (cases st)
  with assms(1) have s: "is_open s" by simp
  obtain s1 a where l1: "ca_lookup ops (gr_ctx env AtGet) (gr_now env AtGet) key s = (s1, a)" "is_open s1"
    "look_spec live (gr_ctx env AtGet) (gr_now env AtGet) key s s1 a" by (rule lookup_spec [OF s now])
  show thesis
  proof (cases a)
    case (Some r)
    with that l1 show thesis by (fastforce simp: GetOrLoad_def gol_spec_def st)
  next
    case a: None
    show thesis
    proof (cases "ca_Locker o0")
      case None
      obtain st' r where "ca_load env ops o0 key loader (s1, l, w) = (st', r)" "is_open (fst st')"
        "load_spec live env o0 key loader (s1, l, w) st' r"
        by (rule load_meets_spec [of "(s1, l, w)" env o0 key loader]) (simp_all add: l1(2) assms(2-4))
      with that l1 a None show thesis by (fastforce simp: GetOrLoad_def gol_spec_def st)
    next
      case (Some lk)
      obtain s2 l2 w2 where o2: "gr_others env AtLock (s1, l, w) = (s2, l2, w2)" by (cases "gr_others env AtLock (s1, l, w)")
      obtain l3 b where k: "lk_TryLock lk (gr_ctx env AtLock) (gr_now env AtLock) l2 = (l3, b)"
        by (cases "lk_TryLock lk (gr_ctx env AtLock) (gr_now env AtLock) l2")
      obtain s4 l4 w4 where o4: "gr_others env AtRecheck (s2, l3, w2) = (s4, l4, w4)"
        by (cases "gr_others env AtRecheck (s2, l3, w2)")
      have s2: "is_open s2" using keep [of "(s1, l, w)" AtLock] o2 l1(2) by simp
      then have s4: "is_open s4" using keep [of "(s2, l3, w2)" AtRecheck] o4 by simp
      have un: "is_open (fst (ca_unlock env lk st5))" if "is_open (fst st5)" for st5
        using keep [OF that, of AtUnlock] by (cases "gr_others env AtUnlock st5") (simp add: ca_unlock_def)
      note G = GetOrLoad_def [of env ops o0 key "Some loader"] st l1(1) o2 k o4 Some a
      have spec: "gol_spec live env o0 key loader st st' r"
        if "if \<not> b then r = Inl (CaCache CacheErrLockNotObtained) \<and> st' = (s2, l3, w2)
           else \<exists>s5 a' st5. st' = ca_unlock env lk st5 \<and>
             look_spec live (gr_ctx env AtRecheck) (gr_now env AtRecheck) key s4 s5 a' \<and>
             (case a' of
                Some r' \<Rightarrow> r = ca_result r' \<and> st5 = (s5, l4, w4)
              | None \<Rightarrow> load_spec live env o0 key loader (s5, l4, w4) st5 r)" for st' r
        unfolding gol_spec_def
        by (rule exI [of _ s1], rule exI [of _ None]) (use that l1(3) a in \<open>cases b; simp add: st o2 k o4 Some Let_def\<close>)
      show thesis
      proof (cases b)
        case False
        have "GetOrLoad env ops o0 key (Some loader) st = ((s2, l3, w2), Inl (CaCache CacheErrLockNotObtained))"
          using False by (simp add: G)
        moreover have "gol_spec live env o0 key loader st (s2, l3, w2) (Inl (CaCache CacheErrLockNotObtained))"
          using False by (intro spec) simp
        ultimately show thesis using that s2 by simp
      next
        case True
        obtain s5 a' where l5: "ca_lookup ops (gr_ctx env AtRecheck) (gr_now env AtRecheck) key s4 = (s5, a')" "is_open s5"
          "look_spec live (gr_ctx env AtRecheck) (gr_now env AtRecheck) key s4 s5 a'" by (rule lookup_spec [OF s4 now])
        show thesis
        proof (cases a')
          case (Some r)
          have "GetOrLoad env ops o0 key (Some loader) st = (ca_unlock env lk (s5, l4, w4), ca_result r)"
            using l5(1) True Some by (simp add: G)
          moreover have "gol_spec live env o0 key loader st (ca_unlock env lk (s5, l4, w4)) (ca_result r)"
            by (rule spec, simp only: True not_True_eq_False if_False, intro exI conjI, rule refl, rule l5(3), simp add: Some)
          ultimately show thesis using that un l5(2) by simp
        next
          case None
          obtain st5 r where ld: "ca_load env ops o0 key loader (s5, l4, w4) = (st5, r)" "is_open (fst st5)"
            "load_spec live env o0 key loader (s5, l4, w4) st5 r"
            by (rule load_meets_spec [of "(s5, l4, w4)" env o0 key loader]) (simp_all add: l5(2) assms(2-4))
          have "GetOrLoad env ops o0 key (Some loader) st = (ca_unlock env lk st5, r)"
            using l5(1) ld(1) True None by (simp add: G)
          moreover have "gol_spec live env o0 key loader st (ca_unlock env lk st5) r"
            by (rule spec, simp only: True not_True_eq_False if_False, intro exI conjI, rule refl, rule l5(3), simp add: None ld(3))
          ultimately show thesis using that un ld(2) by simp
        qed
      qed
    qed
  qed
qed

text \<open>A call that runs its loader is the run of the loader on some state, and then the release.\<close>

lemma runs_loaderE:
  assumes "runs_loader env ops o0 key st" "is_open (fst st)" "surroundings_ok is_open env"
  shows "\<exists>st1. is_open (fst st1) \<and> (\<forall>loader. GetOrLoad env ops o0 key (Some loader) st =
    (case ca_load env ops o0 key loader st1 of
       (st2, r) \<Rightarrow> (case ca_Locker o0 of None \<Rightarrow> st2 | Some lk \<Rightarrow> ca_unlock env lk st2, r)))"
proof -
  note keep = assms(3) [unfolded surroundings_ok_def, THEN conjunct1, rule_format]
  note now = assms(3) [unfolded surroundings_ok_def, THEN conjunct2, rule_format]
  obtain s l w where st: "st = (s, l, w)" by (cases st)
  with assms(2) have s: "is_open s" by simp
  note R = assms(1) [unfolded runs_loader_def st GetOrLoad_def prod.case option.case]
  obtain s1 a where l1: "ca_lookup ops (gr_ctx env AtGet) (gr_now env AtGet) key s = (s1, a)" "is_open s1"
    by (rule lookup_spec [OF s now])
  have a: "a = None" using R l1 by (cases a) simp_all
  show ?thesis
  proof (cases "ca_Locker o0")
    case None
    show ?thesis by (rule exI [of _ "(s1, l, w)"]) (use l1 a None in \<open>simp_all add: GetOrLoad_def st split: prod.splits\<close>)
  next
    case (Some lk)
    obtain s2 l2 w2 where o2: "gr_others env AtLock (s1, l, w) = (s2, l2, w2)" by (cases "gr_others env AtLock (s1, l, w)")
    obtain l3 b where k: "lk_TryLock lk (gr_ctx env AtLock) (gr_now env AtLock) l2 = (l3, b)"
      by (cases "lk_TryLock lk (gr_ctx env AtLock) (gr_now env AtLock) l2")
    obtain s4 l4 w4 where o4: "gr_others env AtRecheck (s2, l3, w2) = (s4, l4, w4)"
      by (cases "gr_others env AtRecheck (s2, l3, w2)")
    have "is_open s2" using keep [of "(s1, l, w)" AtLock] o2 l1(2) by simp
    then have s4: "is_open s4" using keep [of "(s2, l3, w2)" AtRecheck] o4 by simp
    obtain s5 a' where l5: "ca_lookup ops (gr_ctx env AtRecheck) (gr_now env AtRecheck) key s4 = (s5, a')" "is_open s5"
      by (rule lookup_spec [OF s4 now])
    have b: "b" using R l1 a Some o2 k by (cases b) simp_all
    have a': "a' = None" using R l1 a Some o2 k o4 l5 b by (cases a') simp_all
    show ?thesis
      by (rule exI [of _ "(s5, l4, w4)"])
        (use l1 a Some o2 k o4 l5 a' b in \<open>simp_all add: GetOrLoad_def st split: prod.splits\<close>)
  qed
qed

end

lemma ml_mem_set_later:
  fixes c :: "(('k, 'v) mem_cache, ('k, 'v) mem_cache) ml_cache"
  assumes "ml_open mem_open mem_open c" "0 \<le> now" "0 < ttl" "now \<le> t"
  shows "ml_live mem_live mem_live t (fst (ml_Set mem_ops mem_ops None now k v ttl c)) =
    (ml_live mem_live mem_live t c)(k := if t < now + ttl then Some v else None)"
proof -
  have op: "mem_open (ml_l1 c)" "mem_open (ml_l2 c)" "ml_check None c = None"
    using assms(1) by (simp_all add: ml_open_def ml_check_def)
  have r: "ResolveTTL o0 ttl = ttl" for o0 using assms(3) by (simp add: ResolveTTL_def)
  obtain s1 s2 where s: "mem_Set None now k v ttl (ml_l1 c) = (s1, None)" "mem_Set None now k v ttl (ml_l2 c) = (s2, None)"
    using op by (auto simp: mem_Set_def mem_open_def Let_def)
  have "mem_live t s1 = (mem_live t (ml_l1 c))(k := if t < now + ttl then Some v else None)"
    "mem_live t s2 = (mem_live t (ml_l2 c))(k := if t < now + ttl then Some v else None)"
    using mem_live_set [OF assms(2) op(1), of t k v ttl] mem_live_set [OF assms(2) op(2), of t k v ttl]
      assms(3) s by (simp_all add: r fun_eq_iff)
  then show ?thesis using op(3) s by (auto simp: ml_Set_def ml_live_def map_add_def fun_eq_iff split: option.splits)
qed

lemma ml_mem_miss_later:
  fixes c :: "(('k, 'v) mem_cache, ('k, 'v) mem_cache) ml_cache"
  assumes "ml_open mem_open mem_open c" "ml_live mem_live mem_live now c k = None" "now \<le> t"
  shows "ml_live mem_live mem_live t (fst (ml_Get mem_ops mem_ops None now k c)) = ml_live mem_live mem_live t c"
proof -
  have op: "\<not> mc_closed (ml_l1 c)" "\<not> mc_closed (ml_l2 c)" "ml_check None c = None"
    using assms(1) by (simp_all add: ml_open_def mem_open_def ml_check_def)
  have no: "mem_live now (ml_l1 c) k = None" "mem_live now (ml_l2 c) k = None"
    using assms(2) by (auto simp: ml_live_def map_add_def split: option.splits)
  have miss: "\<exists>s'. mem_Get None now k s = (s', Inl CacheErrNotFound) \<and> mem_live t s' = mem_live t s"
    if "mem_live now s k = None" "\<not> mc_closed s" for s :: "('k, 'v) mem_cache"
    using that mem_live_drop [of s k _ now t] assms(3)
    by (auto simp: mem_Get_def mem_live_def [of now s k] split: option.splits if_splits)
  from miss [OF no(1) op(1)] miss [OF no(2) op(2)] op(3) show ?thesis
    by (auto simp: ml_Get_def ml_live_def)
qed

interpretation mmb: byte_cache "ml_ops mem_ops mem_ops" "ml_live mem_live mem_live" "ml_open mem_open mem_open"
  by unfold_locales (simp_all add: ml_mem_set_later ml_mem_miss_later)

type_synonym two_level = "((string, string) mem_cache, (string, string) mem_cache) ml_cache"

text \<open>
  C16. \<open>GetOrLoad\<close> over the two-level memory cache is cache-aside with a double check, whatever time
  passes, whenever the context ends and whatever others do to the cache, the lock and the world
  between its steps. A hit is answered without the loader and without the lock, the null marker as
  not found. A miss without a locker runs the loader once. With a locker it tries the lock: a
  refusal is returned; with the lock it looks again, answers what another has stored meanwhile
  without running the loader, and else runs the loader once; and in both cases it calls
  \<open>Unlock\<close> at the end. Data of the loader is shown until \<open>CacheTTL\<close> after the write, the null
  marker, if enabled and the loader reports a missing key, until \<open>NullTTL\<close> after it; another error
  stores nothing. A context that has ended is reported by the lookups and makes the write fail in
  silence.
\<close>

theorem cache_aside_spec:
  fixes c :: two_level and loader :: "'w \<Rightarrow> 'w \<times> ('e load_error + string)"
  assumes "ml_open mem_open mem_open c" "surroundings_ok (ml_open mem_open mem_open) env"
    and "0 < ca_CacheTTL o0" "0 < ca_NullTTL o0"
  shows "\<exists>st' r. GetOrLoad env (ml_ops mem_ops mem_ops) o0 key (Some loader) (c, l, w) = (st', r) \<and>
    ml_open mem_open mem_open (fst st') \<and>
    gol_spec (ml_live mem_live mem_live) env o0 key loader (c, l, w) st' r"
  using mmb.gol_meets_spec [of "(c, l, w)" env o0 key loader] assms by (metis fst_conv)

text \<open>An empty cache and a loader that counts its runs, for the examples.\<close>

definition ca_demo :: two_level where
  "ca_demo = \<lparr>ml_l1 = mem_New (cache_ApplyOptions []), ml_l2 = mem_New (cache_ApplyOptions []),
     ml_closed = False\<rparr>"

definition ca_demo_loader :: "string option \<Rightarrow> nat \<Rightarrow> nat \<times> (unit load_error + string)" where
  "ca_demo_loader r n = (n + 1, case r of None \<Rightarrow> Inl LoadNotFound | Some d \<Rightarrow> Inr d)"

text \<open>Surroundings in which the steps follow each other and nobody else does anything.\<close>

definition alone :: "gotime \<Rightarrow> ('s, 'l, 'w) surroundings" where
  "alone now = \<lparr>gr_ctx = (\<lambda>_. None), gr_now = (\<lambda>_. now), gr_others = (\<lambda>_ st. st)\<rparr>"

text \<open>Surroundings in which another goroutine stores a value just before the second lookup.\<close>

definition overtaken :: "gotime \<Rightarrow> string \<Rightarrow> string \<Rightarrow> (two_level, 'l, 'w) surroundings" where
  "overtaken now key v = (alone now)\<lparr>gr_others := (\<lambda>p (c, l, w).
     (if p = AtRecheck then fst (ml_Set mem_ops mem_ops None now key v 100 c) else c, l, w))\<rparr>"

definition free_locker :: "nat locker_ops" where
  "free_locker = \<lparr>lk_TryLock = (\<lambda>ctx now n. (n + 1, True)), lk_Unlock = (\<lambda>ctx n. (n + 1, True))\<rparr>"

lemma ca_demo_open: "ml_open mem_open mem_open ca_demo"
  by (simp add: ml_open_def ca_demo_def mem_open_def mem_New_def)

lemma ca_demo_empty: "ml_live mem_live mem_live now ca_demo = Map.empty"
  by (simp add: ml_live_def ca_demo_def mem_live_def mem_New_def fun_eq_iff map_add_def)

lemma alone_simps [simp]:
  "gr_ctx (alone now) p = None" "gr_now (alone now) p = now" "gr_others (alone now) p st = st"
  by (simp_all add: alone_def)

lemma alone_ok: "0 \<le> now \<Longrightarrow> surroundings_ok is_open (alone now)"
  by (simp add: surroundings_ok_def)

text \<open>
  The first call on an empty cache is overtaken by another that stores a value: it returns that value
  without running its loader, and has locked and unlocked once.
\<close>

theorem cache_aside_spec_witness:
  "\<exists>c'. GetOrLoad (overtaken 5 ''k'' ''v'') (ml_ops mem_ops mem_ops) (WithLocker free_locker DefaultCacheAsideOptions) ''k''
      (Some (ca_demo_loader None)) (ca_demo, 0, 0) = ((c', 2, 0), Inr ''v'') \<and> ml_open mem_open mem_open c'"
proof -
  let ?env = "overtaken 5 ''k'' ''v'' :: (two_level, nat, nat) surroundings"
  let ?o = "WithLocker free_locker DefaultCacheAsideOptions"
  have keep: "ml_open mem_open mem_open (fst (ml_Set mem_ops mem_ops None 5 k v ttl c))" if "ml_open mem_open mem_open c"
    for k v ttl and c :: two_level
    using mm.ml_set [OF that, of 5 k v ttl] by auto
  have ok: "surroundings_ok (ml_open mem_open mem_open) ?env"
    by (auto simp: surroundings_ok_def overtaken_def alone_def keep)
  have o0: "0 < ca_CacheTTL ?o" "0 < ca_NullTTL ?o" by (simp_all add: WithLocker_def DefaultCacheAsideOptions_def)
  have "\<exists>c'. GetOrLoad ?env (ml_ops mem_ops mem_ops) ?o ''k'' (Some (ca_demo_loader None)) (ca_demo, 0, 0) = ((c', 2, 0), Inr ''v'')"
    by (simp add: GetOrLoad_def overtaken_def alone_def WithLocker_def DefaultCacheAsideOptions_def free_locker_def
        ca_demo_def mem_New_def cache_ApplyOptions_def ca_lookup_def ml_Get_def ml_check_def mem_Get_def ml_Set_def
        mem_Set_def ResolveTTL_def mem_expired_def ca_unlock_def ca_result_def nullMarker_def Let_def)
  with cache_aside_spec [OF ca_demo_open ok o0, of "''k''" "ca_demo_loader None" 0 0] show ?thesis by auto
qed

text \<open>
  C33. The loader is not asked again while its answer lasts, and is asked again after that. After a
  call that ran its loader and got data, or found the key missing with null markers enabled, take a
  second call whose first lookup comes at a time \<open>t\<close> not before the write of the first. If \<open>t\<close> is
  within the time to live (\<open>CacheTTL\<close> for data, \<open>NullTTL\<close> for a missing key), the second call returns
  the same answer without its loader, lock or any change of the world; from the end of the time to
  live on it runs its loader (without a locker). The first call may use a locker and other
  goroutines may do anything during it, except that nobody touches the cache between its write and
  its release of the lock; the contexts are live at the write and at the second lookup.
\<close>

theorem cache_aside_loads_once:
  fixes c :: two_level and loader loader' :: "'w \<Rightarrow> 'w \<times> ('e load_error + string)"
  assumes "ml_open mem_open mem_open c" "surroundings_ok (ml_open mem_open mem_open) env"
    and "0 < ca_CacheTTL o0" "0 < ca_NullTTL o0"
    and "GetOrLoad env (ml_ops mem_ops mem_ops) o0 key (Some loader) (c, l, w) = ((c1, l1, w1), r)"
    and "runs_loader env (ml_ops mem_ops mem_ops) o0 key (c, l, w)"
    and "r = Inr d \<and> d \<noteq> nullMarker \<and> ttl = ca_CacheTTL o0 \<or>
      r = Inl (CaCache CacheErrNotFound) \<and> ca_NullMarkerEnabled o0 \<and> ttl = ca_NullTTL o0"
    and "gr_ctx env AtStore = None" "\<And>st. fst (gr_others env AtUnlock st) = fst st"
    and "gr_ctx env' AtGet = None" "gr_now env AtStore \<le> gr_now env' AtGet"
  shows "if gr_now env' AtGet < gr_now env AtStore + ttl
    then \<not> runs_loader env' (ml_ops mem_ops mem_ops) o0 key (c1, l1, w1) \<and>
      (\<exists>c2. GetOrLoad env' (ml_ops mem_ops mem_ops) o0 key (Some loader') (c1, l1, w1) = ((c2, l1, w1), r))
    else ca_Locker o0 = None \<longrightarrow> runs_loader env' (ml_ops mem_ops mem_ops) o0 key (c1, l1, w1)"
proof -
  let ?live = "ml_live mem_live mem_live" and ?ops = "ml_ops mem_ops mem_ops"
  let ?T = "gr_now env AtStore" and ?t = "gr_now env' AtGet"
  obtain st1 where st1: "ml_open mem_open mem_open (fst st1)" "\<And>loader. GetOrLoad env ?ops o0 key (Some loader) (c, l, w) =
    (case ca_load env ?ops o0 key (loader :: 'w \<Rightarrow> 'w \<times> ('e load_error + string)) st1 of
       (st2, r) \<Rightarrow> (case ca_Locker o0 of None \<Rightarrow> st2 | Some lk \<Rightarrow> ca_unlock env lk st2, r))"
    using mmb.runs_loaderE [OF assms(6) _ assms(2)] assms(1) by fastforce
  obtain st2 r2 where ld: "ca_load env ?ops o0 key loader st1 = (st2, r2)" "ml_open mem_open mem_open (fst st2)"
    "load_spec ?live env o0 key loader st1 st2 r2"
    by (rule mmb.load_meets_spec [OF st1(1) assms(2-4), of key loader])
  have r2: "r2 = r" using st1(2) [of loader] assms(5) ld(1) by simp
  note ld = ld [unfolded r2]
  have un: "fst (ca_unlock env lk st) = fst st" for lk st
    using assms(9) [of st] by (cases "gr_others env AtUnlock st") (simp add: ca_unlock_def)
  have "(c1, l1, w1) = (case ca_Locker o0 of None \<Rightarrow> st2 | Some lk \<Rightarrow> ca_unlock env lk st2)"
    using st1(2) [of loader] assms(5) ld(1) by simp
  then have "fst (c1, l1, w1) = fst st2" using un by (cases "ca_Locker o0") simp_all
  then have c1: "c1 = fst st2" by simp
  have "\<exists>v. ca_result (gol_answer v) = r \<and> store_spec ?live None ?T key v ttl (fst st3) (fst st2)"
    if "loader w' = (w2, r0)" "gr_others env AtLoad st1 = (s0, l0, w')" "st3 = gr_others env AtStore (s0, l0, w2)" for w' w2 r0 s0 l0 st3
  proof (cases r0)
    case (Inl e)
    then show ?thesis using ld(3) that assms(7,8)
      by (cases e) (auto simp: load_spec_def Let_def gol_answer_def ca_result_def)
  next
    case (Inr d')
    then show ?thesis using ld(3) that assms(7,8)
      by (auto simp: load_spec_def Let_def gol_answer_def ca_result_def)
  qed
  note stores = this
  obtain s0 l0 w' where lp: "gr_others env AtLoad st1 = (s0, l0, w')" by (cases "gr_others env AtLoad st1")
  obtain w2 r0 where lr: "loader w' = (w2, r0)" by (cases "loader w'")
  define st3 where "st3 = gr_others env AtStore (s0, l0, w2)"
  from stores [OF lr lp st3_def] obtain v where
    v1: "ca_result (gol_answer v) = r" "store_spec ?live None ?T key v ttl (fst st3) (fst st2)" by blast
  obtain v where v: "ca_result (gol_answer v) = r" "?live ?t c1 key = (if ?t < ?T + ttl then Some v else None)"
    using v1 assms(11) unfolding c1 by (simp add: store_spec_def)
  have t0: "0 \<le> ?t" using assms(2,11) by (auto simp: surroundings_ok_def intro: order_trans)
  obtain s' a where l2: "ca_lookup ?ops None ?t key c1 = (s', a)" "look_spec ?live None ?t key c1 s' a"
    using mmb.lookup_spec [OF ld(2) [folded c1] t0] by metis
  show ?thesis
  proof (cases "?t < ?T + ttl")
    case True
    then have "a = Some (gol_answer v)" using l2(2) v(2) by (simp add: look_spec_def)
    then show ?thesis using True l2(1) v(1) assms(10) by (simp add: GetOrLoad_def runs_loader_def)
  next
    case False
    then have "a = None" using l2(2) v(2) by (simp add: look_spec_def)
    then show ?thesis using False l2(1) assms(10)
      by (simp add: GetOrLoad_def runs_loader_def ca_load_def load_ca_error_def split: prod.splits)
  qed
qed

text \<open>A key that is missing is loaded at time 5 with a null marker of 100 units; calls at 104 and at 105.\<close>

theorem cache_aside_loads_once_witness:
  "let o0 = WithNullTTL 100 DefaultCacheAsideOptions :: unit CacheAsideOptions;
       first = GetOrLoad (alone 5) (ml_ops mem_ops mem_ops) o0 ''k'' (Some (ca_demo_loader None)) (ca_demo, (), 0)
   in snd first = Inl (CaCache CacheErrNotFound) \<and> snd (snd (fst first)) = 1 \<and>
      \<not> runs_loader (alone 104) (ml_ops mem_ops mem_ops) o0 ''k'' (fst first) \<and>
      runs_loader (alone 105) (ml_ops mem_ops mem_ops) o0 ''k'' (fst first)"
proof -
  let ?o = "WithNullTTL 100 DefaultCacheAsideOptions :: unit CacheAsideOptions"
  let ?ops = "ml_ops mem_ops mem_ops :: (two_level, string, string) cache_ops"
  have o0: "ca_Locker ?o = None" "ca_NullMarkerEnabled ?o" "ca_NullTTL ?o = 100" "0 < ca_CacheTTL ?o"
    by (simp_all add: DefaultCacheAsideOptions_def WithNullTTL_def)
  note ev = GetOrLoad_def ca_demo_def mem_New_def cache_ApplyOptions_def ca_lookup_def ml_Get_def ml_check_def mem_Get_def
  obtain c1 where first: "GetOrLoad (alone 5) ?ops ?o ''k'' (Some (ca_demo_loader None)) (ca_demo, (), 0) =
      ((c1, (), 1), Inl (CaCache CacheErrNotFound))"
    by (simp add: ev o0 ca_load_def ca_demo_loader_def load_ca_error_def)
  have ran: "runs_loader (alone 5) ?ops ?o ''k'' (ca_demo, (), 0 :: nat)"
    by (simp add: runs_loader_def ev o0 ca_load_def load_ca_error_def)
  note once = cache_aside_loads_once [OF ca_demo_open alone_ok o0(4) _ first ran, where ttl = 100 and d = "[]"]
  have "\<not> runs_loader (alone 104) ?ops ?o ''k'' (c1, (), 1 :: nat)" "runs_loader (alone 105) ?ops ?o ''k'' (c1, (), 1 :: nat)"
    using once [of "alone 104" "ca_demo_loader None"] once [of "alone 105" "ca_demo_loader None"] by (simp_all add: o0)
  with first show ?thesis by (simp add: Let_def)
qed

section \<open>With the memory lock\<close>

text \<open>What the helper relies on in a lock: from a free lock, taking and releasing it succeed.\<close>

locale locker =
  fixes lk :: "'l locker_ops" and free :: "'l \<Rightarrow> bool"
  assumes lock_cycle: "free l \<Longrightarrow> \<exists>l1. lk_TryLock lk None now l = (l1, True) \<and> free (fst (lk_Unlock lk None l1))"
begin

text \<open>A call that nobody disturbs leaves a free lock free.\<close>

lemma undisturbed_free:
  fixes env :: "('s, 'l, 'w) surroundings"
  assumes "ca_Locker o0 = Some lk" "free l" "\<And>p. gr_ctx env p = None" "\<And>p st. gr_others env p st = st"
  shows "free (fst (snd (fst (GetOrLoad env ops o0 key (Some loader) (s, l, w)))))"
proof -
  obtain l1 where "lk_TryLock lk None (gr_now env AtLock) l = (l1, True)" "free (fst (lk_Unlock lk None l1))"
    using lock_cycle [OF assms(2)] by blast
  moreover have "fst (snd (fst (ca_load env ops o0 key loader (s', l', w')))) = l'" for s' l' w'
    by (simp add: ca_load_def assms(4) split: prod.splits sum.splits)
  ultimately show ?thesis using assms
    by (simp add: GetOrLoad_def ca_unlock_def split: prod.splits option.splits) (metis fst_conv snd_conv)
qed

end

text \<open>The memory lock as that interface.\<close>

definition memory_locker :: "lock_state locker_ops" where
  "memory_locker = \<lparr>
     lk_TryLock = (\<lambda>ctx now s. case memlock_TryLock ctx now s of (s', r) \<Rightarrow> (s', r = None)),
     lk_Unlock = (\<lambda>ctx s. case memlock_Unlock ctx s of (s', r) \<Rightarrow> (s', r = None))\<rparr>"

definition lock_free :: "lock_state \<Rightarrow> bool" where
  "lock_free = (\<lambda>(mgr, m). case mgr (mx_key m) of None \<Rightarrow> True | Some e \<Rightarrow> le_holder e = [])"

interpretation meml: locker memory_locker lock_free
proof
  fix l now assume "lock_free l"
  then show "\<exists>l1. lk_TryLock memory_locker None now l = (l1, True) \<and>
      lock_free (fst (lk_Unlock memory_locker None l1))"
    by (cases l) (auto simp: memory_locker_def lock_free_def memlock_defs split: option.splits prod.splits)
qed

text \<open>
  With the memory lock as its locker, an undisturbed \<open>GetOrLoad\<close> on a free lock leaves the lock free,
  on a hit, on a miss and when the loader fails.
\<close>

lemma cache_aside_releases_lock:
  assumes "ca_Locker o0 = Some memory_locker" "lock_free l"
  shows "lock_free (fst (snd (fst (GetOrLoad (alone now) ops o0 key (Some loader) (s, l, w)))))"
  by (rule meml.undisturbed_free [OF assms]) simp_all

text \<open>
  The null marker is an ordinary value of the source: data equal to it is returned by the
  call that loads it, and the next call reports the key missing.
\<close>

lemma cache_aside_null_data:
  "let o0 = DefaultCacheAsideOptions :: unit CacheAsideOptions;
       first = GetOrLoad (alone 5) mem_ops o0 ''k'' (Some (ca_demo_loader (Some nullMarker)))
         (mem_New (cache_ApplyOptions []), (), 0);
       second = GetOrLoad (alone 5) mem_ops o0 ''k'' (Some (ca_demo_loader (Some nullMarker))) (fst first)
   in snd first = Inr nullMarker \<and> snd second = Inl (CaCache CacheErrNotFound)"
  by (simp add: DefaultCacheAsideOptions_def GetOrLoad_def ca_lookup_def ca_load_def ca_demo_loader_def ca_result_def
      mem_Get_def mem_Set_def mem_New_def cache_ApplyOptions_def ResolveTTL_def mem_expired_def Let_def)

end
