(* ===== verification/Trie.thy ===== *)
theory Trie
  imports GoPrelude "HOL-Library.AList" "HOL-Library.List_Lexorder" "HOL-Library.Sublist"
begin

text \<open>
  The package \<open>common/trie\<close> (file \<open>trie.go\<close>). The code ranges over the runes of a string, so
  a key is its list of runes, compared lexicographically (on valid UTF-8 the byte order of
  \<open>sort.Strings\<close>). A node's child map is an association list with distinct runes; the
  iterations of the code sort it or fill a map, so its order is not observable. The loops
  that descend from the root are the recursion on the key; the pruning loop of \<open>Delete\<close>
  walks the path backwards, which is the return of that recursion. \<open>SafeTrie\<close> calls these
  operations one at a time under its lock.
\<close>

section \<open>Nodes\<close>

type_synonym rune = nat

datatype 'v node = Node (node_children: "(rune \<times> 'v node) list") (node_isEnd: bool) (node_value: "'v option")

definition newNode :: "'v node" where
  "newNode = Node [] False None"

fun node_insert :: "'v node \<Rightarrow> rune list \<Rightarrow> 'v option \<Rightarrow> 'v node" where
  "node_insert (Node cs e v) [] x = Node cs True x"
| "node_insert (Node cs e v) (r # rs) x =
     Node (AList.update r
             (node_insert (case map_of cs r of Some c \<Rightarrow> c | None \<Rightarrow> newNode) rs x) cs) e v"

fun findNode :: "'v node \<Rightarrow> rune list \<Rightarrow> 'v node option" where
  "findNode n [] = Some n"
| "findNode (Node cs e v) (r # rs) =
     (case map_of cs r of None \<Rightarrow> None | Some c \<Rightarrow> findNode c rs)"

fun node_delete :: "'v node \<Rightarrow> rune list \<Rightarrow> 'v node option" where
  "node_delete (Node cs e v) [] = (if e then Some (Node cs False None) else None)"
| "node_delete (Node cs e v) (r # rs) =
     (case map_of cs r of
        None \<Rightarrow> None
      | Some c \<Rightarrow>
          (case node_delete c rs of
             None \<Rightarrow> None
           | Some c' \<Rightarrow>
               if node_children c' = [] \<and> \<not> node_isEnd c'
               then Some (Node (AList.delete r cs) e v)
               else Some (Node (AList.update r c' cs) e v)))"

lemma child_size: "(r, c) \<in> set cs \<Longrightarrow> size c < Suc (size_list (size_prod (\<lambda>x. 0) size) cs)"
  by (induction cs) auto

function node_collect :: "'v node \<Rightarrow> rune list \<Rightarrow> rune list list" where
  "node_collect (Node cs e v) prefx =
     (if e then [prefx] else []) @
     concat (map (\<lambda>(r, c). node_collect c (prefx @ [r])) (sort_key fst cs))"
  by pat_completeness auto
termination
  by (relation "measure (\<lambda>(n, p). size n)") (auto dest: child_size)

function node_collectValues :: "'v node \<Rightarrow> rune list \<Rightarrow> (rune list \<times> 'v option) list" where
  "node_collectValues (Node cs e v) prefx =
     (if e then [(prefx, v)] else []) @
     concat (map (\<lambda>(r, c). node_collectValues c (prefx @ [r])) cs)"
  by pat_completeness auto
termination
  by (relation "measure (\<lambda>(n, p). size n)") (auto dest: child_size)

declare node_collect.simps [simp del] node_collectValues.simps [simp del]

section \<open>The trie\<close>

record 'v trie =
  trie_root :: "'v node"
  trie_size :: int

definition trie_New :: "'v trie" where
  "trie_New = \<lparr>trie_root = newNode, trie_size = 0\<rparr>"

definition node_end_at :: "'v node \<Rightarrow> rune list \<Rightarrow> bool" where
  "node_end_at n key = (case findNode n key of None \<Rightarrow> False | Some m \<Rightarrow> node_isEnd m)"

definition trie_Insert :: "rune list \<Rightarrow> 'v option \<Rightarrow> 'v trie \<Rightarrow> 'v trie" where
  "trie_Insert key x t =
     (if key = [] then t
      else \<lparr>trie_root = node_insert (trie_root t) key x,
            trie_size = (if node_end_at (trie_root t) key then trie_size t else trie_size t + 1)\<rparr>)"

definition trie_InsertMany :: "(rune list \<times> 'v option) list \<Rightarrow> 'v trie \<Rightarrow> 'v trie" where
  "trie_InsertMany items t = fold (\<lambda>(k, x). trie_Insert k x) items t"

definition trie_Search :: "rune list \<Rightarrow> 'v trie \<Rightarrow> 'v option \<times> bool" where
  "trie_Search key t =
     (if key = [] then (None, False)
      else case findNode (trie_root t) key of
             None \<Rightarrow> (None, False)
           | Some n \<Rightarrow> if node_isEnd n then (node_value n, True) else (None, False))"

definition trie_HasPrefix :: "rune list \<Rightarrow> 'v trie \<Rightarrow> bool" where
  "trie_HasPrefix prefx t \<longleftrightarrow> findNode (trie_root t) prefx \<noteq> None"

definition trie_PrefixMatch :: "rune list \<Rightarrow> 'v trie \<Rightarrow> rune list list" where
  "trie_PrefixMatch prefx t =
     (case findNode (trie_root t) prefx of
        None \<Rightarrow> []
      | Some start \<Rightarrow> sort (node_collect start prefx))"

definition trie_PrefixMatchWithValues :: "rune list \<Rightarrow> 'v trie \<Rightarrow> (rune list \<times> 'v option) list" where
  "trie_PrefixMatchWithValues prefx t =
     (case findNode (trie_root t) prefx of
        None \<Rightarrow> []
      | Some start \<Rightarrow> node_collectValues start prefx)"

definition trie_Delete :: "rune list \<Rightarrow> 'v trie \<Rightarrow> 'v trie \<times> bool" where
  "trie_Delete key t =
     (if key = [] then (t, False)
      else case node_delete (trie_root t) key of
             None \<Rightarrow> (t, False)
           | Some n \<Rightarrow> (\<lparr>trie_root = n, trie_size = trie_size t - 1\<rparr>, True))"

definition trie_Size :: "'v trie \<Rightarrow> int" where
  "trie_Size t = trie_size t"

definition trie_Clear :: "'v trie \<Rightarrow> 'v trie" where
  "trie_Clear t = \<lparr>trie_root = newNode, trie_size = 0\<rparr>"

definition trie_Keys :: "'v trie \<Rightarrow> rune list list" where
  "trie_Keys t = sort (node_collect (trie_root t) [])"

text \<open>The loop of \<open>LongestPrefix\<close>: the index of the rune and the last end seen so far.\<close>

fun longest_loop :: "'v node \<Rightarrow> rune list \<Rightarrow> nat \<Rightarrow> nat option \<Rightarrow> nat option" where
  "longest_loop cur [] i lastEnd = lastEnd"
| "longest_loop (Node cs e v) (r # rs) i lastEnd =
     (case map_of cs r of
        None \<Rightarrow> lastEnd
      | Some c \<Rightarrow> longest_loop c rs (i + 1) (if node_isEnd c then Some i else lastEnd))"

definition trie_LongestPrefix :: "rune list \<Rightarrow> 'v trie \<Rightarrow> rune list option" where
  "trie_LongestPrefix s t =
     (if s = [] then None
      else case longest_loop (trie_root t) s 0 None of
             None \<Rightarrow> None
           | Some lastEnd \<Rightarrow> Some (take (lastEnd + 1) s))"

definition trie_Autocomplete :: "rune list \<Rightarrow> int \<Rightarrow> 'v trie \<Rightarrow> rune list list" where
  "trie_Autocomplete prefx limit t =
     (case findNode (trie_root t) prefx of
        None \<Rightarrow> []
      | Some start \<Rightarrow>
          (let keys = sort (node_collect start prefx)
           in if limit > 0 \<and> int (length keys) > limit then take (nat limit) keys else keys))"

text \<open>\<open>Walk\<close> with a callback on a state, which returns whether to go on.\<close>

fun walk_keys :: "'v trie \<Rightarrow> (rune list \<Rightarrow> 'v option \<Rightarrow> 's \<Rightarrow> 's \<times> bool) \<Rightarrow> rune list list \<Rightarrow> 's \<Rightarrow> 's" where
  "walk_keys t fn [] s = s"
| "walk_keys t fn (k # ks) s =
     (case fn k (fst (trie_Search k t)) s of
        (s', True) \<Rightarrow> walk_keys t fn ks s'
      | (s', False) \<Rightarrow> s')"

definition trie_Walk :: "(rune list \<Rightarrow> 'v option \<Rightarrow> 's \<Rightarrow> 's \<times> bool) \<Rightarrow> 'v trie \<Rightarrow> 's \<Rightarrow> 's" where
  "trie_Walk fn t s = walk_keys t fn (trie_Keys t) s"

section \<open>The map a node stands for\<close>

definition node_map :: "'v node \<Rightarrow> rune list \<rightharpoonup> 'v option" where
  "node_map n key =
     (case findNode n key of
        None \<Rightarrow> None
      | Some m \<Rightarrow> if node_isEnd m then Some (node_value m) else None)"

lemma node_map_Nil: "node_map (Node cs e v) [] = (if e then Some v else None)"
  by (simp add: node_map_def)

lemma node_map_Cons:
  "node_map (Node cs e v) (r # rs) = (case map_of cs r of None \<Rightarrow> None | Some c \<Rightarrow> node_map c rs)"
  by (simp add: node_map_def split: option.splits)

lemma node_map_newNode [simp]: "node_map newNode = Map.empty"
proof
  fix key :: "rune list"
  show "node_map newNode key = None" by (cases key) (simp_all add: node_map_def newNode_def)
qed

lemma node_map_insert: "node_map (node_insert n key x) = (node_map n)(key \<mapsto> x)"
proof (induction n key x rule: node_insert.induct)
  case (1 cs e v x)
  show ?case
  proof
    fix k show "node_map (node_insert (Node cs e v) [] x) k = ((node_map (Node cs e v))([] \<mapsto> x)) k"
      by (cases k) (simp_all add: node_map_Nil node_map_Cons)
  qed
next
  case (2 cs e v r rs x)
  show ?case
  proof
    fix k show "node_map (node_insert (Node cs e v) (r # rs) x) k = ((node_map (Node cs e v))(r # rs \<mapsto> x)) k"
      using 2 by (cases k) (auto simp: node_map_Nil node_map_Cons update_conv' split: option.splits)
  qed
qed

text \<open>The invariant: distinct runes, and every node below the root is on the way to a key.\<close>

definition node_alive :: "'v node \<Rightarrow> bool" where
  "node_alive n \<longleftrightarrow> node_children n \<noteq> [] \<or> node_isEnd n"

function node_ok :: "'v node \<Rightarrow> bool" where
  "node_ok (Node cs e v) \<longleftrightarrow>
     distinct (map fst cs) \<and> (\<forall>(r, c) \<in> set cs. node_alive c \<and> node_ok c)"
  by pat_completeness auto
termination
  by (relation "measure size") (auto dest: child_size)

declare node_ok.simps [simp del]

lemma node_ok_Node:
  "node_ok (Node cs e v) \<longleftrightarrow>
     distinct (map fst cs) \<and> (\<forall>r c. map_of cs r = Some c \<longrightarrow> node_alive c \<and> node_ok c)"
proof (cases "distinct (map fst cs)")
  case True
  then show ?thesis by (auto simp: node_ok.simps map_of_eq_Some_iff)
qed (simp add: node_ok.simps)

lemma node_ok_newNode: "node_ok newNode"
  by (simp add: newNode_def node_ok_Node)

lemma update_nonempty [simp]: "AList.update k v xs \<noteq> []"
  by (cases xs) auto

lemma node_alive_insert: "node_alive (node_insert n key x)"
  by (induction n key x rule: node_insert.induct) (auto simp: node_alive_def)

lemma node_ok_insert: "node_ok n \<Longrightarrow> node_ok (node_insert n key x)"
proof (induction n key x rule: node_insert.induct)
  case (2 cs e v r rs x)
  let ?c = "case map_of cs r of Some c \<Rightarrow> c | None \<Rightarrow> newNode"
  have "node_ok ?c" using 2(2) by (auto simp: node_ok_Node node_ok_newNode split: option.splits)
  with 2 show ?case
    by (auto simp: node_ok_Node update_conv' distinct_update node_alive_insert split: if_splits)
qed (simp add: node_ok_Node)

lemma node_delete_None: "node_delete n key = None \<longleftrightarrow> node_map n key = None"
proof (induction n key rule: node_delete.induct)
  case (2 cs e v r rs)
  then show ?case by (auto simp: node_map_Cons split: option.splits if_splits)
qed (simp add: node_map_Nil)

text \<open>A node that may be pruned maps nothing.\<close>

lemma node_map_dead: "\<not> node_alive n \<Longrightarrow> node_map n = Map.empty"
proof
  fix key assume "\<not> node_alive n"
  then show "node_map n key = None" by (cases n; cases key) (auto simp: node_alive_def node_map_def)
qed

lemma node_delete_Some:
  "node_delete n key = Some n' \<Longrightarrow> node_ok n \<Longrightarrow> node_map n' = (node_map n)(key := None) \<and> node_ok n'"
proof (induction n key arbitrary: n' rule: node_delete.induct)
  case (1 cs e v)
  then have n': "n' = Node cs False None" by (simp split: if_splits)
  have "node_map n' k = ((node_map (Node cs e v))([] := None)) k" for k
    by (cases k) (simp_all add: n' node_map_Nil node_map_Cons)
  with 1(2) show ?case by (auto simp: n' node_ok_Node)
next
  case (2 cs e v r rs)
  then obtain c c' where c: "map_of cs r = Some c" "node_delete c rs = Some c'"
    by (auto split: option.splits if_splits)
  have "node_ok c" using 2(3) c(1) by (simp add: node_ok_Node)
  from 2(1) [OF c this] have IH: "node_map c' = (node_map c)(rs := None)" "node_ok c'" by blast+
  show ?case
  proof (cases "node_alive c'")
    case False
    then have n': "n' = Node (AList.delete r cs) e v"
      using 2(2) c by (auto simp: node_alive_def)
    have "node_map n' k = ((node_map (Node cs e v))(r # rs := None)) k" for k
      using IH(1) node_map_dead [OF False] c(1)
      by (cases k) (auto simp: n' node_map_Nil node_map_Cons delete_conv' fun_eq_iff split: if_splits)
    moreover have "node_ok n'"
      using 2(3) by (auto simp: n' node_ok_Node delete_conv' distinct_delete split: if_splits)
    ultimately show ?thesis by blast
  next
    case True
    then have n': "n' = Node (AList.update r c' cs) e v"
      using 2(2) c by (auto simp: node_alive_def)
    have "node_map n' k = ((node_map (Node cs e v))(r # rs := None)) k" for k
      using IH(1) c(1) by (cases k) (auto simp: n' node_map_Nil node_map_Cons update_conv')
    moreover have "node_ok n'"
      using 2(3) True IH(2) by (auto simp: n' node_ok_Node update_conv' distinct_update split: if_splits)
    ultimately show ?thesis by blast
  qed
qed

section \<open>The keys below a node\<close>

lemma node_end_at_map: "node_end_at n key \<longleftrightarrow> node_map n key \<noteq> None"
  by (simp add: node_end_at_def node_map_def split: option.splits)

lemma node_alive_key: "node_alive n \<Longrightarrow> node_ok n \<Longrightarrow> node_map n \<noteq> Map.empty"
proof (induction n)
  case (Node cs e v)
  show ?case
  proof (cases e)
    case True
    then show ?thesis by (auto simp: fun_eq_iff node_map_Nil intro!: exI [of _ "[]"])
  next
    case False
    with Node.prems(1) obtain r c cs' where cs: "cs = (r, c) # cs'"
      by (cases cs) (auto simp: node_alive_def)
    then have m: "map_of cs r = Some c" by simp
    with Node.prems(2) have "node_alive c" "node_ok c" by (simp_all add: node_ok_Node)
    then have "node_map c \<noteq> Map.empty" using Node.IH [of "(r, c)" c] cs by simp
    then obtain k where "node_map c k \<noteq> None" by (auto simp: fun_eq_iff)
    with m have "node_map (Node cs e v) (r # k) \<noteq> None" by (simp add: node_map_Cons)
    then show ?thesis by (metis)
  qed
qed

lemma findNode_append:
  "node_map n (p @ k) = (case findNode n p of None \<Rightarrow> None | Some m \<Rightarrow> node_map m k)"
  by (induction n p rule: findNode.induct) (auto simp: node_map_Cons split: option.splits)

lemma findNode_ok:
  "findNode n p = Some m \<Longrightarrow> node_ok n \<Longrightarrow> node_ok m \<and> (p \<noteq> [] \<longrightarrow> node_alive m)"
proof (induction n p rule: findNode.induct)
  case (2 cs e v r rs)
  then obtain c where c: "map_of cs r = Some c" "findNode c rs = Some m" by (auto split: option.splits)
  then have "node_alive c" "node_ok c" using 2(3) by (auto simp: node_ok_Node)
  with 2(1) [OF c] show ?case by (cases rs) (use c in auto)
qed simp

lemma collect_children:
  "node_collect (Node cs e v) p =
     (if e then [p] else []) @ concat (map (\<lambda>rc. node_collect (snd rc) (p @ [fst rc])) (sort_key fst cs))"
  by (auto simp: node_collect.simps intro!: arg_cong [of _ _ concat] map_cong)

text \<open>What a node stores: its own value, and a rune before what a child stores.\<close>

lemma node_map_below:
  assumes "distinct (map fst cs)"
  shows "node_map (Node cs e v) k = Some x \<longleftrightarrow>
     (e \<and> k = [] \<and> x = v) \<or> (\<exists>r c k'. (r, c) \<in> set cs \<and> node_map c k' = Some x \<and> k = r # k')"
proof (cases k)
  case (Cons r k')
  have "node_map (Node cs e v) k = Some x \<longleftrightarrow> (\<exists>c. map_of cs r = Some c \<and> node_map c k' = Some x)"
    by (simp add: Cons node_map_Cons split: option.splits)
  then show ?thesis using assms by (simp add: Cons)
qed (auto simp: node_map_Nil)

lemma set_node_collect:
  "node_ok n \<Longrightarrow> set (node_collect n p) = {p @ k | k. node_map n k \<noteq> None}"
proof (induction n arbitrary: p)
  case (Node cs e v)
  have d: "distinct (map fst cs)" and ok: "\<And>r c. (r, c) \<in> set cs \<Longrightarrow> node_ok c"
    using Node.prems by (auto simp: node_ok.simps)
  have IH: "set (node_collect c q) = {q @ k | k. node_map c k \<noteq> None}" if "(r, c) \<in> set cs" for r c q
    using Node.IH [OF that, of c q] ok [OF that] by (simp del: not_None_eq)
  have key: "x \<in> set (node_collect (Node cs e v) p) \<longleftrightarrow>
      (e \<and> x = p) \<or> (\<exists>r c. (r, c) \<in> set cs \<and> x \<in> set (node_collect c (p @ [r])))" for x
    by (force simp: collect_children)
  have "x \<in> set (node_collect (Node cs e v) p) \<longleftrightarrow>
      (e \<and> x = p) \<or> (\<exists>r c. (r, c) \<in> set cs \<and> (\<exists>k. x = (p @ [r]) @ k \<and> node_map c k \<noteq> None))" for x
    unfolding key by (intro disj_cong refl ex_cong1 conj_cong) (simp del: not_None_eq add: IH)
  then show ?case by (auto simp: node_map_below [OF d]) blast+
qed

lemma distinct_node_collect: "node_ok n \<Longrightarrow> distinct (node_collect n p)"
proof (induction n arbitrary: p)
  case (Node cs e v)
  have d: "distinct (map fst cs)" and ok: "\<And>r c. (r, c) \<in> set cs \<Longrightarrow> node_ok c"
    using Node.prems by (auto simp: node_ok.simps)
  have IH: "distinct (node_collect c q)" if "(r, c) \<in> set cs" for r c q
    using Node.IH [OF that, of c q] ok [OF that] by simp
  let ?f = "\<lambda>rc. node_collect (snd rc) (p @ [fst rc])"
  have below: "\<exists>k. x = p @ fst rc # k" if "rc \<in> set cs" "x \<in> set (?f rc)" for rc x
    using set_node_collect [OF ok, of "fst rc" "snd rc" "p @ [fst rc]"] that by auto
  have "distinct (concat (map ?f xs))" if "distinct (map fst xs)" "set xs \<subseteq> set cs" for xs
    using that
  proof (induction xs)
    case (Cons a xs)
    have "distinct (?f a)" using IH [of "fst a" "snd a"] Cons.prems by simp
    moreover have "set (?f a) \<inter> set (concat (map ?f xs)) = {}"
    proof (rule ccontr)
      assume "set (?f a) \<inter> set (concat (map ?f xs)) \<noteq> {}"
      then obtain x b where x: "x \<in> set (?f a)" "b \<in> set xs" "x \<in> set (?f b)" by auto
      then have "fst a = fst b" using below [of a x] below [of b x] Cons.prems(2) by auto
      with x(2) Cons.prems(1) show False by auto
    qed
    ultimately show ?case using Cons by (simp del: set_concat)
  qed simp
  from this [of "sort_key fst cs"] have "distinct (concat (map ?f (sort_key fst cs)))"
    using d by (simp add: distinct_map inj_on_def)
  moreover have "p \<notin> set (concat (map ?f (sort_key fst cs)))"
    using below by fastforce
  ultimately show ?case unfolding collect_children by auto
qed

lemma node_collectValues_eq:
  "node_ok n \<Longrightarrow> set (node_collectValues n p) = {(p @ k, x) | k x. node_map n k = Some x}"
proof (induction n arbitrary: p)
  case (Node cs e v)
  have d: "distinct (map fst cs)" and ok: "\<And>r c. (r, c) \<in> set cs \<Longrightarrow> node_ok c"
    using Node.prems by (auto simp: node_ok.simps)
  have IH: "set (node_collectValues c q) = {(q @ k, x) | k x. node_map c k = Some x}"
    if "(r, c) \<in> set cs" for r c q
    using Node.IH [OF that, of c q] ok [OF that] by simp
  have "y \<in> set (node_collectValues (Node cs e v) p) \<longleftrightarrow>
      (e \<and> y = (p, v)) \<or> (\<exists>r c. (r, c) \<in> set cs \<and> y \<in> set (node_collectValues c (p @ [r])))" for y
    by (force simp: node_collectValues.simps)
  also have "\<dots> y \<longleftrightarrow>
      (e \<and> y = (p, v)) \<or> (\<exists>r c. (r, c) \<in> set cs \<and> (\<exists>k x. y = ((p @ [r]) @ k, x) \<and> node_map c k = Some x))" for y
    by (intro disj_cong refl ex_cong1 conj_cong) (simp add: IH)
  finally have "(q, x) \<in> set (node_collectValues (Node cs e v) p) \<longleftrightarrow>
      (\<exists>k. q = p @ k \<and> node_map (Node cs e v) k = Some x)" for q x
    by (auto simp: node_map_below [OF d])
  then show ?case by auto
qed


section \<open>The operations on a map\<close>

definition trie_map :: "'v trie \<Rightarrow> rune list \<rightharpoonup> 'v option" where
  "trie_map t = node_map (trie_root t)"

definition trie_inv :: "'v trie \<Rightarrow> bool" where
  "trie_inv t \<longleftrightarrow> node_ok (trie_root t) \<and> trie_map t [] = None \<and>
     trie_size t = int (card (dom (trie_map t)))"

lemma finite_dom_node_map:
  fixes n :: "'v node"
  assumes "node_ok n"
  shows "finite (dom (node_map n))"
proof -
  have "dom (node_map n) = set (node_collect n [])" using set_node_collect [OF assms, of "[]"] by auto
  then show ?thesis by (metis finite_set)
qed

lemma trie_inv_New: "trie_inv trie_New"
  by (simp add: trie_inv_def trie_New_def trie_map_def node_ok_newNode)

lemma trie_map_New: "trie_map trie_New = Map.empty"
  by (simp add: trie_map_def trie_New_def)

lemma trie_map_Insert:
  "trie_map (trie_Insert key x t) = (if key = [] then trie_map t else (trie_map t)(key \<mapsto> x))"
  by (simp add: trie_map_def trie_Insert_def node_map_insert)

lemma trie_inv_Insert:
  assumes "trie_inv t"
  shows "trie_inv (trie_Insert key x t)"
proof (cases "key = []")
  case False
  have f: "finite (dom (trie_map t))"
    using assms by (simp add: trie_inv_def trie_map_def finite_dom_node_map)
  have "trie_size (trie_Insert key x t) = int (card (insert key (dom (trie_map t))))"
    using False f assms
    by (simp add: trie_inv_def trie_Insert_def node_end_at_map trie_map_def card_insert_if domIff)
  moreover have "node_ok (trie_root (trie_Insert key x t))"
    using False assms by (simp add: trie_Insert_def trie_inv_def node_ok_insert)
  ultimately show ?thesis
    using False assms by (simp add: trie_inv_def trie_map_Insert)
qed (use assms in \<open>simp add: trie_Insert_def\<close>)

lemma trie_Delete_spec:
  assumes "trie_inv t"
  shows "trie_map (fst (trie_Delete key t)) = (trie_map t)(key := None) \<and>
    trie_inv (fst (trie_Delete key t)) \<and> (snd (trie_Delete key t) \<longleftrightarrow> trie_map t key \<noteq> None)"
proof (cases "key = [] \<or> trie_map t key = None")
  case True
  then have "trie_map t key = None" using assms by (auto simp: trie_inv_def)
  moreover from True have "trie_Delete key t = (t, False)"
    by (auto simp: trie_Delete_def trie_map_def node_delete_None [symmetric])
  ultimately show ?thesis using assms by (simp add: fun_upd_idem)
next
  case False
  then have key: "key \<noteq> []" and pres: "trie_map t key \<noteq> None" by auto
  from pres obtain n' where n': "node_delete (trie_root t) key = Some n'"
    using node_delete_None [of "trie_root t" key] by (auto simp: trie_map_def)
  have ok: "node_ok (trie_root t)" using assms by (simp add: trie_inv_def)
  have m: "node_map n' = (trie_map t)(key := None)" "node_ok n'"
    using node_delete_Some [OF n' ok] by (simp_all add: trie_map_def)
  have "card (dom (trie_map t)) > 0"
    using pres finite_dom_node_map [OF ok] by (auto simp: trie_map_def card_gt_0_iff)
  moreover have "card (dom (trie_map t) - {key}) = card (dom (trie_map t)) - 1"
    using pres by (simp add: card_Diff_singleton domIff)
  ultimately show ?thesis
    using key pres n' m assms by (simp add: trie_Delete_def trie_inv_def trie_map_def of_nat_diff)
qed

lemma trie_Clear_New: "trie_Clear t = trie_New"
  by (simp add: trie_Clear_def trie_New_def)

lemma trie_InsertMany_map:
  "trie_map (trie_InsertMany items t) = fold (\<lambda>(k, x) m. if k = [] then m else m(k \<mapsto> x)) items (trie_map t)"
  unfolding trie_InsertMany_def
  by (induction items arbitrary: t) (auto simp: trie_map_Insert)

lemma trie_inv_InsertMany: "trie_inv t \<Longrightarrow> trie_inv (trie_InsertMany items t)"
  unfolding trie_InsertMany_def
  by (induction items arbitrary: t) (auto simp: trie_inv_Insert)

text \<open>A history of updates, on the trie and on the map.\<close>

datatype 'v trie_op =
    OpInsert "rune list" "'v option"
  | OpInsertMany "(rune list \<times> 'v option) list"
  | OpDelete "rune list"
  | OpClear

fun trie_apply :: "'v trie_op \<Rightarrow> 'v trie \<Rightarrow> 'v trie" where
  "trie_apply (OpInsert k x) t = trie_Insert k x t"
| "trie_apply (OpInsertMany items) t = trie_InsertMany items t"
| "trie_apply (OpDelete k) t = fst (trie_Delete k t)"
| "trie_apply OpClear t = trie_Clear t"

definition map_insert :: "rune list \<Rightarrow> 'v option \<Rightarrow> (rune list \<rightharpoonup> 'v option) \<Rightarrow> (rune list \<rightharpoonup> 'v option)" where
  "map_insert k x m = (if k = [] then m else m(k \<mapsto> x))"

fun map_apply :: "'v trie_op \<Rightarrow> (rune list \<rightharpoonup> 'v option) \<Rightarrow> (rune list \<rightharpoonup> 'v option)" where
  "map_apply (OpInsert k x) m = map_insert k x m"
| "map_apply (OpInsertMany items) m = fold (\<lambda>(k, x). map_insert k x) items m"
| "map_apply (OpDelete k) m = m(k := None)"
| "map_apply OpClear m = Map.empty"

definition trie_run :: "'v trie_op list \<Rightarrow> 'v trie" where
  "trie_run ops = fold trie_apply ops trie_New"

definition map_run :: "'v trie_op list \<Rightarrow> rune list \<rightharpoonup> 'v option" where
  "map_run ops = fold map_apply ops Map.empty"

lemma trie_apply_refines:
  assumes "trie_inv t"
  shows "trie_inv (trie_apply p t) \<and> trie_map (trie_apply p t) = map_apply p (trie_map t)"
proof (cases p)
  case (OpInsertMany items)
  then show ?thesis
    using assms by (simp add: trie_InsertMany_map trie_inv_InsertMany map_insert_def [abs_def])
next
  case (OpDelete k)
  then show ?thesis using trie_Delete_spec [OF assms] by simp
qed (use assms in \<open>simp_all add: trie_inv_Insert trie_map_Insert map_insert_def trie_Clear_New
      trie_inv_New trie_map_New\<close>)

lemma trie_run_refines: "trie_inv (trie_run ops) \<and> trie_map (trie_run ops) = map_run ops"
proof -
  have "trie_inv (fold trie_apply ops t) \<and> trie_map (fold trie_apply ops t) = fold map_apply ops (trie_map t)"
    if "trie_inv t" for t :: "'a trie"
    using that by (induction ops arbitrary: t) (simp_all add: trie_apply_refines)
  from this [OF trie_inv_New] show ?thesis by (simp add: trie_run_def map_run_def trie_map_New)
qed

lemmas trie_run_inv = trie_run_refines [THEN conjunct1]
lemmas trie_run_map = trie_run_refines [THEN conjunct2]

lemma trie_Search_map:
  assumes "trie_inv t"
  shows "trie_Search key t = (case trie_map t key of None \<Rightarrow> (None, False) | Some x \<Rightarrow> (x, True))"
  using assms by (auto simp: trie_Search_def trie_inv_def trie_map_def node_map_def split: option.splits)

section \<open>Prefixes\<close>

lemma findNode_below:
  assumes "node_ok n" "findNode n p = Some m"
  shows "set (node_collect m p) = {k \<in> dom (node_map n). prefix p k}"
proof -
  have "set (node_collect m p) = {p @ k | k. node_map m k \<noteq> None}"
    by (rule set_node_collect) (use findNode_ok [OF assms(2,1)] in blast)
  also have "\<dots> = {p @ k | k. node_map n (p @ k) \<noteq> None}" by (simp add: findNode_append assms(2))
  finally show ?thesis by (auto simp: prefix_def)
qed

lemma findNode_None_below: "findNode n p = None \<Longrightarrow> {k \<in> dom (node_map n). prefix p k} = {}"
  by (auto simp: prefix_def findNode_append)

lemma trie_PrefixMatch_spec:
  assumes "trie_inv t"
  shows "trie_PrefixMatch p t = sorted_list_of_set {k \<in> dom (trie_map t). prefix p k}"
proof (cases "findNode (trie_root t) p")
  case None
  then show ?thesis
    unfolding trie_map_def findNode_None_below [OF None] by (simp add: trie_PrefixMatch_def)
next
  case (Some m)
  have ok: "node_ok (trie_root t)" using assms by (simp add: trie_inv_def)
  have "distinct (node_collect m p)"
    using findNode_ok [OF Some ok] by (simp add: distinct_node_collect)
  then have "sort (node_collect m p) = sorted_list_of_set (set (node_collect m p))"
    by (simp add: sorted_list_of_set_sort_remdups distinct_remdups_id)
  then show ?thesis
    using findNode_below [OF ok Some] by (simp add: trie_PrefixMatch_def Some trie_map_def)
qed

lemma trie_HasPrefix_spec:
  assumes "trie_inv t"
  shows "trie_HasPrefix p t \<longleftrightarrow> p = [] \<or> {k \<in> dom (trie_map t). prefix p k} \<noteq> {}"
proof (cases "findNode (trie_root t) p")
  case None
  then have "p \<noteq> []" by (cases p) auto
  with None findNode_None_below [OF None] show ?thesis by (simp add: trie_HasPrefix_def trie_map_def)
next
  case (Some m)
  have ok: "node_ok (trie_root t)" using assms by (simp add: trie_inv_def)
  have "p = [] \<or> (\<exists>k. node_map m k \<noteq> None)"
    using findNode_ok [OF Some ok] node_alive_key [of m] by (auto simp: fun_eq_iff)
  then have "p = [] \<or> (\<exists>k. trie_map t (p @ k) \<noteq> None)"
    by (auto simp: trie_map_def findNode_append Some)
  then show ?thesis using Some by (auto simp: trie_HasPrefix_def prefix_def)
qed

lemma trie_Keys_PrefixMatch: "trie_Keys t = trie_PrefixMatch [] t"
  by (simp add: trie_Keys_def trie_PrefixMatch_def)

lemma trie_Autocomplete_PrefixMatch:
  "trie_Autocomplete p limit t =
     (if limit > 0 then take (nat limit) (trie_PrefixMatch p t) else trie_PrefixMatch p t)"
  by (auto simp: trie_Autocomplete_def trie_PrefixMatch_def Let_def split: option.splits)

lemma trie_PrefixMatchWithValues_spec:
  assumes "trie_inv t"
  shows "set (trie_PrefixMatchWithValues p t) = {(k, x). trie_map t k = Some x \<and> prefix p k}"
proof (cases "findNode (trie_root t) p")
  case None
  then show ?thesis
    using findNode_None_below [OF None] by (auto simp: trie_PrefixMatchWithValues_def trie_map_def)
next
  case (Some m)
  have "node_ok m" using assms findNode_ok [OF Some] by (simp add: trie_inv_def)
  from node_collectValues_eq [OF this, of p] show ?thesis
    by (auto simp: trie_PrefixMatchWithValues_def Some trie_map_def prefix_def findNode_append)
qed

section \<open>The longest prefix\<close>

lemma filter_prefixes:
  "filter P (prefixes xs) = (if P [] then [[]] else []) @ filter (\<lambda>k. k \<noteq> [] \<and> P k) (prefixes xs)"
  by (cases xs) (simp_all add: filter_map o_def)

lemma longest_loop_prefixes:
  "longest_loop n s i l =
     (let ks = filter (\<lambda>k. k \<noteq> [] \<and> node_map n k \<noteq> None) (prefixes s)
      in if ks = [] then l else Some (i + length (last ks) - 1))"
proof (induction n s i l rule: longest_loop.induct)
  case (2 cs e v r rs i l)
  show ?case
  proof (cases "map_of cs r")
    case None
    then show ?thesis by (simp add: filter_map o_def node_map_Cons)
  next
    case (Some c)
    let ?Q = "\<lambda>k. k \<noteq> [] \<and> node_map c k \<noteq> None"
    have "filter (\<lambda>k. k \<noteq> [] \<and> node_map (Node cs e v) k \<noteq> None) (prefixes (r # rs)) =
        map ((#) r) (filter (\<lambda>k. node_map c k \<noteq> None) (prefixes rs))"
      by (simp add: filter_map o_def node_map_Cons Some)
    also have "filter (\<lambda>k. node_map c k \<noteq> None) (prefixes rs) =
        (if node_isEnd c then [[]] else []) @ filter ?Q (prefixes rs)"
      by (subst filter_prefixes) (cases c, simp add: node_map_Nil)
    finally have ks: "filter (\<lambda>k. k \<noteq> [] \<and> node_map (Node cs e v) k \<noteq> None) (prefixes (r # rs)) =
        map ((#) r) ((if node_isEnd c then [[]] else []) @ filter ?Q (prefixes rs))" .
    have "filter ?Q (prefixes rs) = [] \<or> last (filter ?Q (prefixes rs)) \<noteq> []"
      using last_in_set [of "filter ?Q (prefixes rs)"] by (auto simp del: last_in_set)
    then show ?thesis
      unfolding ks longest_loop.simps Some option.case 2 [OF Some]
      by (cases "filter ?Q (prefixes rs) = []") (simp_all add: Let_def last_map Suc_le_eq)
  qed
qed simp

definition longest_stored :: "(rune list \<rightharpoonup> 'v option) \<Rightarrow> rune list \<Rightarrow> rune list option" where
  "longest_stored m s =
     (case filter (\<lambda>k. m k \<noteq> None) (prefixes s) of [] \<Rightarrow> None | ks \<Rightarrow> Some (last ks))"

lemma trie_LongestPrefix_spec:
  assumes "trie_inv t"
  shows "trie_LongestPrefix s t = longest_stored (trie_map t) s"
proof -
  let ?ks = "filter (\<lambda>k. trie_map t k \<noteq> None) (prefixes s)"
  have ks: "filter (\<lambda>k. k \<noteq> [] \<and> node_map (trie_root t) k \<noteq> None) (prefixes s) = ?ks"
    using assms by (intro filter_cong) (auto simp: trie_inv_def trie_map_def)
  show ?thesis
  proof (cases "?ks = []")
    case True
    then show ?thesis
      using ks by (simp add: trie_LongestPrefix_def longest_loop_prefixes longest_stored_def Let_def)
  next
    case False
    then have last: "last ?ks \<in> set ?ks" by (rule last_in_set)
    then have "prefix (last ?ks) s" "last ?ks \<noteq> []" using assms by (auto simp: trie_inv_def)
    then have "take (length (last ?ks) - 1 + 1) s = last ?ks"
      by (cases "last ?ks") (auto simp: prefix_def)
    moreover have "s \<noteq> []" using \<open>prefix (last ?ks) s\<close> \<open>last ?ks \<noteq> []\<close> by auto
    moreover have "longest_stored (trie_map t) s = Some (last ?ks)"
      using False by (simp add: longest_stored_def split: list.splits)
    ultimately show ?thesis
      using ks False by (simp add: trie_LongestPrefix_def longest_loop_prefixes Let_def)
  qed
qed

section \<open>Properties\<close>

text \<open>
  C18. After any sequence of insertions, deletions and clears of a new trie, \<open>Search\<close> answers as
  the map that the same updates build (an empty key is never stored), \<open>Size\<close> is the number of
  its keys, and \<open>Delete\<close> reports whether the key was there: the pruning of nodes loses nothing.
\<close>

theorem trie_map_refinement:
  fixes ops :: "'v trie_op list"
  shows "(\<forall>key. trie_Search key (trie_run ops) =
            (case map_run ops key of None \<Rightarrow> (None, False) | Some x \<Rightarrow> (x, True))) \<and>
    trie_Size (trie_run ops) = int (card (dom (map_run ops))) \<and>
    (\<forall>key. snd (trie_Delete key (trie_run ops)) \<longleftrightarrow> map_run ops key \<noteq> None)"
proof (intro conjI allI)
  fix key
  show "trie_Search key (trie_run ops) =
      (case map_run ops key of None \<Rightarrow> (None, False) | Some x \<Rightarrow> (x, True))"
    using trie_Search_map [OF trie_run_inv] by (simp add: trie_run_map)
  show "snd (trie_Delete key (trie_run ops)) \<longleftrightarrow> map_run ops key \<noteq> None"
    using trie_Delete_spec [OF trie_run_inv [of ops]] by (simp add: trie_run_map)
next
  show "trie_Size (trie_run ops) = int (card (dom (map_run ops)))"
    using trie_run_inv [of ops] by (simp add: trie_Size_def trie_inv_def trie_run_map)
qed

text \<open>A callback on a list of bindings, until it returns false.\<close>

fun visit :: "('k \<Rightarrow> 'v \<Rightarrow> 's \<Rightarrow> 's \<times> bool) \<Rightarrow> ('k \<times> 'v) list \<Rightarrow> 's \<Rightarrow> 's" where
  "visit fn [] s = s"
| "visit fn ((k, v) # kvs) s = (case fn k v s of (s', go) \<Rightarrow> if go then visit fn kvs s' else s')"


text \<open>
  C38. \<open>LongestPrefix\<close> of a trie built by any updates returns the longest stored key that is a
  prefix of the text, and reports false exactly when no stored key is one.
\<close>

theorem trie_longest_prefix:
  "trie_LongestPrefix s (trie_run ops) = longest_stored (map_run ops) s"
  using trie_LongestPrefix_spec [OF trie_run_inv, of s ops] by (simp add: trie_run_map)

text \<open>The empty prefix is answered true even by a trie without keys.\<close>

lemma trie_HasPrefix_empty: "trie_HasPrefix [] (trie_New :: 'v trie) \<and> trie_Keys (trie_New :: 'v trie) = []"
  by (simp add: trie_HasPrefix_def trie_Keys_def trie_New_def newNode_def node_collect.simps)

end
