(* ===== verification/Consistent.thy ===== *)
theory Consistent
  imports GoPrelude "HOL-Library.AList" "HOL-Library.Char_ord" "HOL-Library.List_Lexorder"
    "HOL-Library.Sublist"
begin

text \<open>
  The package \<open>common/consistent\<close> (file \<open>consistent.go\<close>): the consistent-hash ring with virtual
  nodes. A ring is a record of the fields of \<open>Ring\<close>; its map of virtual nodes is an association
  list with distinct hashes and its set of nodes a list without duplicates, as no operation
  observes their order. The methods hold the ring's lock from start to end, so each is one step.
  \<open>sort.Search\<close> and CRC-32 are modelled as the standard library defines them.
\<close>

section \<open>The standard library\<close>

unbundle bit_operations_syntax

definition crc32_bit :: "32 word \<Rightarrow> 32 word" where
  "crc32_bit c = (if bit c 0 then drop_bit 1 c XOR 0xEDB88320 else drop_bit 1 c)"

definition ChecksumIEEE :: "string \<Rightarrow> 32 word" where
  "ChecksumIEEE data =
     NOT (foldl (\<lambda>c b. fold (\<lambda>_. crc32_bit) [0..<8] (c XOR word_of_nat (of_char b))) (NOT 0) data)"

lemma crc32_check: "ChecksumIEEE ''a'' = 0xE8B7BE43"
  by (simp add: ChecksumIEEE_def crc32_bit_def upt_rec)

function sort_Search_loop :: "(nat \<Rightarrow> bool) \<Rightarrow> nat \<Rightarrow> nat \<Rightarrow> nat" where
  "sort_Search_loop f i j =
     (if i < j
      then let h = (i + j) div 2 in if \<not> f h then sort_Search_loop f (h + 1) j else sort_Search_loop f i h
      else i)"
  by pat_completeness auto
termination
  by (relation "measure (\<lambda>(f, i, j). j - i)") auto

declare sort_Search_loop.simps [simp del]

definition sort_Search :: "nat \<Rightarrow> (nat \<Rightarrow> bool) \<Rightarrow> nat" where
  "sort_Search n f = sort_Search_loop f 0 n"

lemma sort_Search_loop_least:
  assumes mono: "\<And>a b. a \<le> b \<Longrightarrow> b < n \<Longrightarrow> f a \<Longrightarrow> f b"
  shows "i \<le> j \<Longrightarrow> j \<le> n \<Longrightarrow> \<forall>k < i. \<not> f k \<Longrightarrow> \<forall>k. j \<le> k \<and> k < n \<longrightarrow> f k \<Longrightarrow>
    sort_Search_loop f i j \<le> n \<and> (\<forall>k < sort_Search_loop f i j. \<not> f k) \<and>
    (\<forall>k. sort_Search_loop f i j \<le> k \<and> k < n \<longrightarrow> f k)"
proof (induction "j - i" arbitrary: i j rule: less_induct)
  case less
  show ?case
  proof (cases "i < j")
    case False
    then show ?thesis using less.prems by (simp add: sort_Search_loop.simps)
  next
    case True
    let ?h = "(i + j) div 2"
    have h: "i \<le> ?h" "?h < j" using True by auto
    show ?thesis
    proof (cases "f ?h")
      case False
      then have "\<forall>k < ?h + 1. \<not> f k"
        using mono [of _ ?h] h(2) less.prems(2) by (auto simp: less_Suc_eq_le)
      with less.hyps [of j "?h + 1"] less.prems h False show ?thesis
        by (simp add: sort_Search_loop.simps [of f i j] Let_def True)
    next
      case True
      then have "\<forall>k. ?h \<le> k \<and> k < n \<longrightarrow> f k" using mono by blast
      with less.hyps [of ?h i] less.prems h True \<open>i < j\<close> show ?thesis
        by (simp add: sort_Search_loop.simps [of f i j] Let_def)
    qed
  qed
qed

text \<open>\<open>sort.Search\<close> finds the least index that satisfies a monotone predicate.\<close>

lemma sort_Search_least:
  assumes "\<And>a b. a \<le> b \<Longrightarrow> b < n \<Longrightarrow> f a \<Longrightarrow> f b"
  shows "sort_Search n f \<le> n \<and> (\<forall>k < sort_Search n f. \<not> f k) \<and> (\<forall>k. sort_Search n f \<le> k \<and> k < n \<longrightarrow> f k)"
  unfolding sort_Search_def by (rule sort_Search_loop_least [OF assms]) auto

section \<open>The ring\<close>

type_synonym hash_fn = "string \<Rightarrow> 32 word"

datatype consistent_error = ErrEmptyRing | ErrInvalidReplicas

record ring =
  ring_hash :: hash_fn
  ring_replicas :: int
  virtualNodes :: "(32 word \<times> string) list"
  sortedHashes :: "32 word list"
  ring_nodes :: "string list"

definition defaultReplicas :: int where
  "defaultReplicas = 50"

type_synonym ring_Option = "ring \<Rightarrow> ring"

definition ring_WithHash :: "hash_fn option \<Rightarrow> ring_Option" where
  "ring_WithHash fn r = (case fn of Some h \<Rightarrow> r\<lparr>ring_hash := h\<rparr> | None \<Rightarrow> r)"

definition ring_WithReplicas :: "int \<Rightarrow> ring_Option" where
  "ring_WithReplicas n r = r\<lparr>ring_replicas := n\<rparr>"

text \<open>\<open>New\<close> panics on a replica count that is not positive.\<close>

definition ring_New :: "ring_Option list \<Rightarrow> consistent_error + ring" where
  "ring_New opts =
     (let r = fold (\<lambda>opt. opt) opts
            \<lparr>ring_hash = ChecksumIEEE, ring_replicas = defaultReplicas, virtualNodes = [],
             sortedHashes = [], ring_nodes = []\<rparr>
      in if ring_replicas r \<le> 0 then Inl ErrInvalidReplicas else Inr r)"

fun itoa_digits :: "nat \<Rightarrow> string" where
  "itoa_digits n = (if n = 0 then [] else itoa_digits (n div 10) @ [char_of (48 + n mod 10)])"

declare itoa_digits.simps [simp del]

definition itoa :: "nat \<Rightarrow> string" where
  "itoa n = (if n = 0 then ''0'' else itoa_digits n)"

definition virtualNodeKey :: "string \<Rightarrow> nat \<Rightarrow> string" where
  "virtualNodeKey node idx = node @ ''#'' @ itoa idx"

definition vhash :: "ring \<Rightarrow> string \<Rightarrow> nat \<Rightarrow> 32 word" where
  "vhash r node i = ring_hash r (virtualNodeKey node i)"

definition updateSortedHashes :: "ring \<Rightarrow> ring" where
  "updateSortedHashes r = r\<lparr>sortedHashes := sort (map fst (virtualNodes r))\<rparr>"

definition ring_add_node :: "string \<Rightarrow> ring \<Rightarrow> ring" where
  "ring_add_node node r =
     (if node = [] \<or> node \<in> set (ring_nodes r) then r
      else r\<lparr>ring_nodes := node # ring_nodes r,
             virtualNodes := fold (\<lambda>i. AList.update (vhash r node i) node)
                               [0..<nat (ring_replicas r)] (virtualNodes r)\<rparr>)"

definition ring_Add :: "string list \<Rightarrow> ring \<Rightarrow> ring" where
  "ring_Add nodes r = updateSortedHashes (fold ring_add_node nodes r)"

definition ring_remove_node :: "string \<Rightarrow> ring \<Rightarrow> ring" where
  "ring_remove_node node r =
     (if node \<notin> set (ring_nodes r) then r
      else r\<lparr>ring_nodes := remove1 node (ring_nodes r),
             virtualNodes := fold (\<lambda>i vs. let h = vhash r node i in
                                 if map_of vs h = Some node then AList.delete h vs else vs)
                               [0..<nat (ring_replicas r)] (virtualNodes r)\<rparr>)"

definition ring_Remove :: "string list \<Rightarrow> ring \<Rightarrow> ring" where
  "ring_Remove nodes r = updateSortedHashes (fold ring_remove_node nodes r)"

definition ring_search :: "32 word \<Rightarrow> ring \<Rightarrow> nat" where
  "ring_search h r =
     (let idx = sort_Search (length (sortedHashes r)) (\<lambda>i. sortedHashes r ! i \<ge> h)
      in if idx \<ge> length (sortedHashes r) then 0 else idx)"

text \<open>A lookup in the map of virtual nodes; a missing hash is the zero value.\<close>

definition vnode :: "ring \<Rightarrow> 32 word \<Rightarrow> string" where
  "vnode r h = (case map_of (virtualNodes r) h of Some n \<Rightarrow> n | None \<Rightarrow> [])"

definition ring_Get :: "string \<Rightarrow> ring \<Rightarrow> string \<times> bool" where
  "ring_Get key r =
     (if sortedHashes r = [] then ([], False)
      else (vnode r (sortedHashes r ! ring_search (ring_hash r key) r), True))"

fun GetN_loop :: "ring \<Rightarrow> int \<Rightarrow> nat \<Rightarrow> nat list \<Rightarrow> string list \<Rightarrow> string list" where
  "GetN_loop r n idx [] res = res"
| "GetN_loop r n idx (i # is) res =
     (if int (length res) < n
      then (let node = vnode r (sortedHashes r ! ((idx + i) mod length (sortedHashes r)))
            in GetN_loop r n idx is (if node \<in> set res then res else res @ [node]))
      else res)"

definition ring_GetN :: "string \<Rightarrow> int \<Rightarrow> ring \<Rightarrow> consistent_error + string list" where
  "ring_GetN key n r =
     (if n \<le> 0 then Inr []
      else if sortedHashes r = [] then Inl ErrEmptyRing
      else Inr (GetN_loop r n (ring_search (ring_hash r key) r) [0..<length (sortedHashes r)] []))"

definition ring_Nodes :: "ring \<Rightarrow> string list" where
  "ring_Nodes r = sort (ring_nodes r)"

definition ring_Size :: "ring \<Rightarrow> nat" where
  "ring_Size r = length (ring_nodes r)"

definition ring_Contains :: "string \<Rightarrow> ring \<Rightarrow> bool" where
  "ring_Contains node r \<longleftrightarrow> node \<in> set (ring_nodes r)"

definition ring_Distribution :: "ring \<Rightarrow> string \<Rightarrow> nat" where
  "ring_Distribution r node = length (filter (\<lambda>n. n = node) (map snd (virtualNodes r)))"

definition ring_Snapshot :: "ring \<Rightarrow> ring" where
  "ring_Snapshot r =
     \<lparr>ring_hash = ring_hash r, ring_replicas = ring_replicas r, virtualNodes = virtualNodes r,
      sortedHashes = sortedHashes r, ring_nodes = ring_nodes r\<rparr>"

section \<open>The clockwise successor\<close>

definition clockwise :: "32 word \<Rightarrow> 32 word set \<Rightarrow> 32 word" where
  "clockwise h S = (if \<exists>x \<in> S. h \<le> x then Min {x \<in> S. h \<le> x} else Min S)"

lemma clockwise_in: "finite S \<Longrightarrow> S \<noteq> {} \<Longrightarrow> clockwise h S \<in> S"
  using Min_in [of "{x \<in> S. h \<le> x}"] by (auto simp: clockwise_def)

text \<open>A point that survives in a smaller set is still the successor there.\<close>

lemma clockwise_subset:
  assumes "finite T" "S \<subseteq> T" "clockwise h T \<in> S"
  shows "clockwise h S = clockwise h T"
proof (cases "\<exists>x \<in> T. h \<le> x")
  case True
  then have c: "clockwise h T = Min {x \<in> T. h \<le> x}" by (simp add: clockwise_def)
  have "Min {x \<in> T. h \<le> x} \<in> {x \<in> T. h \<le> x}" using True assms(1) by (intro Min_in) auto
  then have "h \<le> clockwise h T" by (simp add: c)
  moreover have "Min {x \<in> S. h \<le> x} = clockwise h T"
    using assms calculation by (intro Min_eqI) (auto simp: c finite_subset)
  ultimately show ?thesis using assms(3) by (auto simp: clockwise_def)
next
  case False
  then have "clockwise h T = Min T" by (simp add: clockwise_def)
  moreover have "Min S = Min T"
    using assms calculation by (intro Min_eqI) (auto simp: finite_subset)
  ultimately show ?thesis using False assms(2) by (auto simp: clockwise_def)
qed

text \<open>The owner of a point, over the map of virtual nodes.\<close>

definition owner :: "(32 word \<rightharpoonup> string) \<Rightarrow> 32 word \<Rightarrow> string option" where
  "owner m h = (if dom m = {} then None else m (clockwise h (dom m)))"

lemma owner_ran: "finite (dom m) \<Longrightarrow> owner m h = Some n \<Longrightarrow> n \<in> ran m"
  by (auto simp: owner_def ran_def split: if_splits)

lemma owner_None: "finite (dom m) \<Longrightarrow> owner m h = None \<longleftrightarrow> m = Map.empty"
  using clockwise_in [of "dom m" h] by (auto simp: owner_def)

text \<open>Points given to new nodes take keys over from old nodes, and nothing else moves.\<close>

lemma owner_extend:
  assumes fin: "finite (dom m')" and ext: "\<And>x. m' x = m x \<or> m' x \<in> Some ` N" and ne: "m \<noteq> Map.empty"
  shows "owner m' h = owner m h \<or> owner m' h \<in> Some ` N"
proof -
  have sub: "dom m \<subseteq> dom m'"
  proof
    fix x assume "x \<in> dom m" then show "x \<in> dom m'" using ext [of x] by auto
  qed
  have ne': "dom m \<noteq> {}" "dom m' \<noteq> {}" using ne sub by auto
  let ?c = "clockwise h (dom m')"
  show ?thesis
  proof (cases "m' ?c \<in> Some ` N")
    case True
    then show ?thesis using ne' by (simp add: owner_def)
  next
    case False
    then have eq: "m' ?c = m ?c" using ext by blast
    have "?c \<in> dom m'" using clockwise_in fin ne' by blast
    then have "?c \<in> dom m" using eq by (simp add: domIff)
    then show ?thesis using clockwise_subset [OF fin sub] eq ne' by (simp add: owner_def)
  qed
qed

lemma owner_restrict:
  assumes fin: "finite (dom m)" and res: "\<And>x. m' x = m x \<or> m' x = None \<and> m x \<in> Some ` N"
    and own: "owner m h \<notin> Some ` N"
  shows "owner m' h = owner m h"
proof (cases "dom m = {}")
  case True
  then have "m' x = None" for x using res [of x] by auto
  then show ?thesis using True by (auto simp: owner_def)
next
  case False
  have sub: "dom m' \<subseteq> dom m"
  proof
    fix x assume "x \<in> dom m'" then show "x \<in> dom m" using res [of x] by auto
  qed
  let ?c = "clockwise h (dom m)"
  have "m ?c \<notin> Some ` N" using own False by (simp add: owner_def)
  then have eq: "m' ?c = m ?c" using res by blast
  have "?c \<in> dom m" using clockwise_in fin False by blast
  then have "?c \<in> dom m'" using eq by (simp add: domIff)
  then show ?thesis using clockwise_subset [OF fin sub] eq False by (auto simp: owner_def)
qed

section \<open>The invariant\<close>

text \<open>The rebuild at the end of every update keeps the sorted hashes in step with the map.\<close>

definition vmap :: "ring \<Rightarrow> 32 word \<rightharpoonup> string" where
  "vmap r = map_of (virtualNodes r)"

definition vhashes :: "ring \<Rightarrow> string \<Rightarrow> 32 word set" where
  "vhashes r n = vhash r n ` {0..<nat (ring_replicas r)}"

definition ring_wf :: "ring \<Rightarrow> bool" where
  "ring_wf r \<longleftrightarrow> distinct (ring_nodes r) \<and> [] \<notin> set (ring_nodes r) \<and>
     distinct (map fst (virtualNodes r)) \<and>
     (\<forall>h n. vmap r h = Some n \<longrightarrow> n \<in> set (ring_nodes r) \<and> h \<in> vhashes r n)"

definition ring_inv :: "ring \<Rightarrow> bool" where
  "ring_inv r \<longleftrightarrow> ring_wf r \<and> sortedHashes r = sort (map fst (virtualNodes r))"

lemma finite_vmap [simp]: "finite (dom (vmap r))"
  by (simp add: vmap_def finite_dom_map_of)

lemma set_sortedHashes: "ring_inv r \<Longrightarrow> set (sortedHashes r) = dom (vmap r)"
  by (simp add: ring_inv_def vmap_def dom_map_of_conv_image_fst)

lemma sorted_distinct_sortedHashes: "ring_inv r \<Longrightarrow> sorted (sortedHashes r) \<and> distinct (sortedHashes r)"
  by (simp add: ring_inv_def ring_wf_def)

lemma ring_search_clockwise:
  assumes inv: "ring_inv r" and ne: "sortedHashes r \<noteq> []"
  shows "ring_search h r < length (sortedHashes r) \<and>
    sortedHashes r ! ring_search h r = clockwise h (dom (vmap r))"
proof -
  let ?xs = "sortedHashes r"
  let ?i = "sort_Search (length ?xs) (\<lambda>i. ?xs ! i \<ge> h)"
  have mono: "?xs ! b \<ge> h" if "a \<le> b" "b < length ?xs" "?xs ! a \<ge> h" for a b
    using sorted_nth_mono [of ?xs a b] sorted_distinct_sortedHashes [OF inv] that by (blast intro: order_trans)
  from sort_Search_least [of "length ?xs" "\<lambda>i. ?xs ! i \<ge> h"] mono
  have least: "\<forall>k < ?i. \<not> h \<le> ?xs ! k" "\<forall>k. ?i \<le> k \<and> k < length ?xs \<longrightarrow> h \<le> ?xs ! k" by blast+
  have sorted: "?xs ! a \<le> ?xs ! b" if "a \<le> b" "b < length ?xs" for a b
    using sorted_nth_mono sorted_distinct_sortedHashes [OF inv] that by blast
  show ?thesis
  proof (cases "?i < length ?xs")
    case True
    have "Min {x \<in> set ?xs. h \<le> x} = ?xs ! ?i"
    proof (rule Min_eqI)
      fix x assume "x \<in> {x \<in> set ?xs. h \<le> x}"
      then obtain k where k: "k < length ?xs" "x = ?xs ! k" "h \<le> x" by (auto simp: in_set_conv_nth)
      with least(1) have "?i \<le> k" by (meson not_le_imp_less)
      then show "?xs ! ?i \<le> x" using sorted k by simp
    qed (use True least(2) in auto)
    moreover have "\<exists>x \<in> set ?xs. h \<le> x" using True least(2) by (auto intro!: bexI [of _ "?xs ! ?i"])
    ultimately show ?thesis
      using True by (simp add: ring_search_def clockwise_def Let_def flip: set_sortedHashes [OF inv])
  next
    case False
    have no: "\<not> (\<exists>x \<in> set ?xs. h \<le> x)" using least(1) False by (auto simp: in_set_conv_nth)
    have "Min (set ?xs) = ?xs ! 0"
    proof (rule Min_eqI)
      fix x assume "x \<in> set ?xs"
      then obtain k where "k < length ?xs" "x = ?xs ! k" by (auto simp: in_set_conv_nth)
      then show "?xs ! 0 \<le> x" using sorted by simp
    qed (use ne in auto)
    then show ?thesis
      using False no ne by (simp add: ring_search_def clockwise_def Let_def flip: set_sortedHashes [OF inv])
  qed
qed

lemma ring_Get_owner:
  assumes inv: "ring_inv r"
  shows "ring_Get key r = (case owner (vmap r) (ring_hash r key) of None \<Rightarrow> ([], False) | Some n \<Rightarrow> (n, True))"
proof (cases "sortedHashes r = []")
  case True
  then have "dom (vmap r) = {}" using set_sortedHashes [OF inv] by simp
  then show ?thesis using True by (simp add: ring_Get_def owner_def)
next
  case False
  then have ne: "dom (vmap r) \<noteq> {}" using set_sortedHashes [OF inv] by auto
  have "clockwise (ring_hash r key) (dom (vmap r)) \<in> dom (vmap r)" using ne by (intro clockwise_in) auto
  then show ?thesis
    using ring_search_clockwise [OF inv False] ne False
    by (auto simp: ring_Get_def owner_def vnode_def vmap_def)
qed


lemma map_of_fold_update:
  "map_of (fold (\<lambda>i. AList.update (g i) n) is vs) h = (if h \<in> g ` set is then Some n else map_of vs h)"
  by (induction "is" arbitrary: vs) (auto simp: update_conv')

lemma distinct_fold_update:
  "distinct (map fst vs) \<Longrightarrow> distinct (map fst (fold (\<lambda>i. AList.update (g i) n) is vs))"
  by (induction "is" arbitrary: vs) (auto simp: distinct_update)

lemma map_of_fold_delete:
  "map_of (fold (\<lambda>i vs. let h = g i in if map_of vs h = Some n then AList.delete h vs else vs) is vs) h =
     (if h \<in> g ` set is \<and> map_of vs h = Some n then None else map_of vs h)"
  by (induction "is" arbitrary: vs) (auto simp: Let_def delete_conv')

lemma distinct_fold_delete:
  "distinct (map fst vs) \<Longrightarrow>
     distinct (map fst (fold (\<lambda>i vs. let h = g i in if map_of vs h = Some n then AList.delete h vs else vs) is vs))"
  by (induction "is" arbitrary: vs) (auto simp: Let_def distinct_delete)

lemma add_node_frame [frame_simps]:
  "ring_hash (ring_add_node n r) = ring_hash r" "ring_replicas (ring_add_node n r) = ring_replicas r"
  "sortedHashes (ring_add_node n r) = sortedHashes r"
  by (simp_all add: ring_add_node_def)

lemma remove_node_frame [frame_simps]:
  "ring_hash (ring_remove_node n r) = ring_hash r" "ring_replicas (ring_remove_node n r) = ring_replicas r"
  "sortedHashes (ring_remove_node n r) = sortedHashes r"
  by (simp_all add: ring_remove_node_def)

lemma vhashes_frame [frame_simps]:
  "vhashes (ring_add_node n r) = vhashes r" "vhashes (ring_remove_node n r) = vhashes r"
  "vhashes (updateSortedHashes r) = vhashes r"
  by (auto simp: vhashes_def vhash_def frame_simps updateSortedHashes_def fun_eq_iff)

lemma vmap_add_node:
  "vmap (ring_add_node n r) h =
     (if n \<noteq> [] \<and> n \<notin> set (ring_nodes r) \<and> h \<in> vhashes r n then Some n else vmap r h)"
  by (auto simp: vmap_def ring_add_node_def map_of_fold_update vhashes_def)

lemma vmap_remove_node:
  "ring_wf r \<Longrightarrow> vmap (ring_remove_node n r) h = (if vmap r h = Some n then None else vmap r h)"
  by (auto simp: vmap_def ring_remove_node_def map_of_fold_delete vhashes_def ring_wf_def)

lemma add_node_wf:
  assumes "ring_wf r"
  shows "ring_wf (ring_add_node n r)"
proof (cases "n = [] \<or> n \<in> set (ring_nodes r)")
  case True
  then show ?thesis using assms by (auto simp: ring_add_node_def)
next
  case False
  then have nodes: "ring_nodes (ring_add_node n r) = n # ring_nodes r"
    by (simp add: ring_add_node_def)
  have "distinct (map fst (virtualNodes (ring_add_node n r)))"
    using assms False by (simp add: ring_add_node_def ring_wf_def distinct_fold_update)
  then show ?thesis
    using assms False by (auto simp: ring_wf_def nodes vmap_add_node frame_simps split: if_splits)
qed

lemma remove_node_wf:
  assumes "ring_wf r"
  shows "ring_wf (ring_remove_node n r)"
proof -
  have "distinct (map fst (virtualNodes (ring_remove_node n r)))"
    using assms by (simp add: ring_remove_node_def ring_wf_def distinct_fold_delete)
  moreover have "set (ring_nodes (ring_remove_node n r)) = set (ring_nodes r) - {n}"
    using assms by (auto simp: ring_remove_node_def ring_wf_def)
  moreover have "distinct (ring_nodes (ring_remove_node n r))"
    using assms by (auto simp: ring_remove_node_def ring_wf_def)
  ultimately show ?thesis
    using assms by (auto simp: vmap_remove_node [OF assms] frame_simps ring_wf_def split: if_splits)
qed

lemma updateSortedHashes_inv: "ring_wf r \<Longrightarrow> ring_inv (updateSortedHashes r)"
  by (simp add: ring_inv_def ring_wf_def updateSortedHashes_def vmap_def vhashes_def vhash_def)

lemma updateSortedHashes_frame [frame_simps]:
  "vmap (updateSortedHashes r) = vmap r" "ring_nodes (updateSortedHashes r) = ring_nodes r"
  "ring_hash (updateSortedHashes r) = ring_hash r" "ring_replicas (updateSortedHashes r) = ring_replicas r"
  by (simp_all add: vmap_def updateSortedHashes_def)

lemma fold_nodes_wf:
  "ring_wf r \<Longrightarrow> ring_wf (fold ring_add_node ns r)"
  "ring_wf r \<Longrightarrow> ring_wf (fold ring_remove_node ns r)"
  by (induction ns arbitrary: r) (simp_all add: add_node_wf remove_node_wf)

lemma fold_nodes_frame [frame_simps]:
  "ring_hash (fold ring_add_node ns r) = ring_hash r"
  "ring_hash (fold ring_remove_node ns r) = ring_hash r"
  "ring_replicas (fold ring_add_node ns r) = ring_replicas r"
  "ring_replicas (fold ring_remove_node ns r) = ring_replicas r"
  by (induction ns arbitrary: r) (simp_all add: frame_simps)

lemma ring_Add_inv [inv_intros]: "ring_inv r \<Longrightarrow> ring_inv (ring_Add ns r)"
  by (simp add: ring_Add_def updateSortedHashes_inv fold_nodes_wf ring_inv_def [of r])

lemma ring_Remove_inv [inv_intros]: "ring_inv r \<Longrightarrow> ring_inv (ring_Remove ns r)"
  by (simp add: ring_Remove_def updateSortedHashes_inv fold_nodes_wf ring_inv_def [of r])

lemma ring_hash_frame [frame_simps]:
  "ring_hash (ring_Add ns r) = ring_hash r" "ring_hash (ring_Remove ns r) = ring_hash r"
  "ring_replicas (ring_Add ns r) = ring_replicas r" "ring_replicas (ring_Remove ns r) = ring_replicas r"
  by (simp_all add: ring_Add_def ring_Remove_def frame_simps)

lemma ring_New_inv: "ring_New opts = Inr r \<Longrightarrow> virtualNodes r = [] \<Longrightarrow> sortedHashes r = [] \<Longrightarrow> ring_nodes r = [] \<Longrightarrow> ring_inv r"
  by (simp add: ring_inv_def ring_wf_def vmap_def)

text \<open>What an update does to the nodes and to the map.\<close>

lemma nodes_add: "set (ring_nodes (fold ring_add_node ns r)) = set (ring_nodes r) \<union> (set ns - {[]})"
  by (induction ns arbitrary: r) (auto simp: ring_add_node_def)

lemma nodes_remove:
  "distinct (ring_nodes r) \<Longrightarrow> set (ring_nodes (fold ring_remove_node ns r)) = set (ring_nodes r) - set ns"
proof (induction ns arbitrary: r)
  case (Cons n ns)
  have "set (ring_nodes (ring_remove_node n r)) = set (ring_nodes r) - {n} \<and>
      distinct (ring_nodes (ring_remove_node n r))"
    using Cons.prems by (auto simp: ring_remove_node_def)
  with Cons.IH show ?case by auto
qed simp

lemma vmap_fold_add:
  "vmap (fold ring_add_node ns r) h = vmap r h \<or>
     vmap (fold ring_add_node ns r) h \<in> Some ` (set ns - {[]} - set (ring_nodes r))"
proof (induction ns arbitrary: r)
  case (Cons n ns)
  have "vmap (ring_add_node n r) h = vmap r h \<or> vmap (ring_add_node n r) h = Some n \<and> n \<noteq> [] \<and> n \<notin> set (ring_nodes r)"
    by (simp add: vmap_add_node)
  moreover have "set (ring_nodes r) \<subseteq> set (ring_nodes (ring_add_node n r))"
    by (auto simp: ring_add_node_def)
  ultimately show ?case using Cons.IH [of "ring_add_node n r"] by auto
qed simp

lemma vmap_fold_remove:
  assumes "ring_wf r"
  shows "vmap (fold ring_remove_node ns r) h = (if vmap r h \<in> Some ` set ns then None else vmap r h)"
  using assms
proof (induction ns arbitrary: r)
  case (Cons n ns)
  then show ?case
    by (auto simp: Cons.IH [OF remove_node_wf [OF Cons.prems]] vmap_remove_node [OF Cons.prems])
qed simp

section \<open>Runs\<close>

datatype ring_op = RAdd "string list" | RRemove "string list"

fun ring_apply :: "ring_op \<Rightarrow> ring \<Rightarrow> ring" where
  "ring_apply (RAdd ns) r = ring_Add ns r"
| "ring_apply (RRemove ns) r = ring_Remove ns r"

definition ring_run :: "hash_fn option \<Rightarrow> int \<Rightarrow> ring_op list \<Rightarrow> consistent_error + ring" where
  "ring_run h n ops =
     res_bind (ring_New [ring_WithHash h, ring_WithReplicas n]) (\<lambda>r. Inr (fold ring_apply ops r))"

text \<open>The nodes a run leaves.\<close>

fun nodes_apply :: "ring_op \<Rightarrow> string set \<Rightarrow> string set" where
  "nodes_apply (RAdd ns) N = N \<union> (set ns - {[]})"
| "nodes_apply (RRemove ns) N = N - set ns"

lemma ring_New_opts:
  "ring_New [ring_WithHash h, ring_WithReplicas n] =
     (if n \<le> 0 then Inl ErrInvalidReplicas
      else Inr \<lparr>ring_hash = (case h of Some f \<Rightarrow> f | None \<Rightarrow> ChecksumIEEE), ring_replicas = n,
                virtualNodes = [], sortedHashes = [], ring_nodes = []\<rparr>)"
  by (simp add: ring_New_def ring_WithHash_def ring_WithReplicas_def Let_def split: option.split)

lemma ring_apply_inv: "ring_inv r \<Longrightarrow> ring_inv (ring_apply p r)"
  by (cases p) (simp_all add: inv_intros)

lemma ring_apply_nodes: "ring_inv r \<Longrightarrow> set (ring_nodes (ring_apply p r)) = nodes_apply p (set (ring_nodes r))"
  by (cases p) (simp_all add: ring_Add_def ring_Remove_def frame_simps nodes_add nodes_remove ring_inv_def ring_wf_def)

lemma fold_ring_apply:
  "ring_inv r \<Longrightarrow> ring_inv (fold ring_apply ops r) \<and>
     set (ring_nodes (fold ring_apply ops r)) = fold nodes_apply ops (set (ring_nodes r)) \<and>
     ring_hash (fold ring_apply ops r) = ring_hash r \<and> ring_replicas (fold ring_apply ops r) = ring_replicas r"
proof (induction ops arbitrary: r)
  case (Cons p ops)
  have "ring_hash (ring_apply p r) = ring_hash r" "ring_replicas (ring_apply p r) = ring_replicas r"
    by (cases p; simp add: frame_simps)+
  with Cons.IH [OF ring_apply_inv [OF Cons.prems]] ring_apply_nodes [OF Cons.prems] show ?case by simp
qed simp

lemma ring_run_inv:
  assumes "ring_run h n ops = Inr r"
  shows "ring_inv r \<and> set (ring_nodes r) = fold nodes_apply ops {} \<and> ring_replicas r = n \<and> n > 0"
proof -
  from assms obtain z where z: "ring_New [ring_WithHash h, ring_WithReplicas n] = Inr z" "r = fold ring_apply ops z"
    by (auto simp: ring_run_def res_bind_eq_Inr)
  then have zz: "ring_inv z" "ring_nodes z = []" "ring_replicas z = n" "n > 0"
    by (auto simp: ring_New_opts ring_inv_def ring_wf_def vmap_def split: if_splits)
  from fold_ring_apply [OF zz(1), of ops] zz show ?thesis by (simp add: z(2))
qed

lemma ring_run_ok: "n > 0 \<Longrightarrow> \<exists>r. ring_run h n ops = Inr r"
  by (simp add: ring_run_def ring_New_opts)

section \<open>GetN\<close>

text \<open>The first occurrences of a list, in order.\<close>

definition firsts :: "'a list \<Rightarrow> 'a list" where
  "firsts xs = rev (remdups (rev xs))"

lemma firsts_Nil [simp]: "firsts [] = []"
  by (simp add: firsts_def)

lemma firsts_snoc: "firsts (xs @ [x]) = (if x \<in> set xs then firsts xs else firsts xs @ [x])"
  by (simp add: firsts_def)

lemma set_firsts [simp]: "set (firsts xs) = set xs"
  by (simp add: firsts_def)

lemma distinct_firsts [simp]: "distinct (firsts xs)"
  by (simp add: firsts_def)

lemma length_firsts: "length (firsts xs) = card (set xs)"
  by (simp add: firsts_def length_remdups_card_conv)

lemma firsts_extend: "\<exists>zs. firsts (xs @ ys) = firsts xs @ zs"
proof (induction ys rule: rev_induct)
  case (snoc y ys)
  have "firsts (xs @ ys @ [y]) = (if y \<in> set (xs @ ys) then firsts (xs @ ys) else firsts (xs @ ys) @ [y])"
    using firsts_snoc [of "xs @ ys" y] by simp
  with snoc.IH show ?case by auto
qed simp

lemma hd_firsts: "xs \<noteq> [] \<Longrightarrow> hd (firsts xs) = hd xs"
proof -
  assume "xs \<noteq> []"
  then obtain x ys where xs: "xs = x # ys" by (cases xs) auto
  obtain zs where "firsts ([x] @ ys) = firsts [x] @ zs" using firsts_extend by blast
  then show ?thesis by (simp add: xs firsts_def)
qed

lemma GetN_loop_firsts:
  assumes "int (length (firsts xs)) \<le> n"
  shows "GetN_loop r n idx is (firsts xs) =
    take (nat n) (firsts (xs @ map (\<lambda>i. vnode r (sortedHashes r ! ((idx + i) mod length (sortedHashes r)))) is))"
  using assms
proof (induction "is" arbitrary: xs)
  case (Cons i "is")
  let ?node = "vnode r (sortedHashes r ! ((idx + i) mod length (sortedHashes r)))"
  show ?case
  proof (cases "int (length (firsts xs)) < n")
    case True
    have "(if ?node \<in> set (firsts xs) then firsts xs else firsts xs @ [?node]) = firsts (xs @ [?node])"
      by (simp add: firsts_snoc)
    moreover have "int (length (firsts (xs @ [?node]))) \<le> n" using True by (simp add: firsts_snoc)
    ultimately show ?thesis using Cons.IH [of "xs @ [?node]"] True by (simp add: Let_def)
  next
    case False
    then have "n = int (length (firsts xs))" using Cons.prems by simp
    moreover obtain zs where
      "firsts (xs @ map (\<lambda>i. vnode r (sortedHashes r ! ((idx + i) mod length (sortedHashes r)))) (i # is)) =
         firsts xs @ zs" using firsts_extend by blast
    ultimately show ?thesis by simp
  qed
qed simp

text \<open>The points of the ring in clockwise order from \<open>h\<close>.\<close>

definition clockwise_points :: "32 word \<Rightarrow> 32 word set \<Rightarrow> 32 word list" where
  "clockwise_points h S = (let xs = sorted_list_of_set S in filter (\<lambda>x. h \<le> x) xs @ filter (\<lambda>x. x < h) xs)"

lemma map_nth_rotate: "idx \<le> length xs \<Longrightarrow> map (\<lambda>i. xs ! ((idx + i) mod length xs)) [0..<length xs] = drop idx xs @ take idx xs"
proof (rule nth_equalityI)
  fix i assume le: "idx \<le> length xs" and "i < length (map (\<lambda>i. xs ! ((idx + i) mod length xs)) [0..<length xs])"
  then have i: "i < length xs" by simp
  show "map (\<lambda>i. xs ! ((idx + i) mod length xs)) [0..<length xs] ! i = (drop idx xs @ take idx xs) ! i"
  proof (cases "idx + i < length xs")
    case False
    then have "(idx + i) mod length xs = i - (length xs - idx)" using i le by (simp add: le_mod_geq)
    moreover have "\<not> i < length xs - idx" using False by simp
    ultimately show ?thesis using i le by (simp add: nth_append)
  qed (use i le in \<open>simp add: nth_append less_diff_conv add.commute\<close>)
qed simp

lemma sorted_filter_split:
  fixes h :: "'a::linorder"
  assumes "sorted xs" "\<forall>k < i. \<not> h \<le> xs ! k" "\<forall>k. i \<le> k \<and> k < length xs \<longrightarrow> h \<le> xs ! k" "i \<le> length xs"
  shows "filter (\<lambda>x. h \<le> x) xs = drop i xs \<and> filter (\<lambda>x. x < h) xs = take i xs"
proof -
  have "filter P xs = filter P (take i xs) @ filter P (drop i xs)" for P
    by (metis append_take_drop_id filter_append)
  moreover have "\<forall>x \<in> set (take i xs). x < h" using assms(2,4) by (auto simp: in_set_conv_nth not_le)
  moreover have "\<forall>x \<in> set (drop i xs). h \<le> x" using assms(3,4) by (auto simp: in_set_conv_nth)
  ultimately show ?thesis
    by (simp add: filter_empty_conv not_le not_less)
qed

lemma ring_points:
  assumes inv: "ring_inv r" and ne: "sortedHashes r \<noteq> []"
  shows "map (\<lambda>i. sortedHashes r ! ((ring_search h r + i) mod length (sortedHashes r))) [0..<length (sortedHashes r)] =
    clockwise_points h (dom (vmap r))"
proof -
  let ?xs = "sortedHashes r"
  let ?i = "sort_Search (length ?xs) (\<lambda>i. ?xs ! i \<ge> h)"
  have sd: "sorted ?xs" "distinct ?xs" using sorted_distinct_sortedHashes [OF inv] by blast+
  have xs: "sorted_list_of_set (dom (vmap r)) = ?xs"
    using sd by (simp add: sorted_list_of_set_sort_remdups distinct_remdups_id sorted_sort_id flip: set_sortedHashes [OF inv])
  have mono: "?xs ! b \<ge> h" if "a \<le> b" "b < length ?xs" "?xs ! a \<ge> h" for a b
    using sorted_nth_mono [of ?xs a b] sd that by (blast intro: order_trans)
  from sort_Search_least [of "length ?xs" "\<lambda>i. ?xs ! i \<ge> h"] mono
  have "?i \<le> length ?xs" "\<forall>k < ?i. \<not> h \<le> ?xs ! k" "\<forall>k. ?i \<le> k \<and> k < length ?xs \<longrightarrow> h \<le> ?xs ! k" by blast+
  from sorted_filter_split [OF sd(1) this(2,3,1)] 
  have "clockwise_points h (dom (vmap r)) = drop ?i ?xs @ take ?i ?xs"
    by (simp add: clockwise_points_def Let_def xs)
  also have "\<dots> = drop (ring_search h r) ?xs @ take (ring_search h r) ?xs"
    using \<open>?i \<le> length ?xs\<close> by (auto simp: ring_search_def Let_def)
  finally show ?thesis
    using ring_search_clockwise [OF inv ne, of h] by (simp add: map_nth_rotate)
qed

lemma set_clockwise_points: "finite S \<Longrightarrow> set (clockwise_points h S) = S"
  by (auto simp: clockwise_points_def Let_def)

lemma hd_clockwise_points:
  assumes inv: "ring_inv r" and ne: "sortedHashes r \<noteq> []"
  shows "clockwise_points h (dom (vmap r)) \<noteq> [] \<and> hd (clockwise_points h (dom (vmap r))) = clockwise h (dom (vmap r))"
  using ring_search_clockwise [OF inv ne, of h] ring_points [OF inv ne, of h, symmetric] ne
  by (simp add: hd_map)

lemma ring_GetN_points:
  assumes inv: "ring_inv r"
  shows "ring_GetN key n r =
    (if n \<le> 0 then Inr []
     else if dom (vmap r) = {} then Inl ErrEmptyRing
     else Inr (take (nat n) (firsts (map (vnode r) (clockwise_points (ring_hash r key) (dom (vmap r)))))))"
proof (cases "sortedHashes r = []")
  case True
  then show ?thesis using set_sortedHashes [OF inv] by (auto simp: ring_GetN_def)
next
  case False
  have "GetN_loop r n idx [0..<length (sortedHashes r)] [] =
      take (nat n) (firsts (map (vnode r) (map (\<lambda>i. sortedHashes r ! ((idx + i) mod length (sortedHashes r)))
        [0..<length (sortedHashes r)])))" if "n > 0" for idx
    using GetN_loop_firsts [of "[]" n r idx] that by (simp add: o_def)
  with False show ?thesis
    using set_sortedHashes [OF inv] by (auto simp: ring_GetN_def simp flip: ring_points [OF inv False])
qed


section \<open>Without collisions\<close>

text \<open>The virtual nodes of the names \<open>U\<close> have different hashes.\<close>

definition no_collisions :: "hash_fn \<Rightarrow> int \<Rightarrow> string set \<Rightarrow> bool" where
  "no_collisions h n U \<longleftrightarrow> inj_on (\<lambda>(s, i). h (virtualNodeKey s i)) (U \<times> {0..<nat n})"

text \<open>The keys that are hashed are different: a digit is not the separator.\<close>

lemma of_char_digit: "(of_char (char_of (48 + n mod 10 :: nat)) :: nat) = 48 + n mod 10"
proof -
  have "n mod 10 < 10" by simp
  then have "48 + n mod 10 < 256" by linarith
  then show ?thesis by simp
qed

lemma itoa_digits_char: "c \<in> set (itoa_digits n) \<Longrightarrow> c \<noteq> CHR ''#''"
proof (induction n rule: itoa_digits.induct)
  case (1 n)
  have "char_of (48 + n mod 10) \<noteq> CHR ''#''"
  proof
    assume "char_of (48 + n mod 10) = CHR ''#''"
    then have "48 + n mod 10 = (of_char CHR ''#'' :: nat)" by (metis of_char_digit)
    then show False by simp
  qed
  with 1 show ?case by (auto simp: itoa_digits.simps [of n] split: if_splits)
qed

definition atoi :: "string \<Rightarrow> nat" where
  "atoi s = foldl (\<lambda>a c. 10 * a + (of_char c - 48)) 0 s"

lemma atoi_itoa_digits: "atoi (itoa_digits n) = n"
proof (induction n rule: itoa_digits.induct)
  case (1 n)
  show ?case
  proof (cases "n = 0")
    case False
    with 1 show ?thesis by (simp add: itoa_digits.simps [of n] atoi_def of_char_digit del: of_char_of)
  qed (simp add: itoa_digits.simps atoi_def)
qed

lemma atoi_itoa: "atoi (itoa n) = n"
  by (auto simp: itoa_def atoi_itoa_digits) (simp add: atoi_def)

lemma itoa_char: "CHR ''#'' \<notin> set (itoa n)"
  using itoa_digits_char [of _ n] by (auto simp: itoa_def)

lemma split_last_separator:
  assumes "xs @ c # ys = xs' @ c # ys'" "c \<notin> set ys" "c \<notin> set ys'"
  shows "xs = xs' \<and> ys = ys'"
  using assms
proof (induction xs arbitrary: xs')
  case Nil
  then show ?case by (cases xs') auto
next
  case (Cons x xs)
  then show ?case by (cases xs') auto
qed

lemma virtualNodeKey_inject: "virtualNodeKey s i = virtualNodeKey t j \<longleftrightarrow> s = t \<and> i = j"
proof
  assume "virtualNodeKey s i = virtualNodeKey t j"
  then have "s = t \<and> itoa i = itoa j"
    by (auto simp: virtualNodeKey_def itoa_char dest: split_last_separator)
  then show "s = t \<and> i = j" using atoi_itoa by metis
qed simp

lemma no_collisions_vhashes:
  assumes "no_collisions (ring_hash r) (ring_replicas r) U" "s \<in> U" "t \<in> U" "s \<noteq> t"
  shows "vhashes r s \<inter> vhashes r t = {}"
  using assms by (auto simp: no_collisions_def vhashes_def vhash_def inj_on_def)

text \<open>Every node owns all of its points.\<close>

definition ring_full :: "ring \<Rightarrow> bool" where
  "ring_full r \<longleftrightarrow> (\<forall>n \<in> set (ring_nodes r). \<forall>h \<in> vhashes r n. vmap r h = Some n)"

lemma add_node_full:
  assumes "ring_wf r" "ring_full r" "no_collisions (ring_hash r) (ring_replicas r) U"
    "set (ring_nodes r) \<subseteq> U" "n \<in> U"
  shows "ring_full (ring_add_node n r)"
proof (cases "n = [] \<or> n \<in> set (ring_nodes r)")
  case True
  then show ?thesis using assms by (auto simp: ring_add_node_def)
next
  case False
  then have nodes: "ring_nodes (ring_add_node n r) = n # ring_nodes r"
    by (simp add: ring_add_node_def)
  have "h \<notin> vhashes r n" if "t \<in> set (ring_nodes r)" "h \<in> vhashes r t" for t h
    using no_collisions_vhashes [OF assms(3,5), of t] that assms(4) False by blast
  then show ?thesis
    unfolding ring_full_def nodes frame_simps
    using assms(2) False by (auto simp: ring_full_def vmap_add_node)
qed

lemma remove_node_full:
  assumes "ring_wf r" "ring_full r"
  shows "ring_full (ring_remove_node n r)"
proof -
  have "set (ring_nodes (ring_remove_node n r)) \<subseteq> set (ring_nodes r) - {n}"
    using assms(1) by (auto simp: ring_remove_node_def ring_wf_def)
  then show ?thesis
    using assms(2) by (auto simp: ring_full_def frame_simps vmap_remove_node [OF assms(1)])
qed

fun op_names :: "ring_op \<Rightarrow> string set" where
  "op_names (RAdd ns) = set ns"
| "op_names (RRemove ns) = {}"

lemma ring_full_update: "ring_full (updateSortedHashes r) = ring_full r"
  by (simp add: ring_full_def frame_simps)

lemma ring_apply_full:
  assumes "ring_inv r" "ring_full r" "no_collisions (ring_hash r) (ring_replicas r) U"
    "set (ring_nodes r) \<subseteq> U" "op_names p \<subseteq> U"
  shows "ring_full (ring_apply p r) \<and> set (ring_nodes (ring_apply p r)) \<subseteq> U"
proof (cases p)
  case (RAdd ns)
  have wf: "ring_wf r" using assms(1) by (simp add: ring_inv_def)
  have "ring_full (fold ring_add_node ns r) \<and> set (ring_nodes (fold ring_add_node ns r)) \<subseteq> U"
    if "set ns \<subseteq> U" for ns
    using that wf assms(2-4)
  proof (induction ns arbitrary: r)
    case (Cons n ns)
    have "ring_full (ring_add_node n r)" using Cons.prems by (intro add_node_full) auto
    moreover have "set (ring_nodes (ring_add_node n r)) \<subseteq> U"
      using Cons.prems by (auto simp: ring_add_node_def)
    ultimately show ?case using Cons by (simp add: add_node_wf frame_simps)
  qed simp
  then show ?thesis using RAdd assms(5) by (simp add: ring_Add_def ring_full_update frame_simps)
next
  case (RRemove ns)
  have "ring_wf r" using assms(1) by (simp add: ring_inv_def)
  then have "ring_full (fold ring_remove_node ns r) \<and> set (ring_nodes (fold ring_remove_node ns r)) \<subseteq> U" for ns
    using assms(2,4)
  proof (induction ns arbitrary: r)
    case (Cons n ns)
    have "set (ring_nodes (ring_remove_node n r)) \<subseteq> U"
      using Cons.prems(3) by (auto simp: ring_remove_node_def dest: notin_set_remove1)
    then show ?case using Cons by (simp add: remove_node_wf remove_node_full)
  qed simp
  then show ?thesis using RRemove by (simp add: ring_Remove_def ring_full_update frame_simps)
qed

lemma ring_run_full:
  assumes "ring_run h n ops = Inr r" "no_collisions (ring_hash r) n U" "\<Union> (op_names ` set ops) \<subseteq> U"
  shows "ring_full r \<and> set (ring_nodes r) \<subseteq> U"
proof -
  from assms(1) obtain z where z: "ring_New [ring_WithHash h, ring_WithReplicas n] = Inr z" "r = fold ring_apply ops z"
    by (auto simp: ring_run_def res_bind_eq_Inr)
  then have zz: "ring_inv z" "ring_full z" "ring_nodes z = []" "ring_replicas z = n"
    by (auto simp: ring_New_opts ring_inv_def ring_wf_def ring_full_def vmap_def split: if_splits)
  have nc: "no_collisions (ring_hash z) n U"
    using assms(2) fold_ring_apply [OF zz(1), of ops] by (simp add: z(2))
  have "ring_full (fold ring_apply ps x) \<and> set (ring_nodes (fold ring_apply ps x)) \<subseteq> U"
    if "ring_inv x" "ring_full x" "no_collisions (ring_hash x) (ring_replicas x) U"
      "set (ring_nodes x) \<subseteq> U" "\<Union> (op_names ` set ps) \<subseteq> U" for ps x
    using that
  proof (induction ps arbitrary: x)
    case (Cons p ps)
    have "ring_full (ring_apply p x) \<and> set (ring_nodes (ring_apply p x)) \<subseteq> U"
      using Cons.prems by (intro ring_apply_full) auto
    moreover have "ring_hash (ring_apply p x) = ring_hash x" "ring_replicas (ring_apply p x) = ring_replicas x"
      by (cases p; simp add: frame_simps)+
    ultimately show ?case using Cons by (simp add: ring_apply_inv)
  qed simp
  from this [OF zz(1,2), of ops] nc zz assms(3) show ?thesis by (simp add: z(2))
qed

lemma ring_Distribution_card:
  assumes "ring_wf r"
  shows "ring_Distribution r n = card {h. vmap r h = Some n}"
proof -
  have d: "distinct (map fst (virtualNodes r))" using assms by (simp add: ring_wf_def)
  then have "distinct (map fst (filter (\<lambda>p. snd p = n) (virtualNodes r)))" by (rule distinct_map_filter)
  then have "card (set (map fst (filter (\<lambda>p. snd p = n) (virtualNodes r)))) =
      length (filter (\<lambda>p. snd p = n) (virtualNodes r))"
    by (metis distinct_card length_map)
  moreover have "set (map fst (filter (\<lambda>p. snd p = n) (virtualNodes r))) = {h. vmap r h = Some n}"
    using d by (force simp: vmap_def)
  ultimately show ?thesis by (simp add: ring_Distribution_def filter_map o_def)
qed

lemma card_vhashes:
  assumes "no_collisions (ring_hash r) (ring_replicas r) U" "n \<in> U"
  shows "card (vhashes r n) = nat (ring_replicas r)"
proof -
  have "inj_on (vhash r n) {0..<nat (ring_replicas r)}"
    using assms by (auto simp: no_collisions_def vhash_def inj_on_def)
  then show ?thesis by (simp add: vhashes_def card_image)
qed


section \<open>Properties\<close>

text \<open>
  C21. On a ring built by any sequence of additions and removals, with any hash function,
  \<open>Get\<close> answers the node of the clockwise successor of the key's hash among the virtual nodes
  (the least hash that is not below it, else the least of all): the binary search over the
  sorted hashes finds it. The answer is false only if there are no virtual nodes, otherwise it
  is one of the nodes added and not removed since, which are what \<open>Contains\<close> and \<open>Size\<close> report.
\<close>

theorem ring_get_clockwise:
  assumes "ring_run h n ops = Inr r"
  shows "ring_Get key r =
      (if vmap r = Map.empty then ([], False)
       else (the (vmap r (clockwise (ring_hash r key) (dom (vmap r)))), True)) \<and>
    (snd (ring_Get key r) \<longrightarrow> ring_Contains (fst (ring_Get key r)) r) \<and>
    {x. ring_Contains x r} = fold nodes_apply ops {} \<and>
    ring_Size r = card (fold nodes_apply ops {}) \<and>
    ring_Nodes r = sorted_list_of_set (fold nodes_apply ops {})"
proof -
  have inv: "ring_inv r" and nodes: "set (ring_nodes r) = fold nodes_apply ops {}"
    using ring_run_inv [OF assms] by blast+
  have d: "distinct (ring_nodes r)" using inv by (simp add: ring_inv_def ring_wf_def)
  have "ring_Contains x r" if "owner (vmap r) p = Some x" for p x
    using owner_ran [OF finite_vmap that] inv
    by (auto simp: ring_Contains_def ring_inv_def ring_wf_def ran_def)
  moreover have "owner (vmap r) p = (if vmap r = Map.empty then None else Some (the (vmap r (clockwise p (dom (vmap r))))))" for p
    using owner_None [OF finite_vmap, of r p] by (auto simp: owner_def)
  ultimately show ?thesis
    unfolding nodes [symmetric] ring_Get_owner [OF inv] ring_Size_def ring_Nodes_def
    using d by (simp add: ring_Contains_def distinct_card sorted_list_of_set_sort_remdups distinct_remdups_id)
qed

text \<open>
  C19. A change of the topology moves only the keys it must, with any hash function and also when
  hashes collide: after \<open>Add\<close> a key has its old node or one of the nodes that were really new,
  and after \<open>Remove\<close> a key whose node stays has the same node as before.
\<close>

theorem ring_minimal_redistribution:
  assumes "ring_run h n ops = Inr r"
  shows "(snd (ring_Get key r) \<longrightarrow>
      ring_Get key (ring_Add ns r) = ring_Get key r \<or>
      (snd (ring_Get key (ring_Add ns r)) \<and> fst (ring_Get key (ring_Add ns r)) \<in> set ns \<and>
       \<not> ring_Contains (fst (ring_Get key (ring_Add ns r))) r)) \<and>
    (snd (ring_Get key r) \<and> fst (ring_Get key r) \<notin> set ns \<longrightarrow>
      ring_Get key (ring_Remove ns r) = ring_Get key r)"
proof -
  have inv: "ring_inv r" using ring_run_inv [OF assms] by blast
  then have wf: "ring_wf r" by (simp add: ring_inv_def)
  let ?p = "ring_hash r key"
  let ?N = "set ns - {[]} - set (ring_nodes r)"
  have in_Some: "Some y \<in> Some ` S \<longleftrightarrow> y \<in> S" for y :: string and S by auto
  have add: "owner (vmap (ring_Add ns r)) ?p = owner (vmap r) ?p \<or> owner (vmap (ring_Add ns r)) ?p \<in> Some ` ?N"
    if "vmap r \<noteq> Map.empty"
    by (rule owner_extend [OF finite_vmap _ that]) (simp only: ring_Add_def frame_simps vmap_fold_add)
  have remove: "owner (vmap (ring_Remove ns r)) ?p = owner (vmap r) ?p" if "owner (vmap r) ?p \<notin> Some ` set ns"
    by (rule owner_restrict [OF finite_vmap _ that])
      (simp add: ring_Remove_def frame_simps vmap_fold_remove [OF wf])
  show ?thesis
    unfolding ring_Get_owner [OF inv] ring_Get_owner [OF ring_Add_inv [OF inv]]
      ring_Get_owner [OF ring_Remove_inv [OF inv]] frame_simps
    using add impI [OF remove] owner_None [OF finite_vmap, of r ?p]
    by (auto simp: ring_Contains_def in_Some split: option.splits)
qed

text \<open>
  \<open>GetN\<close> returns the first \<open>n\<close> distinct nodes met when the ring is walked clockwise from the
  key: they are nodes of the ring without repetition, as many as asked for or as own a point,
  and the first of them is the node \<open>Get\<close> returns.
\<close>

lemma ring_getn_distinct:
  assumes "ring_run h m ops = Inr r" and "n > 0" and "snd (ring_Get key r)"
  shows "\<exists>ns. ring_GetN key n r = Inr ns \<and>
    ns = take (nat n) (firsts (map (vnode r) (clockwise_points (ring_hash r key) (dom (vmap r))))) \<and>
    distinct ns \<and> (\<forall>x \<in> set ns. ring_Contains x r) \<and>
    length ns = min (nat n) (card (ran (vmap r))) \<and> hd ns = fst (ring_Get key r)"
proof -
  have inv: "ring_inv r" using ring_run_inv [OF assms(1)] by blast
  let ?ps = "clockwise_points (ring_hash r key) (dom (vmap r))"
  let ?ns = "take (nat n) (firsts (map (vnode r) ?ps))"
  have ne: "sortedHashes r \<noteq> []" using assms(3) by (auto simp: ring_Get_def)
  then have dom: "dom (vmap r) \<noteq> {}" using set_sortedHashes [OF inv] by auto
  have "vnode r ` dom (vmap r) = ran (vmap r)"
    by (force simp: vnode_def vmap_def ran_def)
  then have set: "set (map (vnode r) ?ps) = ran (vmap r)" by (simp add: set_clockwise_points)
  have hd: "hd (map (vnode r) ?ps) = fst (ring_Get key r)"
    using hd_clockwise_points [OF inv ne, of "ring_hash r key"]
      ring_search_clockwise [OF inv ne, of "ring_hash r key"] ne
    by (simp add: ring_Get_def hd_map)
  have "hd ?ns = hd (firsts (map (vnode r) ?ps))" using assms(2) by (cases "firsts (map (vnode r) ?ps)") (auto simp: take_Cons')
  moreover have "set ?ns \<subseteq> ran (vmap r)" using set by (metis set_firsts set_take_subset)
  moreover have "ran (vmap r) \<subseteq> set (ring_nodes r)"
    using inv by (auto simp: ring_inv_def ring_wf_def ran_def)
  moreover have "hd (firsts (map (vnode r) ?ps)) = hd (map (vnode r) ?ps)"
    using hd_clockwise_points [OF inv ne, of "ring_hash r key"] by (intro hd_firsts) simp
  moreover have "length ?ns = min (nat n) (card (ran (vmap r)))"
    by (simp add: length_firsts set [unfolded set_map] min.commute)
  ultimately show ?thesis
    using dom assms(2) hd
    by (intro exI [of _ ?ns]) (auto simp: ring_GetN_points [OF inv] ring_Contains_def)
qed

text \<open>
  When no two virtual nodes of the names used have the same hash, every node of the ring owns
  exactly \<open>replicas\<close> points and no other name owns any, \<open>Get\<close> answers whenever the ring has a
  node, and removing a node just added gives every key its former node back.
\<close>

theorem ring_without_collisions:
  assumes "ring_run h n ops = Inr r" and "no_collisions (ring_hash r) n U"
    and "\<Union> (op_names ` set ops) \<subseteq> U" and "x \<in> U" and "\<not> ring_Contains x r"
  shows "(\<forall>s. ring_Distribution r s = (if ring_Contains s r then nat n else 0)) \<and>
    (snd (ring_Get key r) \<longleftrightarrow> ring_Size r \<noteq> 0) \<and>
    ring_Get key (ring_Remove [x] (ring_Add [x] r)) = ring_Get key r"
proof -
  have inv: "ring_inv r" and n: "ring_replicas r = n" "n > 0" using ring_run_inv [OF assms(1)] by blast+
  then have wf: "ring_wf r" by (simp add: ring_inv_def)
  have full: "ring_full r" "set (ring_nodes r) \<subseteq> U" using ring_run_full [OF assms(1-3)] by blast+
  have pts: "{p. vmap r p = Some s} = (if ring_Contains s r then vhashes r s else {})" for s
  proof -
    have "vmap r p = Some s \<longleftrightarrow> s \<in> set (ring_nodes r) \<and> p \<in> vhashes r s" for p
      using wf full(1) unfolding ring_wf_def ring_full_def by blast
    then show ?thesis by (simp add: ring_Contains_def)
  qed
  then have dist: "ring_Distribution r s = (if ring_Contains s r then nat n else 0)" for s
    using card_vhashes [of r U s] assms(2) n full(2)
    by (auto simp: ring_Distribution_card [OF wf] ring_Contains_def)
  have "vmap r = Map.empty \<longleftrightarrow> ring_nodes r = []"
  proof
    assume "vmap r = Map.empty"
    then have "vhashes r s = {}" if "s \<in> set (ring_nodes r)" for s
      using pts [of s] that by (auto simp: ring_Contains_def)
    then have "s \<notin> set (ring_nodes r)" for s using n by (auto simp: vhashes_def)
    then show "ring_nodes r = []" by (cases "ring_nodes r") auto
  qed (use wf in \<open>auto simp: ring_wf_def fun_eq_iff\<close>)
  then have get: "snd (ring_Get key r) \<longleftrightarrow> ring_Size r \<noteq> 0"
    using owner_None [OF finite_vmap, of r "ring_hash r key"]
    by (auto simp: ring_Get_owner [OF inv] ring_Size_def split: option.splits)
  have fresh: "vhashes r x \<inter> vhashes r s = {}" if "ring_Contains s r" for s
    using no_collisions_vhashes [of r U x s] assms(2,4,5) n full(2) that by (auto simp: ring_Contains_def)
  have "vmap (ring_Remove [x] (ring_Add [x] r)) p = vmap r p" for p
  proof -
    have "vmap r p \<noteq> Some x" using pts [of x] assms(5) by auto
    moreover have "vmap r p = None" if "p \<in> vhashes r x"
    proof (rule ccontr)
      assume "vmap r p \<noteq> None"
      then obtain s where "p \<in> {p. vmap r p = Some s}" by auto
      then have "ring_Contains s r" "p \<in> vhashes r s" unfolding pts by (auto split: if_splits)
      with fresh that show False by blast
    qed
    moreover have "ring_wf (updateSortedHashes (ring_add_node x r))"
      using updateSortedHashes_inv [OF add_node_wf [OF wf]] by (simp add: ring_inv_def)
    ultimately show ?thesis
      by (auto simp: ring_Remove_def ring_Add_def frame_simps vmap_remove_node vmap_add_node)
  qed
  then have "vmap (ring_Remove [x] (ring_Add [x] r)) = vmap r" ..
  then have "ring_Get key (ring_Remove [x] (ring_Add [x] r)) = ring_Get key r"
    by (simp add: ring_Get_owner [OF inv] ring_Get_owner [OF ring_Remove_inv [OF ring_Add_inv [OF inv]]] frame_simps)
  with dist get show ?thesis by blast
qed

section \<open>Witnesses\<close>

text \<open>A sum of the bytes tells the few keys below apart.\<close>

definition sum_hash :: hash_fn where
  "sum_hash s = word_of_nat (sum_list (map of_char s))"

definition sum_ring :: ring where
  "sum_ring = \<lparr>ring_hash = sum_hash, ring_replicas = 2, virtualNodes = [], sortedHashes = [], ring_nodes = []\<rparr>"

lemma sum_ring_run: "ring_run (Some sum_hash) 2 ops = Inr (fold ring_apply ops sum_ring)"
  by (simp add: ring_run_def ring_New_opts sum_ring_def)

definition sample_ring :: ring where
  "sample_ring = fold ring_apply [RAdd [''a'', ''g'', ''z''], RRemove [''a'']] sum_ring"

lemma sample_run: "ring_run (Some sum_hash) 2 [RAdd [''a'', ''g'', ''z''], RRemove [''a'']] = Inr sample_ring"
  by (simp add: sum_ring_run sample_ring_def)

lemma sample_Get: "ring_Get ''k'' sample_ring = (''g'', True)" "ring_Get ''zz'' sample_ring = (''g'', True)"
  by code_simp+

theorem ring_get_clockwise_witness:
  "{x. ring_Contains x sample_ring} = {''g'', ''z''} \<and> ring_Size sample_ring = 2"
  using ring_get_clockwise [OF sample_run] by auto

theorem ring_minimal_redistribution_witness:
  "ring_Get ''k'' (ring_Remove [''z''] sample_ring) = (''g'', True) \<and>
    ring_Get ''k'' (ring_Add [''q''] sample_ring) \<in> {(''g'', True), (''q'', True)}"
  using ring_minimal_redistribution [OF sample_run, of "''k''" "[''z'']"]
    ring_minimal_redistribution [OF sample_run, of "''k''" "[''q'']"]
  by (cases "ring_Get ''k'' (ring_Add [''q''] sample_ring)") (auto simp: sample_Get)

lemma ring_getn_distinct_witness:
  "\<exists>ns. ring_GetN ''k'' 3 sample_ring = Inr ns \<and> distinct ns \<and> hd ns = ''g''"
  using ring_getn_distinct [OF sample_run, of 3 "''k''"] by (auto simp: sample_Get)

lemma sum_hash_apart: "no_collisions (ring_hash sample_ring) 2 {''a'', ''g'', ''z'', ''q''}"
proof -
  have "ring_hash sample_ring = sum_hash"
    by (simp add: sample_ring_def sum_ring_def frame_simps)
  moreover have "{0..<nat 2} = {0, Suc 0}" by auto
  ultimately show ?thesis
    unfolding no_collisions_def
    by (simp add: inj_on_def sum_hash_def virtualNodeKey_def itoa_def itoa_digits.simps)
qed

theorem ring_without_collisions_witness:
  "ring_Distribution sample_ring ''g'' = 2 \<and> ring_Distribution sample_ring ''a'' = 0 \<and>
    ring_Get ''k'' (ring_Remove [''q''] (ring_Add [''q''] sample_ring)) = (''g'', True)"
proof -
  have c: "ring_Contains ''g'' sample_ring" "\<not> ring_Contains ''a'' sample_ring" "\<not> ring_Contains ''q'' sample_ring"
    by code_simp+
  show ?thesis
    using ring_without_collisions [OF sample_run sum_hash_apart _ _ c(3), of "''k''"] c by (simp add: sample_Get)
qed

text \<open>
  With collisions a ring can lose a node: the later of two nodes takes the point, and its removal
  deletes the point although the other node is still on the ring.
\<close>

lemma ring_collision_loses_node:
  "(let r = fold ring_apply [RAdd [''a''], RAdd [''b''], RRemove [''b'']]
              \<lparr>ring_hash = (\<lambda>_. 0), ring_replicas = 1, virtualNodes = [], sortedHashes = [], ring_nodes = []\<rparr>
    in ring_Nodes r = [''a''] \<and> \<not> snd (ring_Get ''key'' r) \<and> ring_Distribution r ''a'' = 0)"
  by code_simp

end
