(* ===== verification/BitBytes.thy ===== *)
theory BitBytes
  imports GoPrelude
begin

text \<open>
  A bit array kept in a slice of bytes, as \<open>common/bitmap/memory\<close> and the Bloom filters of
  \<open>common/bloom\<close> write it: bit \<open>i\<close> is bit \<open>i & 7\<close> of byte \<open>i >> 3\<close>. The abstraction is the set of
  the positions of the bits that are set.
\<close>

unbundle bit_operations_syntax

type_synonym byte = "8 word"

definition byte_idx :: "uint64 \<Rightarrow> nat" where
  "byte_idx i = unat (drop_bit 3 i)"

definition bit_mask :: "uint64 \<Rightarrow> byte" where
  "bit_mask i = push_bit (unat (i AND 7)) 1"

definition bytes_test :: "byte list \<Rightarrow> uint64 \<Rightarrow> bool" where
  "bytes_test bs i \<longleftrightarrow> (bs ! byte_idx i) AND bit_mask i \<noteq> 0"

definition bytes_set :: "byte list \<Rightarrow> uint64 \<Rightarrow> byte list" where
  "bytes_set bs i = bs[byte_idx i := (bs ! byte_idx i) OR bit_mask i]"

definition bytes_clear :: "byte list \<Rightarrow> uint64 \<Rightarrow> byte list" where
  "bytes_clear bs i = bs[byte_idx i := (bs ! byte_idx i) AND NOT (bit_mask i)]"

text \<open>\<open>bits.OnesCount8\<close>.\<close>

definition OnesCount8 :: "byte \<Rightarrow> nat" where
  "OnesCount8 b = length (filter (bit b) [0..<8])"

section \<open>The set of positions\<close>

definition bit_set :: "byte list \<Rightarrow> nat set" where
  "bit_set bs = {n. n div 8 < length bs \<and> bit (bs ! (n div 8)) (n mod 8)}"

lemma byte_idx_div: "byte_idx i = unat i div 8"
  by (simp add: byte_idx_def unat_drop_bit_eq flip: drop_bit_eq_div) (simp add: drop_bit_eq_div)

lemma and_7_mod: "unat (i AND 7 :: uint64) = unat i mod 8"
proof -
  have "i AND 7 = take_bit 3 i" by (simp add: take_bit_eq_mask mask_eq_exp_minus_1)
  then have "unat (i AND 7) = take_bit 3 (unat i)" by (simp add: unsigned_take_bit_eq)
  then show ?thesis by (simp add: take_bit_eq_mod)
qed

lemma bit_mask_bit: "n < 8 \<Longrightarrow> bit (bit_mask i) n \<longleftrightarrow> n = unat i mod 8"
  by (auto simp: bit_mask_def and_7_mod bit_simps simp del: push_bit_of_1)

lemma bytes_test_iff:
  assumes "byte_idx i < length bs"
  shows "bytes_test bs i \<longleftrightarrow> unat i \<in> bit_set bs"
proof -
  let ?b = "bs ! (unat i div 8)"
  have "?b AND bit_mask i \<noteq> 0 \<longleftrightarrow> (\<exists>n < 8. bit ?b n \<and> bit (bit_mask i) n)"
    by (auto simp: bit_eq_iff bit_and_iff impossible_bit)
  also have "\<dots> \<longleftrightarrow> bit ?b (unat i mod 8)"
    using bit_mask_bit by (metis mod_less_divisor zero_less_numeral)
  finally show ?thesis using assms by (simp add: bytes_test_def bit_set_def byte_idx_div)
qed

lemma length_bytes [simp]:
  "length (bytes_set bs i) = length bs" "length (bytes_clear bs i) = length bs"
  by (simp_all add: bytes_set_def bytes_clear_def)

lemma div_mod_eq_iff: "(n :: nat) div 8 = m div 8 \<and> n mod 8 = m mod 8 \<longleftrightarrow> n = m"
  by (metis div_mult_mod_eq)

lemma bit_set_set:
  assumes "byte_idx i < length bs"
  shows "bit_set (bytes_set bs i) = insert (unat i) (bit_set bs)"
proof (intro set_eqI)
  fix n :: nat
  have "n mod 8 < 8" by simp
  then show "n \<in> bit_set (bytes_set bs i) \<longleftrightarrow> n \<in> insert (unat i) (bit_set bs)"
    using assms div_mod_eq_iff [of n "unat i"]
    by (auto simp: bit_set_def bytes_set_def byte_idx_div nth_list_update bit_or_iff bit_mask_bit)
qed

lemma bit_set_clear:
  assumes "byte_idx i < length bs"
  shows "bit_set (bytes_clear bs i) = bit_set bs - {unat i}"
proof (intro set_eqI)
  fix n :: nat
  have "n mod 8 < 8" by simp
  then show "n \<in> bit_set (bytes_clear bs i) \<longleftrightarrow> n \<in> bit_set bs - {unat i}"
    using assms div_mod_eq_iff [of n "unat i"]
    by (auto simp: bit_set_def bytes_clear_def byte_idx_div nth_list_update bit_and_iff bit_not_iff bit_mask_bit)
qed

lemma bit_set_replicate [simp]: "bit_set (replicate n 0) = {}"
  by (auto simp: bit_set_def)

lemma bit_set_grow [simp]: "bit_set (bs @ replicate n 0) = bit_set bs"
proof (intro set_eqI)
  fix m
  show "m \<in> bit_set (bs @ replicate n 0) \<longleftrightarrow> m \<in> bit_set bs"
    by (cases "m div 8 < length bs") (auto simp: bit_set_def nth_append)
qed

lemma bit_set_Nil [simp]: "bit_set [] = {}"
  by (simp add: bit_set_def)

lemma bit_set_bound: "n \<in> bit_set bs \<Longrightarrow> n < 8 * length bs"
  by (auto simp: bit_set_def)

lemma finite_bit_set [simp]: "finite (bit_set bs)"
  by (rule finite_subset [of _ "{..<8 * length bs}"]) (auto dest: bit_set_bound)

lemma bit_set_Cons: "bit_set (b # bs) = {n. n < 8 \<and> bit b n} \<union> (\<lambda>n. n + 8) ` bit_set bs"
proof (intro set_eqI)
  fix n
  show "n \<in> bit_set (b # bs) \<longleftrightarrow> n \<in> {n. n < 8 \<and> bit b n} \<union> (\<lambda>n. n + 8) ` bit_set bs"
  proof (cases "n < 8")
    case False
    then obtain m where "n = m + 8" by (metis add.commute le_Suc_ex not_less)
    moreover have "(m + 8) div 8 = Suc (m div 8)" for m :: nat by simp
    ultimately show ?thesis by (auto simp: bit_set_def image_iff)
  qed (auto simp: bit_set_def)
qed

lemma sum_OnesCount8: "sum_list (map OnesCount8 bs) = card (bit_set bs)"
proof (induction bs)
  case (Cons b bs)
  have "card ((\<lambda>n. n + 8) ` bit_set bs) = card (bit_set bs)"
    by (rule card_image) (simp add: inj_on_def)
  moreover have "OnesCount8 b = card {n. n < 8 \<and> bit b n}"
  proof -
    have "distinct (filter (bit b) [0..<8])" by simp
    from distinct_card [OF this] show ?thesis by (simp add: OnesCount8_def conj_commute)
  qed
  moreover have "card ({n. n < 8 \<and> bit b n} \<union> (\<lambda>n. n + 8) ` bit_set bs) =
      card {n. n < 8 \<and> bit b n} + card ((\<lambda>n. n + 8) ` bit_set bs)"
    by (rule card_Un_disjoint) auto
  ultimately show ?case
    using Cons by (simp add: bit_set_Cons)
qed simp

text \<open>\<open>binary.LittleEndian\<close> on 64 bits.\<close>

definition PutUint64 :: "uint64 \<Rightarrow> byte list" where
  "PutUint64 v = map (\<lambda>i. ucast (drop_bit (8 * i) v)) [0..<8]"

definition Uint64 :: "byte list \<Rightarrow> uint64" where
  "Uint64 bs = foldr (\<lambda>b v. ucast b OR push_bit 8 v) (take 8 bs) 0"

lemma length_PutUint64 [simp]: "length (PutUint64 v) = 8"
  by (simp add: PutUint64_def)

lemma Uint64_foldr:
  "foldr (\<lambda>b x. ucast b OR push_bit 8 x) (map (\<lambda>i. ucast (drop_bit (8 * i) v) :: byte) [k..<k + n]) (0 :: uint64) =
     take_bit (8 * n) (drop_bit (8 * k) v)"
proof (induction n arbitrary: k)
  case (Suc n)
  have "foldr (\<lambda>b x. ucast b OR push_bit 8 x) (map (\<lambda>i. ucast (drop_bit (8 * i) v) :: byte) [k..<k + Suc n]) (0 :: uint64) =
      ucast (ucast (drop_bit (8 * k) v) :: byte) OR push_bit 8 (take_bit (8 * n) (drop_bit (8 * Suc k) v))"
    using Suc.IH [of "Suc k"] by (simp add: upt_conv_Cons del: upt_Suc)
  also have "\<dots> = take_bit (8 * Suc n) (drop_bit (8 * k) v)"
  proof (rule bit_word_eqI)
    fix j
    show "bit (ucast (ucast (drop_bit (8 * k) v) :: byte) OR push_bit 8 (take_bit (8 * n) (drop_bit (8 * Suc k) v))) j \<longleftrightarrow>
        bit (take_bit (8 * Suc n) (drop_bit (8 * k) v)) j" if "j < LENGTH(64)"
      using that by (cases "j < 8") (auto simp: bit_simps not_less ac_simps)
  qed
  finally show ?case .
qed simp

lemma Uint64_Put [simp]: "Uint64 (PutUint64 v) = v"
  using Uint64_foldr [of v 0 8] by (simp add: Uint64_def PutUint64_def take_bit_word_eq_self)

end
