(* ===== verification/Bitmap.thy ===== *)
theory Bitmap
  imports BitBytes
begin

text \<open>
  The packages \<open>common/bitmap\<close> (errors) and \<open>common/bitmap/memory\<close> (files \<open>memory.go\<close>,
  \<open>options.go\<close>): the dense bitmap over a growable slice of bytes. Each method locks the bitmap
  from its first access to its return, so it is one step. A run-time panic (an index out of
  range, a negative length given to \<open>make\<close>) is the error \<open>BmPanic\<close>; memory is not exhausted.
\<close>

unbundle bit_operations_syntax

datatype bitmap_error =
    BmErrClosed
  | BmErrInvalidCapacity
  | BmErrEmptyKey
  | BmErrNotSupported
  | BmErrOffsetOutOfRange
  | BmCtx ctx_err
  | BmEOF
  | BmErrUnexpectedEOF
  | BmIO nat
  | BmPanic

record bm_config =
  cfg_capacity :: uint64
  cfg_fixed :: bool

type_synonym bm_Option = "bm_config \<Rightarrow> bm_config"

definition bm_applyOptions :: "bm_Option option list \<Rightarrow> bm_config" where
  "bm_applyOptions opts =
     fold (\<lambda>opt cfg. case opt of None \<Rightarrow> cfg | Some f \<Rightarrow> f cfg) opts \<lparr>cfg_capacity = 0, cfg_fixed = False\<rparr>"

definition bm_WithCapacity :: "uint64 \<Rightarrow> bm_Option" where
  "bm_WithCapacity capacity c = c\<lparr>cfg_capacity := capacity\<rparr>"

definition bm_WithFixed :: "uint64 \<Rightarrow> bm_Option" where
  "bm_WithFixed capacity c = c\<lparr>cfg_capacity := capacity, cfg_fixed := True\<rparr>"

definition bm_validate :: "bm_config \<Rightarrow> bitmap_error option" where
  "bm_validate c = (if cfg_fixed c \<and> cfg_capacity c = 0 then Some BmErrInvalidCapacity else None)"

record bm =
  bm_bits :: "byte list"
  bm_capacity :: uint64
  bm_fixed :: bool
  bm_closed :: bool

definition bitsToBytes :: "uint64 \<Rightarrow> nat" where
  "bitsToBytes n = (if n = 0 then 0 else unat ((n + 7) div 8))"

definition bm_New :: "bm_Option option list \<Rightarrow> bitmap_error + bm" where
  "bm_New opts =
     (let cfg = bm_applyOptions opts in
      case bm_validate cfg of
        Some e \<Rightarrow> Inl e
      | None \<Rightarrow> Inr \<lparr>bm_bits = (if cfg_capacity cfg > 0 then replicate (bitsToBytes (cfg_capacity cfg)) 0 else []),
                     bm_capacity = cfg_capacity cfg, bm_fixed = cfg_fixed cfg, bm_closed = False\<rparr>)"

definition bm_check :: "ctx \<Rightarrow> bitmap_error option" where
  "bm_check ctx = (case ctx of Some e \<Rightarrow> Some (BmCtx e) | None \<Rightarrow> None)"

text \<open>The guards every method begins with, and its body otherwise.\<close>

definition bm_open :: "ctx \<Rightarrow> bm \<Rightarrow> (bm \<Rightarrow> (bitmap_error + 'a) \<times> bm) \<Rightarrow> (bitmap_error + 'a) \<times> bm" where
  "bm_open ctx b body =
     (case bm_check ctx of
        Some e \<Rightarrow> (Inl e, b)
      | None \<Rightarrow> if bm_closed b then (Inl BmErrClosed, b) else body b)"

definition ensureLocked :: "uint64 \<Rightarrow> bm \<Rightarrow> bitmap_error + bm" where
  "ensureLocked offset b =
     (if bm_fixed b
      then (if offset \<ge> bm_capacity b then Inl BmErrOffsetOutOfRange else Inr b)
      else let need = bitsToBytes (offset + 1) in
           if need \<le> length (bm_bits b) then Inr b
           else Inr (b\<lparr>bm_bits := bm_bits b @ replicate (need - length (bm_bits b)) 0,
                       bm_capacity := (if bm_capacity b < offset + 1 then offset + 1 else bm_capacity b)\<rparr>))"

text \<open>Writing a bit beyond the slice panics.\<close>

definition bm_set_bit :: "uint64 \<Rightarrow> bm \<Rightarrow> (bitmap_error + unit) \<times> bm" where
  "bm_set_bit offset b =
     (case ensureLocked offset b of
        Inl e \<Rightarrow> (Inl e, b)
      | Inr b' \<Rightarrow>
          if byte_idx offset < length (bm_bits b') then (Inr (), b'\<lparr>bm_bits := bytes_set (bm_bits b') offset\<rparr>)
          else (Inl BmPanic, b'))"

definition bm_Set :: "ctx \<Rightarrow> uint64 \<Rightarrow> bm \<Rightarrow> (bitmap_error + unit) \<times> bm" where
  "bm_Set ctx offset b = bm_open ctx b (bm_set_bit offset)"

definition bm_get_bit :: "uint64 \<Rightarrow> bm \<Rightarrow> bitmap_error + bool" where
  "bm_get_bit offset b =
     (if bm_fixed b \<and> offset \<ge> bm_capacity b then Inl BmErrOffsetOutOfRange
      else if byte_idx offset \<ge> length (bm_bits b) then Inr False
      else Inr (bytes_test (bm_bits b) offset))"

definition bm_Get :: "ctx \<Rightarrow> uint64 \<Rightarrow> bm \<Rightarrow> (bitmap_error + bool) \<times> bm" where
  "bm_Get ctx offset b = bm_open ctx b (\<lambda>b. (bm_get_bit offset b, b))"

definition bm_clear_bit :: "uint64 \<Rightarrow> bm \<Rightarrow> (bitmap_error + unit) \<times> bm" where
  "bm_clear_bit offset b =
     (if bm_fixed b \<and> offset \<ge> bm_capacity b then (Inl BmErrOffsetOutOfRange, b)
      else if byte_idx offset \<ge> length (bm_bits b) then (Inr (), b)
      else (Inr (), b\<lparr>bm_bits := bytes_clear (bm_bits b) offset\<rparr>))"

definition bm_Clear :: "ctx \<Rightarrow> uint64 \<Rightarrow> bm \<Rightarrow> (bitmap_error + unit) \<times> bm" where
  "bm_Clear ctx offset b = bm_open ctx b (bm_clear_bit offset)"

definition bm_Count :: "ctx \<Rightarrow> bm \<Rightarrow> (bitmap_error + uint64) \<times> bm" where
  "bm_Count ctx b =
     bm_open ctx b (\<lambda>b. (Inr (foldl (\<lambda>n by. n + word_of_nat (OnesCount8 by)) 0 (bm_bits b)), b))"

definition bm_Reset :: "ctx \<Rightarrow> bm \<Rightarrow> (bitmap_error + unit) \<times> bm" where
  "bm_Reset ctx b =
     bm_open ctx b (\<lambda>b. (Inr (), b\<lparr>bm_bits := replicate (length (bm_bits b)) 0\<rparr>))"

definition bm_Close :: "bm \<Rightarrow> (bitmap_error + unit) \<times> bm" where
  "bm_Close b = (if bm_closed b then (Inr (), b) else (Inr (), b\<lparr>bm_closed := True, bm_bits := []\<rparr>))"

text \<open>The batches stop at the first error and keep what they did before it.\<close>

fun bm_set_loop :: "uint64 list \<Rightarrow> bm \<Rightarrow> (bitmap_error + unit) \<times> bm" where
  "bm_set_loop [] b = (Inr (), b)"
| "bm_set_loop (off # offs) b =
     (case bm_set_bit off b of (Inl e, b') \<Rightarrow> (Inl e, b') | (Inr _, b') \<Rightarrow> bm_set_loop offs b')"

definition bm_SetBatch :: "ctx \<Rightarrow> uint64 list \<Rightarrow> bm \<Rightarrow> (bitmap_error + unit) \<times> bm" where
  "bm_SetBatch ctx offsets b = bm_open ctx b (bm_set_loop offsets)"

fun bm_get_loop :: "uint64 list \<Rightarrow> bm \<Rightarrow> bitmap_error + bool list" where
  "bm_get_loop [] b = Inr []"
| "bm_get_loop (off # offs) b =
     res_bind (bm_get_bit off b) (\<lambda>x. res_bind (bm_get_loop offs b) (\<lambda>xs. Inr (x # xs)))"

definition bm_GetBatch :: "ctx \<Rightarrow> uint64 list \<Rightarrow> bm \<Rightarrow> (bitmap_error + bool list) \<times> bm" where
  "bm_GetBatch ctx offsets b = bm_open ctx b (\<lambda>b. (bm_get_loop offsets b, b))"

fun bm_clear_loop :: "uint64 list \<Rightarrow> bm \<Rightarrow> (bitmap_error + unit) \<times> bm" where
  "bm_clear_loop [] b = (Inr (), b)"
| "bm_clear_loop (off # offs) b =
     (case bm_clear_bit off b of (Inl e, b') \<Rightarrow> (Inl e, b') | (Inr _, b') \<Rightarrow> bm_clear_loop offs b')"

definition bm_ClearBatch :: "ctx \<Rightarrow> uint64 list \<Rightarrow> bm \<Rightarrow> (bitmap_error + unit) \<times> bm" where
  "bm_ClearBatch ctx offsets b = bm_open ctx b (bm_clear_loop offsets)"

section \<open>Snapshots\<close>

text \<open>
  An \<open>io.Writer\<close> takes bytes and a state of its own to the count written and an error. An
  \<open>io.Reader\<close> is the bytes it still delivers and the error after them; \<open>io.ReadFull\<close> needs all
  the bytes asked for.
\<close>

type_synonym 's writer = "byte list \<Rightarrow> 's \<Rightarrow> (nat \<times> bitmap_error option) \<times> 's"

record reader =
  rd_data :: "byte list"
  rd_err :: bitmap_error

definition ReadFull :: "nat \<Rightarrow> reader \<Rightarrow> (nat \<times> (bitmap_error + byte list)) \<times> reader" where
  "ReadFull n r =
     (if n \<le> length (rd_data r) then ((n, Inr (take n (rd_data r))), r\<lparr>rd_data := drop n (rd_data r)\<rparr>)
      else ((length (rd_data r),
             Inl (if rd_err r = BmEOF then if rd_data r = [] then BmEOF else BmErrUnexpectedEOF else rd_err r)),
            r\<lparr>rd_data := []\<rparr>))"

definition snapshotMagic :: "byte list" where
  "snapshotMagic = [66, 77, 48, 49]"

definition bm_header :: "bm \<Rightarrow> byte list" where
  "bm_header b = (if bm_fixed b then 1 else 0) # PutUint64 (bm_capacity b) @ PutUint64 (word_of_nat (length (bm_bits b)))"

definition bm_WriteTo :: "'s writer \<Rightarrow> bm \<Rightarrow> 's \<Rightarrow> (nat \<times> bitmap_error option) \<times> 's" where
  "bm_WriteTo w b s =
     (if bm_closed b then ((0, Some BmErrClosed), s)
      else case w snapshotMagic s of
        ((n1, Some e), s1) \<Rightarrow> ((n1, Some e), s1)
      | ((n1, None), s1) \<Rightarrow>
          (case w (bm_header b) s1 of
             ((n2, Some e), s2) \<Rightarrow> ((n1 + n2, Some e), s2)
           | ((n2, None), s2) \<Rightarrow>
               (case w (bm_bits b) s2 of ((n3, e), s3) \<Rightarrow> ((n1 + n2 + n3, e), s3))))"

text \<open>\<open>make\<close> panics on a length that is no \<open>int\<close>.\<close>

definition bm_ReadFrom :: "reader \<Rightarrow> bm \<Rightarrow> (nat \<times> bitmap_error option) \<times> reader \<times> bm" where
  "bm_ReadFrom r b =
     (if bm_closed b then ((0, Some BmErrClosed), r, b)
      else case ReadFull 4 r of
        ((n1, Inl e), r1) \<Rightarrow> ((n1, Some e), r1, b)
      | ((n1, Inr magic), r1) \<Rightarrow>
          if magic \<noteq> snapshotMagic then ((n1, Some BmErrUnexpectedEOF), r1, b)
          else (case ReadFull 17 r1 of
             ((n2, Inl e), r2) \<Rightarrow> ((n1 + n2, Some e), r2, b)
           | ((n2, Inr hdr), r2) \<Rightarrow>
               let fixed = hdr ! 0 = 1;
                   capBits = Uint64 (take 8 (drop 1 hdr));
                   nbytes = Uint64 (take 8 (drop 9 hdr))
               in if nbytes \<ge> 2 ^ 63 then ((n1 + n2, Some BmPanic), r2, b)
                  else if nbytes > 0
                  then (case ReadFull (unat nbytes) r2 of
                          ((n3, Inl e), r3) \<Rightarrow> ((n1 + n2 + n3, Some e), r3, b)
                        | ((n3, Inr data), r3) \<Rightarrow>
                            ((n1 + n2 + n3, None), r3, b\<lparr>bm_bits := data, bm_capacity := capBits, bm_fixed := fixed\<rparr>))
                  else ((n1 + n2, None), r2, b\<lparr>bm_bits := [], bm_capacity := capBits, bm_fixed := fixed\<rparr>)))"

section \<open>The set a bitmap stands for\<close>

datatype bm_op =
    OpSet uint64 | OpGet uint64 | OpClr uint64 | OpCount | OpReset | OpClose
  | OpSetBatch "uint64 list" | OpGetBatch "uint64 list" | OpClearBatch "uint64 list"

datatype bm_out = OutUnit | OutBool bool | OutCount uint64 | OutBools "bool list"

definition out_of :: "('a \<Rightarrow> bm_out) \<Rightarrow> (bitmap_error + 'a) \<times> bm \<Rightarrow> (bitmap_error + bm_out) \<times> bm" where
  "out_of f = map_prod (map_sum id f) id"

fun bm_step :: "ctx \<times> bm_op \<Rightarrow> bm \<Rightarrow> (bitmap_error + bm_out) \<times> bm" where
  "bm_step (ctx, OpSet i) b = out_of (\<lambda>_. OutUnit) (bm_Set ctx i b)"
| "bm_step (ctx, OpGet i) b = out_of OutBool (bm_Get ctx i b)"
| "bm_step (ctx, OpClr i) b = out_of (\<lambda>_. OutUnit) (bm_Clear ctx i b)"
| "bm_step (ctx, OpCount) b = out_of OutCount (bm_Count ctx b)"
| "bm_step (ctx, OpReset) b = out_of (\<lambda>_. OutUnit) (bm_Reset ctx b)"
| "bm_step (ctx, OpClose) b = out_of (\<lambda>_. OutUnit) (bm_Close b)"
| "bm_step (ctx, OpSetBatch is) b = out_of (\<lambda>_. OutUnit) (bm_SetBatch ctx is b)"
| "bm_step (ctx, OpGetBatch is) b = out_of OutBools (bm_GetBatch ctx is b)"
| "bm_step (ctx, OpClearBatch is) b = out_of (\<lambda>_. OutUnit) (bm_ClearBatch ctx is b)"

text \<open>The specification: a set of numbers below a limit, None when closed.\<close>

fun set_body :: "(uint64 \<Rightarrow> bool) \<Rightarrow> bm_op \<Rightarrow> nat set \<Rightarrow> (bitmap_error + bm_out) \<times> nat set" where
  "set_body ok (OpSet i) S = (if ok i then (Inr OutUnit, insert (unat i) S) else (Inl BmErrOffsetOutOfRange, S))"
| "set_body ok (OpGet i) S = (if ok i then Inr (OutBool (unat i \<in> S)) else Inl BmErrOffsetOutOfRange, S)"
| "set_body ok (OpClr i) S = (if ok i then (Inr OutUnit, S - {unat i}) else (Inl BmErrOffsetOutOfRange, S))"
| "set_body ok OpCount S = (Inr (OutCount (word_of_nat (card S))), S)"
| "set_body ok OpReset S = (Inr OutUnit, {})"
| "set_body ok OpClose S = (Inr OutUnit, S)"
| "set_body ok (OpSetBatch is) S =
     (if list_all ok is then Inr OutUnit else Inl BmErrOffsetOutOfRange, S \<union> unat ` set (takeWhile ok is))"
| "set_body ok (OpGetBatch is) S =
     (if list_all ok is then Inr (OutBools (map (\<lambda>i. unat i \<in> S) is)) else Inl BmErrOffsetOutOfRange, S)"
| "set_body ok (OpClearBatch is) S =
     (if list_all ok is then Inr OutUnit else Inl BmErrOffsetOutOfRange, S - unat ` set (takeWhile ok is))"

fun set_step :: "(uint64 \<Rightarrow> bool) \<Rightarrow> ctx \<times> bm_op \<Rightarrow> nat set option \<Rightarrow> (bitmap_error + bm_out) \<times> nat set option" where
  "set_step ok (ctx, op) S =
     (if op = OpClose then (Inr OutUnit, None)
      else case ctx of
        Some e \<Rightarrow> (Inl (BmCtx e), S)
      | None \<Rightarrow> (case S of None \<Rightarrow> (Inl BmErrClosed, None) | Some T \<Rightarrow> map_prod id Some (set_body ok op T)))"

definition bm_abs :: "bm \<Rightarrow> nat set option" where
  "bm_abs b = (if bm_closed b then None else Some (bit_set (bm_bits b)))"

text \<open>
  The offsets in range: below the capacity of a fixed bitmap. The invariant says that a fixed
  bitmap has a byte for each of them.
\<close>

definition bm_range :: "bm \<Rightarrow> uint64 \<Rightarrow> bool" where
  "bm_range b i \<longleftrightarrow> (bm_fixed b \<longrightarrow> i < bm_capacity b)"

definition bm_inv :: "bm \<Rightarrow> bool" where
  "bm_inv b \<longleftrightarrow> (\<not> bm_closed b \<and> bm_fixed b \<longrightarrow> unat (bm_capacity b) \<le> 8 * length (bm_bits b))"

definition no_wrap :: "uint64 \<Rightarrow> bool" where
  "no_wrap i \<longleftrightarrow> unat i < 2 ^ 64 - 8"

lemma unat_plus_small:
  fixes i :: uint64
  assumes "unat i + n < 2 ^ 64"
  shows "unat (i + word_of_nat n) = unat i + n"
proof -
  have "unat (word_of_nat n :: uint64) = n" using assms by (simp add: unsigned_of_nat take_bit_nat_eq_self)
  then show ?thesis using assms by (subst unat_plus_if_size) (simp add: word_size)
qed

lemma bitsToBytes_enough:
  assumes "unat n + 7 < 2 ^ 64"
  shows "unat n \<le> 8 * bitsToBytes n"
proof -
  have "unat (n + 7) = unat n + 7" using unat_plus_small [of n 7] assms by simp
  then have "unat ((n + 7) div 8) = (unat n + 7) div 8" by (simp add: unat_div)
  then show ?thesis by (auto simp: bitsToBytes_def)
qed

lemma ensureLocked_ok:
  assumes "bm_inv b" "\<not> bm_closed b" "bm_range b i" "bm_fixed b \<or> no_wrap i"
  obtains b' where "ensureLocked i b = Inr b'" "byte_idx i < length (bm_bits b')"
    "bit_set (bm_bits b') = bit_set (bm_bits b)" "bm_inv b'" "bm_closed b' = bm_closed b" "bm_range b' = bm_range b"
    "bm_fixed b' = bm_fixed b"
proof (cases "bm_fixed b")
  case True
  then have "unat i < 8 * length (bm_bits b)"
    using assms by (auto simp: bm_range_def bm_inv_def word_less_nat_alt)
  then have "byte_idx i < length (bm_bits b)" by (simp add: byte_idx_div less_mult_imp_div_less mult.commute)
  then show ?thesis using True assms that [of b] by (simp add: ensureLocked_def bm_range_def)
next
  case False
  then have w: "unat i + 8 < 2 ^ 64" using assms(4) by (simp add: no_wrap_def)
  have "unat (i + 1) = unat i + 1" using unat_plus_small [of i 1] w by simp
  moreover from this have "unat (i + 1) \<le> 8 * bitsToBytes (i + 1)" using w by (intro bitsToBytes_enough) simp
  ultimately have "byte_idx i < bitsToBytes (i + 1)" by (simp add: byte_idx_div)
  then show ?thesis
    using False assms that [of b]
      that [of "b\<lparr>bm_bits := bm_bits b @ replicate (bitsToBytes (i + 1) - length (bm_bits b)) 0,
                 bm_capacity := if bm_capacity b < i + 1 then i + 1 else bm_capacity b\<rparr>"]
    by (cases "bitsToBytes (i + 1) \<le> length (bm_bits b)")
      (simp_all add: ensureLocked_def Let_def bm_range_def [abs_def] bm_inv_def)
qed

lemma bm_set_bit_spec:
  assumes "bm_inv b" "\<not> bm_closed b" "bm_fixed b \<or> no_wrap i"
  shows "if bm_range b i
     then \<exists>b'. bm_set_bit i b = (Inr (), b') \<and> bit_set (bm_bits b') = insert (unat i) (bit_set (bm_bits b)) \<and>
            bm_inv b' \<and> \<not> bm_closed b' \<and> bm_range b' = bm_range b \<and> bm_fixed b' = bm_fixed b
     else bm_set_bit i b = (Inl BmErrOffsetOutOfRange, b)"
proof (cases "bm_range b i")
  case True
  from ensureLocked_ok [OF assms(1,2) True assms(3)] obtain b' where b':
    "ensureLocked i b = Inr b'" "byte_idx i < length (bm_bits b')"
    "bit_set (bm_bits b') = bit_set (bm_bits b)" "bm_inv b'" "bm_closed b' = bm_closed b" "bm_range b' = bm_range b"
    "bm_fixed b' = bm_fixed b" by blast
  moreover have "bm_range (b'\<lparr>bm_bits := xs\<rparr>) = bm_range b'" for xs by (simp add: bm_range_def [abs_def])
  ultimately show ?thesis
    using True assms(2) by (auto simp: bm_set_bit_def bit_set_set bm_inv_def)
next
  case False
  then show ?thesis by (auto simp: bm_set_bit_def ensureLocked_def bm_range_def)
qed

lemma bm_get_bit_spec:
  "bm_get_bit i b = (if bm_range b i then Inr (unat i \<in> bit_set (bm_bits b)) else Inl BmErrOffsetOutOfRange)"
proof -
  have "unat i \<notin> bit_set (bm_bits b)" if "length (bm_bits b) \<le> byte_idx i"
    using that by (auto simp: bit_set_def byte_idx_div)
  then show ?thesis by (auto simp: bm_get_bit_def bm_range_def bytes_test_iff)
qed

lemma bm_clear_bit_spec:
  assumes "bm_inv b" "\<not> bm_closed b"
  shows "if bm_range b i
     then \<exists>b'. bm_clear_bit i b = (Inr (), b') \<and> bit_set (bm_bits b') = bit_set (bm_bits b) - {unat i} \<and>
            bm_inv b' \<and> \<not> bm_closed b' \<and> bm_range b' = bm_range b \<and> bm_fixed b' = bm_fixed b
     else bm_clear_bit i b = (Inl BmErrOffsetOutOfRange, b)"
proof -
  have "unat i \<notin> bit_set (bm_bits b)" if "length (bm_bits b) \<le> byte_idx i"
    using that by (auto simp: bit_set_def byte_idx_div)
  moreover have "bm_range (b\<lparr>bm_bits := xs\<rparr>) = bm_range b" for xs by (simp add: bm_range_def [abs_def])
  ultimately show ?thesis
    using assms by (auto simp: bm_clear_bit_def bit_set_clear bm_inv_def bm_range_def)
qed

lemma bm_set_loop_spec:
  assumes "bm_inv b" "\<not> bm_closed b" "bm_fixed b \<or> list_all no_wrap is"
  shows "\<exists>b'. bm_set_loop is b = (if list_all (bm_range b) is then Inr () else Inl BmErrOffsetOutOfRange, b') \<and>
     bit_set (bm_bits b') = bit_set (bm_bits b) \<union> unat ` set (takeWhile (bm_range b) is) \<and>
     bm_inv b' \<and> \<not> bm_closed b' \<and> bm_range b' = bm_range b \<and> bm_fixed b' = bm_fixed b"
  using assms
proof (induction "is" arbitrary: b)
  case (Cons i "is")
  have "bm_fixed b \<or> no_wrap i" using Cons.prems(3) by auto
  note one = bm_set_bit_spec [OF Cons.prems(1,2) this]
  show ?case
  proof (cases "bm_range b i")
    case True
    with one obtain b1 where b1: "bm_set_bit i b = (Inr (), b1)"
      "bit_set (bm_bits b1) = insert (unat i) (bit_set (bm_bits b))"
      "bm_inv b1" "\<not> bm_closed b1" "bm_range b1 = bm_range b" "bm_fixed b1 = bm_fixed b" by auto
    from Cons.IH [OF b1(3,4)] Cons.prems(3) b1 show ?thesis by (auto simp: True)
  next
    case False
    with one show ?thesis using Cons.prems by auto
  qed
qed auto

lemma bm_clear_loop_spec:
  assumes "bm_inv b" "\<not> bm_closed b"
  shows "\<exists>b'. bm_clear_loop is b = (if list_all (bm_range b) is then Inr () else Inl BmErrOffsetOutOfRange, b') \<and>
     bit_set (bm_bits b') = bit_set (bm_bits b) - unat ` set (takeWhile (bm_range b) is) \<and>
     bm_inv b' \<and> \<not> bm_closed b' \<and> bm_range b' = bm_range b \<and> bm_fixed b' = bm_fixed b"
  using assms
proof (induction "is" arbitrary: b)
  case (Cons i "is")
  note one = bm_clear_bit_spec [OF Cons.prems(1,2), of i]
  show ?case
  proof (cases "bm_range b i")
    case True
    with one obtain b1 where b1: "bm_clear_bit i b = (Inr (), b1)"
      "bit_set (bm_bits b1) = bit_set (bm_bits b) - {unat i}"
      "bm_inv b1" "\<not> bm_closed b1" "bm_range b1 = bm_range b" "bm_fixed b1 = bm_fixed b" by auto
    from Cons.IH [OF b1(3,4)] b1 show ?thesis by (auto simp: True)
  next
    case False
    with one show ?thesis using Cons.prems by auto
  qed
qed auto

lemma bm_get_loop_spec:
  "bm_get_loop is b =
     (if list_all (bm_range b) is then Inr (map (\<lambda>i. unat i \<in> bit_set (bm_bits b)) is) else Inl BmErrOffsetOutOfRange)"
  by (induction "is") (auto simp: bm_get_bit_spec)

lemma bm_count_spec:
  "foldl (\<lambda>n by. n + word_of_nat (OnesCount8 by)) (0 :: uint64) bs = word_of_nat (card (bit_set bs))"
proof -
  have "foldl (\<lambda>n by. n + word_of_nat (OnesCount8 by)) x bs = x + word_of_nat (sum_list (map OnesCount8 bs))" for x :: uint64
    by (induction bs arbitrary: x) simp_all
  then show ?thesis by (simp add: sum_OnesCount8)
qed

lemma bm_open_simps:
  "bm_open (Some e) b body = (Inl (BmCtx e), b)"
  "bm_closed b \<Longrightarrow> bm_open None b body = (Inl BmErrClosed, b)"
  "\<not> bm_closed b \<Longrightarrow> bm_open None b body = body b"
  by (simp_all add: bm_open_def bm_check_def)

fun op_offsets :: "bm_op \<Rightarrow> uint64 list" where
  "op_offsets (OpSet i) = [i]"
| "op_offsets (OpSetBatch is) = is"
| "op_offsets _ = []"

lemma bm_step_refines:
  assumes inv: "bm_inv b" and ok: "bm_fixed b \<or> list_all no_wrap (op_offsets op)"
  shows "\<exists>b'. bm_step (ctx, op) b = (fst (set_step (bm_range b) (ctx, op) (bm_abs b)), b') \<and>
     bm_abs b' = snd (set_step (bm_range b) (ctx, op) (bm_abs b)) \<and>
     bm_inv b' \<and> bm_range b' = bm_range b \<and> bm_fixed b' = bm_fixed b"
proof (cases "op = OpClose")
  case True
  then show ?thesis using inv by (auto simp: bm_Close_def out_of_def bm_abs_def bm_inv_def bm_range_def [abs_def])
next
  case False
  show ?thesis
  proof (cases "ctx \<noteq> None \<or> bm_closed b")
    case True
    then have "bm_step (ctx, op) b = (Inl (case ctx of Some e \<Rightarrow> BmCtx e | None \<Rightarrow> BmErrClosed), b)"
      using False by (cases op; cases ctx)
        (simp_all add: bm_Set_def bm_Get_def bm_Clear_def bm_Count_def bm_Reset_def bm_SetBatch_def
          bm_GetBatch_def bm_ClearBatch_def bm_open_simps out_of_def)
    then show ?thesis using True False inv by (cases ctx) (simp_all add: bm_abs_def)
  next
    case open': False
    then have cl: "\<not> bm_closed b" "ctx = None" using open' by simp_all
    show ?thesis
    proof (cases op)
      case (OpSet i)
      then show ?thesis using bm_set_bit_spec [OF inv cl(1), of i] ok inv
        by (auto simp: bm_Set_def bm_open_simps cl out_of_def bm_abs_def split: if_splits)
    next
      case (OpClr i)
      then show ?thesis using bm_clear_bit_spec [OF inv cl(1), of i] inv
        by (auto simp: bm_Clear_def bm_open_simps cl out_of_def bm_abs_def split: if_splits)
    next
      case (OpSetBatch "is")
      then show ?thesis using bm_set_loop_spec [OF inv cl(1), of "is"] ok
        by (auto simp: bm_SetBatch_def bm_open_simps cl out_of_def bm_abs_def)
    next
      case (OpClearBatch "is")
      then show ?thesis using bm_clear_loop_spec [OF inv cl(1), of "is"]
        by (auto simp: bm_ClearBatch_def bm_open_simps cl out_of_def bm_abs_def)
    qed (use False inv in \<open>auto simp: bm_Get_def bm_Count_def bm_Reset_def bm_GetBatch_def bm_open_simps cl
        out_of_def bm_abs_def bm_get_bit_spec bm_get_loop_spec bm_count_spec bm_inv_def bm_range_def [abs_def]\<close>)
  qed
qed


fun bm_run :: "(ctx \<times> bm_op) list \<Rightarrow> bm \<Rightarrow> (bitmap_error + bm_out) list \<times> bm" where
  "bm_run [] b = ([], b)"
| "bm_run (p # ps) b = (case bm_step p b of (r, b') \<Rightarrow> map_prod ((#) r) id (bm_run ps b'))"

fun set_run :: "(uint64 \<Rightarrow> bool) \<Rightarrow> (ctx \<times> bm_op) list \<Rightarrow> nat set option \<Rightarrow>
    (bitmap_error + bm_out) list \<times> nat set option" where
  "set_run ok [] S = ([], S)"
| "set_run ok (p # ps) S = (case set_step ok p S of (r, S') \<Rightarrow> map_prod ((#) r) id (set_run ok ps S'))"

lemma bm_run_refines:
  assumes "bm_inv b" "bm_fixed b \<or> (\<forall>(ctx, op) \<in> set ps. list_all no_wrap (op_offsets op))"
  shows "fst (bm_run ps b) = fst (set_run (bm_range b) ps (bm_abs b)) \<and>
    bm_abs (snd (bm_run ps b)) = snd (set_run (bm_range b) ps (bm_abs b))"
  using assms
proof (induction ps arbitrary: b)
  case (Cons p ps)
  obtain ctx op where p: "p = (ctx, op)" by (cases p)
  have "bm_fixed b \<or> list_all no_wrap (op_offsets op)" using Cons.prems(2) p by auto
  from bm_step_refines [OF Cons.prems(1) this, of ctx] obtain b1 where
    b1: "bm_step p b = (fst (set_step (bm_range b) p (bm_abs b)), b1)"
      "bm_abs b1 = snd (set_step (bm_range b) p (bm_abs b))"
      "bm_inv b1" "bm_range b1 = bm_range b" "bm_fixed b1 = bm_fixed b" unfolding p by blast
  have "fst (bm_run ps b1) = fst (set_run (bm_range b) ps (bm_abs b1)) \<and>
      bm_abs (snd (bm_run ps b1)) = snd (set_run (bm_range b) ps (bm_abs b1))"
    using Cons.IH [OF b1(3)] Cons.prems(2) b1 by auto
  then show ?case by (simp add: b1 split: prod.split)
qed simp

lemma bm_New_inv:
  assumes "bm_New opts = Inr b" "bm_fixed b \<longrightarrow> unat (bm_capacity b) \<le> 2 ^ 64 - 8"
  shows "bm_inv b \<and> bm_abs b = Some {}"
proof -
  let ?c = "bm_applyOptions opts"
  have b: "b = \<lparr>bm_bits = (if cfg_capacity ?c > 0 then replicate (bitsToBytes (cfg_capacity ?c)) 0 else []),
      bm_capacity = cfg_capacity ?c, bm_fixed = cfg_fixed ?c, bm_closed = False\<rparr>"
    using assms(1) by (simp add: bm_New_def Let_def split: option.splits split del: if_split)
  have "unat (cfg_capacity ?c) \<le> 8 * bitsToBytes (cfg_capacity ?c)" if "cfg_fixed ?c"
    using assms(2) that by (intro bitsToBytes_enough) (simp add: b)
  then show ?thesis by (auto simp: b bm_inv_def bm_abs_def word_gt_0)
qed

section \<open>Snapshots\<close>

definition bm_snapshot :: "bm \<Rightarrow> byte list" where
  "bm_snapshot b = snapshotMagic @ bm_header b @ bm_bits b"

text \<open>A buffer accepts every write.\<close>

definition buf_write :: "byte list writer" where
  "buf_write p s = ((length p, None), s @ p)"

lemma length_header [simp]: "length (bm_header b) = 17"
  by (simp add: bm_header_def)

lemma length_magic [simp]: "length snapshotMagic = 4"
  by (simp add: snapshotMagic_def)

lemma header_fields:
  "hd (bm_header b) = (if bm_fixed b then 1 else 0)"
  "Uint64 (take 8 (drop 1 (bm_header b))) = bm_capacity b"
  "Uint64 (take 8 (drop 9 (bm_header b))) = word_of_nat (length (bm_bits b))"
  by (simp_all add: bm_header_def)

lemma ReadFull_append: "length xs = n \<Longrightarrow> ReadFull n \<lparr>rd_data = xs @ ys, rd_err = e\<rparr> = ((n, Inr xs), \<lparr>rd_data = ys, rd_err = e\<rparr>)"
  by (simp add: ReadFull_def)

lemma ReadFull_short:
  "length xs < n \<Longrightarrow> ReadFull n \<lparr>rd_data = xs, rd_err = BmEOF\<rparr> =
     ((length xs, Inl (if xs = [] then BmEOF else BmErrUnexpectedEOF)), \<lparr>rd_data = [], rd_err = BmEOF\<rparr>)"
  by (simp add: ReadFull_def)

lemma ReadFrom_snapshot:
  assumes "\<not> bm_closed c" and len: "length (bm_bits b) < 2 ^ 63"
  shows "bm_ReadFrom \<lparr>rd_data = bm_snapshot b @ rest, rd_err = e\<rparr> c =
    ((21 + length (bm_bits b), None), \<lparr>rd_data = rest, rd_err = e\<rparr>,
     c\<lparr>bm_bits := bm_bits b, bm_capacity := bm_capacity b, bm_fixed := bm_fixed b\<rparr>)"
proof -
  have n: "unat (word_of_nat (length (bm_bits b)) :: uint64) = length (bm_bits b)"
    using len by (simp add: unsigned_of_nat take_bit_nat_eq_self)
  then have small: "\<not> (word_of_nat (length (bm_bits b)) :: uint64) \<ge> 2 ^ 63"
    using len by (simp add: word_le_nat_alt)
  have pos: "(word_of_nat (length (bm_bits b)) :: uint64) > 0 \<longleftrightarrow> bm_bits b \<noteq> []"
    using n by (simp add: word_less_nat_alt)
  have hd: "bm_header b ! 0 = 1 \<longleftrightarrow> bm_fixed b" by (simp add: bm_header_def)
  show ?thesis
    using assms(1) n small pos hd
    by (cases "bm_bits b = []")
      (simp_all add: bm_ReadFrom_def bm_snapshot_def ReadFull_append header_fields [simplified] Let_def)
qed

lemma ReadFrom_truncated:
  assumes "\<not> bm_closed c" and len: "length (bm_bits b) < 2 ^ 63" and k: "k < 21 + length (bm_bits b)"
  shows "\<exists>err \<in> {BmEOF, BmErrUnexpectedEOF}.
    bm_ReadFrom \<lparr>rd_data = take k (bm_snapshot b), rd_err = BmEOF\<rparr> c = ((k, Some err), \<lparr>rd_data = [], rd_err = BmEOF\<rparr>, c)"
proof -
  have n: "unat (word_of_nat (length (bm_bits b)) :: uint64) = length (bm_bits b)"
    using len by (simp add: unsigned_of_nat take_bit_nat_eq_self)
  then have small: "\<not> (word_of_nat (length (bm_bits b)) :: uint64) \<ge> 2 ^ 63"
    using len by (simp add: word_le_nat_alt)
  consider "k < 4" | "4 \<le> k" "k < 21" | "21 \<le> k" by linarith
  then show ?thesis
  proof cases
    case 1
    then show ?thesis using assms(1) by (simp add: bm_ReadFrom_def bm_snapshot_def ReadFull_short)
  next
    case 2
    then have "take k (bm_snapshot b) = snapshotMagic @ take (k - 4) (bm_header b)" by (simp add: bm_snapshot_def)
    then show ?thesis using 2 assms(1) by (simp add: bm_ReadFrom_def ReadFull_append ReadFull_short)
  next
    case 3
    then have t: "take k (bm_snapshot b) = snapshotMagic @ bm_header b @ take (k - 21) (bm_bits b)"
      by (simp add: bm_snapshot_def)
    have "bm_bits b \<noteq> []" using 3 k by auto
    then have pos: "(word_of_nat (length (bm_bits b)) :: uint64) > 0" using n by (simp add: word_less_nat_alt)
    have "length (take (k - 21) (bm_bits b)) < length (bm_bits b)" using 3 k by auto
    then show ?thesis
      using 3 k assms(1) small pos n
      by (simp add: bm_ReadFrom_def t ReadFull_append ReadFull_short header_fields [simplified] Let_def)
  qed
qed

section \<open>Properties\<close>

text \<open>
  C22. A bitmap built by \<open>New\<close> behaves as a set of positions under any sequence of operations,
  cancelled contexts, batches that fail midway and \<open>Close\<close> included: every call returns what the
  set answers (\<open>Count\<close> its cardinality, a position at or beyond a fixed capacity the range
  error), and the bits set are the set's elements. Two sizes are excluded: a fixed capacity and,
  without one, an offset within 8 of \<open>2^64\<close>, where the computation of the size in bytes wraps.
\<close>

theorem bitmap_refines_set:
  assumes "bm_New opts = Inr b"
    and "bm_fixed b \<longrightarrow> unat (bm_capacity b) \<le> 2 ^ 64 - 8"
    and "bm_fixed b \<or> (\<forall>(ctx, op) \<in> set ps. list_all no_wrap (op_offsets op))"
  shows "fst (bm_run ps b) = fst (set_run (bm_range b) ps (Some {})) \<and>
    bm_abs (snd (bm_run ps b)) = snd (set_run (bm_range b) ps (Some {}))"
  using bm_run_refines [OF _ assms(3)] bm_New_inv [OF assms(1,2)] by simp

text \<open>
  \<open>ReadFrom\<close> restores what \<open>WriteTo\<close> wrote, whatever the receiving bitmap held, counts the
  bytes it consumed and leaves the rest of the stream; a stream cut anywhere before the end of
  the snapshot is refused with an end-of-file error and the receiving bitmap unchanged.
\<close>

lemma bitmap_snapshot_roundtrip:
  assumes "\<not> bm_closed b" and "\<not> bm_closed c" and "length (bm_bits b) < 2 ^ 63"
  shows "bm_WriteTo buf_write b [] = ((21 + length (bm_bits b), None), bm_snapshot b) \<and>
    bm_ReadFrom \<lparr>rd_data = bm_snapshot b @ rest, rd_err = e\<rparr> c =
      ((21 + length (bm_bits b), None), \<lparr>rd_data = rest, rd_err = e\<rparr>, b\<lparr>bm_closed := False\<rparr>) \<and>
    (\<forall>k < 21 + length (bm_bits b). \<exists>err \<in> {BmEOF, BmErrUnexpectedEOF}.
       bm_ReadFrom \<lparr>rd_data = take k (bm_snapshot b), rd_err = BmEOF\<rparr> c =
         ((k, Some err), \<lparr>rd_data = [], rd_err = BmEOF\<rparr>, c))"
proof (intro conjI allI impI)
  show "bm_WriteTo buf_write b [] = ((21 + length (bm_bits b), None), bm_snapshot b)"
    using assms(1) by (simp add: bm_WriteTo_def buf_write_def bm_snapshot_def)
  have "c\<lparr>bm_bits := bm_bits b, bm_capacity := bm_capacity b, bm_fixed := bm_fixed b\<rparr> = b\<lparr>bm_closed := False\<rparr>"
    using assms by simp
  then show "bm_ReadFrom \<lparr>rd_data = bm_snapshot b @ rest, rd_err = e\<rparr> c =
      ((21 + length (bm_bits b), None), \<lparr>rd_data = rest, rd_err = e\<rparr>, b\<lparr>bm_closed := False\<rparr>)"
    by (simp add: ReadFrom_snapshot [OF assms(2,3)])
qed (rule ReadFrom_truncated [OF assms(2,3)])


section \<open>Witnesses\<close>

definition sample_bm :: bm where
  "sample_bm = \<lparr>bm_bits = [0, 0], bm_capacity = 10, bm_fixed = True, bm_closed = False\<rparr>"

lemma sample_bm_New: "bm_New [Some (bm_WithFixed 10)] = Inr sample_bm"
proof -
  have "bitsToBytes 10 = Suc (Suc 0)" by (simp add: bitsToBytes_def)
  then show ?thesis
    by (simp add: bm_New_def bm_applyOptions_def bm_WithFixed_def bm_validate_def sample_bm_def Let_def)
qed

theorem bitmap_refines_set_witness:
  "fst (bm_run [(None, OpSet 3), (None, OpGet 3), (None, OpSetBatch [9, 10, 4]), (None, OpGet 4), (None, OpClose),
      (None, OpCount)] sample_bm) =
    [Inr OutUnit, Inr (OutBool True), Inl BmErrOffsetOutOfRange, Inr (OutBool False), Inr OutUnit, Inl BmErrClosed]"
  using bitmap_refines_set [OF sample_bm_New, of "[(None, OpSet 3), (None, OpGet 3), (None, OpSetBatch [9, 10, 4]),
      (None, OpGet 4), (None, OpClose), (None, OpCount)]"]
  by (simp add: bm_range_def sample_bm_def)

lemma bitmap_snapshot_roundtrip_witness:
  "bm_ReadFrom \<lparr>rd_data = bm_snapshot sample_bm @ [7], rd_err = BmEOF\<rparr> (sample_bm\<lparr>bm_bits := [255]\<rparr>) =
     ((23, None), \<lparr>rd_data = [7], rd_err = BmEOF\<rparr>, sample_bm)"
  using bitmap_snapshot_roundtrip [of sample_bm "sample_bm\<lparr>bm_bits := [255]\<rparr>" "[7]" BmEOF]
  by (simp add: sample_bm_def)

section \<open>Sizes that wrap and snapshots that lie\<close>

lemma bitmap_last_offsets_panic:
  "fst (bm_Set None 0xFFFFFFFFFFFFFFFF \<lparr>bm_bits = [], bm_capacity = 0, bm_fixed = False, bm_closed = False\<rparr>) =
    Inl BmPanic"
  by (simp add: bm_Set_def bm_open_simps bm_set_bit_def ensureLocked_def bitsToBytes_def)

lemma bitmap_crafted_snapshot_panics:
  "(case bm_ReadFrom \<lparr>rd_data = snapshotMagic @ [1] @ PutUint64 8 @ PutUint64 0, rd_err = BmEOF\<rparr> sample_bm of
      ((_, err), _, b) \<Rightarrow> err = None \<and> fst (bm_Set None 0 b) = Inl BmPanic)"
proof -
  let ?b = "\<lparr>bm_bits = [], bm_capacity = 8, bm_fixed = True, bm_closed = False\<rparr>"
  have "bm_snapshot ?b @ [] = snapshotMagic @ [1] @ PutUint64 8 @ PutUint64 0"
    by (simp add: bm_snapshot_def bm_header_def)
  moreover have "fst (bm_Set None 0 ?b) = Inl BmPanic" by code_simp
  ultimately show ?thesis
    using ReadFrom_snapshot [of sample_bm ?b "[]" BmEOF] by (simp add: sample_bm_def)
qed

end
