(* ===== verification/Bloom.thy ===== *)
theory Bloom
  imports BitBytes
begin

text \<open>
  The packages \<open>common/bloom\<close> (files \<open>bloom.go\<close>, \<open>hash.go\<close>, \<open>params.go\<close>) and
  \<open>common/bloom/memory\<close>: double hashing over FNV-1a and the filter over a bit array. A filter's
  method is one step, as it holds the mutex. The contract the filters of these packages share is
  the locale \<open>membership_filter\<close>, interpreted here on the memory filter and in \<open>CountingBloom\<close> on
  the counting filter. The estimate of the geometry from a false-positive rate is floating-point
  and not modelled, so filters are built from their parameters.
\<close>

unbundle bit_operations_syntax

datatype bloom_error =
    BlErrNotFound
  | BlErrClosed
  | BlErrInvalidCapacity
  | BlErrInvalidFalsePositiveRate
  | BlErrEmptyKey
  | BlErrNotSupported
  | BlCtx ctx_err
  | BlPanic

section \<open>Hashing\<close>

text \<open>FNV-1a of 64 bits, as \<open>hash/fnv\<close> computes it.\<close>

definition fnv_Write :: "byte list \<Rightarrow> uint64 \<Rightarrow> uint64" where
  "fnv_Write data h = foldl (\<lambda>h b. (h XOR ucast b) * 1099511628211) h data"

definition fnv_New64a :: uint64 where
  "fnv_New64a = 14695981039346656037"

definition string_bytes :: "string \<Rightarrow> byte list" where
  "string_bytes s = map (\<lambda>c. word_of_nat (of_char c)) s"

definition doubleHash :: "string \<Rightarrow> uint64 \<times> uint64" where
  "doubleHash key =
     (let h1 = fnv_Write (string_bytes key) fnv_New64a;
          h2 = fnv_Write (string_bytes key) (fnv_Write [0x5a, 0xc3, 0x91, 0xd7] fnv_New64a)
      in (h1, if h2 = 0 then 0x9e3779b97f4a7c15 else h2))"

definition Indices :: "string \<Rightarrow> uint64 \<Rightarrow> uint64 \<Rightarrow> uint64 list" where
  "Indices key m k =
     (case doubleHash key of (h1, h2) \<Rightarrow> map (\<lambda>i. (h1 + word_of_nat i * h2) mod m) [0..<unat k])"

record Params =
  par_M :: uint64
  par_K :: uint64

definition BitsToBytes :: "uint64 \<Rightarrow> uint64" where
  "BitsToBytes m = (m + 7) div 8"

lemma Indices_bound: "m > 0 \<Longrightarrow> i \<in> set (Indices key m k) \<Longrightarrow> i < m"
  by (auto simp: Indices_def word_mod_less_divisor split: prod.splits)

lemma length_Indices [simp]: "length (Indices key m k) = unat k"
  by (simp add: Indices_def split: prod.splits)

text \<open>The second hash never collapses the positions.\<close>

lemma doubleHash_nonzero: "snd (doubleHash key) \<noteq> 0"
  by (simp add: doubleHash_def Let_def)

section \<open>The contract of a filter\<close>

text \<open>
  What a client of a filter needs: after \<open>add k\<close> the test of \<open>k\<close> is positive, and no later
  \<open>add\<close> makes a positive test negative.
\<close>

locale membership_filter =
  fixes add :: "'k \<Rightarrow> 's \<Rightarrow> 's"
    and test :: "'k \<Rightarrow> 's \<Rightarrow> bool"
    and inv :: "'s \<Rightarrow> bool"
  assumes add_inv: "inv s \<Longrightarrow> inv (add k s)"
    and add_test: "inv s \<Longrightarrow> test k (add k s)"
    and add_keeps: "inv s \<Longrightarrow> test k s \<Longrightarrow> test k (add j s)"
begin

lemma fold_inv: "inv s \<Longrightarrow> inv (fold add ks s)"
  by (induction ks arbitrary: s) (simp_all add: add_inv)

lemma fold_keeps: "inv s \<Longrightarrow> test k s \<Longrightarrow> test k (fold add ks s)"
  by (induction ks arbitrary: s) (simp_all add: add_inv add_keeps)

lemma no_false_negative: "inv s \<Longrightarrow> k \<in> set ks \<Longrightarrow> test k (fold add ks s)"
  by (induction ks arbitrary: s) (auto simp: add_inv add_test fold_keeps)

end

section \<open>The memory filter\<close>

record bf =
  bf_bits :: "byte list"
  bf_m :: uint64
  bf_k :: uint64
  bf_closed :: bool

record bf_config =
  bf_cfg_m :: uint64
  bf_cfg_k :: uint64

type_synonym bf_Option = "bf_config \<Rightarrow> bf_config"

definition bf_applyOptions :: "bf_Option option list \<Rightarrow> bf_config" where
  "bf_applyOptions opts =
     fold (\<lambda>opt cfg. case opt of None \<Rightarrow> cfg | Some f \<Rightarrow> f cfg) opts \<lparr>bf_cfg_m = 0, bf_cfg_k = 0\<rparr>"

definition bf_WithParams :: "Params \<Rightarrow> bf_Option" where
  "bf_WithParams p c = c\<lparr>bf_cfg_m := par_M p, bf_cfg_k := par_K p\<rparr>"

definition bf_New :: "bf_Option option list \<Rightarrow> bloom_error + bf" where
  "bf_New opts =
     (let cfg = bf_applyOptions opts in
      if bf_cfg_m cfg = 0 then Inl BlErrInvalidCapacity
      else if bf_cfg_k cfg = 0 then Inl BlErrInvalidFalsePositiveRate
      else Inr \<lparr>bf_bits = replicate (unat (BitsToBytes (bf_cfg_m cfg))) 0, bf_m = bf_cfg_m cfg,
                bf_k = bf_cfg_k cfg, bf_closed = False\<rparr>)"

definition bloom_check :: "ctx \<Rightarrow> string \<Rightarrow> bloom_error option" where
  "bloom_check ctx key =
     (case ctx of Some e \<Rightarrow> Some (BlCtx e) | None \<Rightarrow> if key = [] then Some BlErrEmptyKey else None)"

text \<open>Both loops panic at a position beyond the slice.\<close>

fun bf_setLocked :: "uint64 list \<Rightarrow> byte list \<Rightarrow> (bloom_error + unit) \<times> byte list" where
  "bf_setLocked [] bs = (Inr (), bs)"
| "bf_setLocked (i # is) bs =
     (if byte_idx i < length bs then bf_setLocked is (bytes_set bs i) else (Inl BlPanic, bs))"

fun bf_testLocked :: "uint64 list \<Rightarrow> byte list \<Rightarrow> bloom_error + bool" where
  "bf_testLocked [] bs = Inr True"
| "bf_testLocked (i # is) bs =
     (if byte_idx i < length bs then if bytes_test bs i then bf_testLocked is bs else Inr False
      else Inl BlPanic)"

definition bf_Add :: "ctx \<Rightarrow> string \<Rightarrow> bf \<Rightarrow> (bloom_error + unit) \<times> bf" where
  "bf_Add ctx key f =
     (case bloom_check ctx key of
        Some e \<Rightarrow> (Inl e, f)
      | None \<Rightarrow>
          if bf_closed f then (Inl BlErrClosed, f)
          else (case bf_setLocked (Indices key (bf_m f) (bf_k f)) (bf_bits f) of
                  (r, bs) \<Rightarrow> (r, f\<lparr>bf_bits := bs\<rparr>)))"

definition bf_Test :: "ctx \<Rightarrow> string \<Rightarrow> bf \<Rightarrow> bloom_error + bool" where
  "bf_Test ctx key f =
     (case bloom_check ctx key of
        Some e \<Rightarrow> Inl e
      | None \<Rightarrow>
          if bf_closed f then Inl BlErrClosed
          else bf_testLocked (Indices key (bf_m f) (bf_k f)) (bf_bits f))"

definition bf_Reset :: "ctx \<Rightarrow> bf \<Rightarrow> (bloom_error + unit) \<times> bf" where
  "bf_Reset ctx f =
     (case ctx of
        Some e \<Rightarrow> (Inl (BlCtx e), f)
      | None \<Rightarrow> if bf_closed f then (Inl BlErrClosed, f)
                else (Inr (), f\<lparr>bf_bits := replicate (length (bf_bits f)) 0\<rparr>))"

definition bf_Close :: "bf \<Rightarrow> bf" where
  "bf_Close f = (if bf_closed f then f else f\<lparr>bf_closed := True, bf_bits := []\<rparr>)"

section \<open>The bits of a filter\<close>

text \<open>An open filter with a byte for every position below \<open>m\<close>.\<close>

definition bf_inv :: "bf \<Rightarrow> bool" where
  "bf_inv f \<longleftrightarrow> \<not> bf_closed f \<and> bf_m f > 0 \<and> unat (bf_m f) \<le> 8 * length (bf_bits f)"

lemma bf_inv_idx:
  assumes "bf_inv f" "i \<in> set (Indices key (bf_m f) k)"
  shows "byte_idx i < length (bf_bits f)"
proof -
  have "unat i < unat (bf_m f)" using Indices_bound assms by (auto simp: bf_inv_def word_less_nat_alt)
  then have "unat i < length (bf_bits f) * 8" using assms(1) by (simp add: bf_inv_def)
  then show ?thesis by (simp add: byte_idx_div less_mult_imp_div_less)
qed

lemma bf_setLocked_bits:
  "\<forall>i \<in> set is. byte_idx i < length bs \<Longrightarrow>
     \<exists>bs'. bf_setLocked is bs = (Inr (), bs') \<and> length bs' = length bs \<and> bit_set bs' = bit_set bs \<union> unat ` set is"
proof (induction "is" arbitrary: bs)
  case (Cons i "is")
  then show ?case using Cons.IH [of "bytes_set bs i"] by (auto simp: bit_set_set)
qed simp

lemma bf_testLocked_bits:
  "\<forall>i \<in> set is. byte_idx i < length bs \<Longrightarrow> bf_testLocked is bs = Inr (unat ` set is \<subseteq> bit_set bs)"
  by (induction "is") (auto simp: bytes_test_iff)

definition positions :: "bf \<Rightarrow> string \<Rightarrow> nat set" where
  "positions f key = unat ` set (Indices key (bf_m f) (bf_k f))"

lemma bf_Add_bits:
  assumes "bf_inv f" "key \<noteq> []"
  shows "\<exists>f'. bf_Add None key f = (Inr (), f') \<and> bf_inv f' \<and> positions f' = positions f \<and>
    bit_set (bf_bits f') = bit_set (bf_bits f) \<union> positions f key"
proof -
  have "\<forall>i \<in> set (Indices key (bf_m f) (bf_k f)). byte_idx i < length (bf_bits f)"
    using bf_inv_idx [OF assms(1)] by blast
  from bf_setLocked_bits [OF this] show ?thesis
    using assms by (auto simp: bf_Add_def bloom_check_def bf_inv_def positions_def [abs_def])
qed

lemma bf_Test_bits:
  assumes "bf_inv f" "key \<noteq> []"
  shows "bf_Test None key f = Inr (positions f key \<subseteq> bit_set (bf_bits f))"
proof -
  have "\<forall>i \<in> set (Indices key (bf_m f) (bf_k f)). byte_idx i < length (bf_bits f)"
    using bf_inv_idx [OF assms(1)] by blast
  then show ?thesis
    using assms by (simp add: bf_Test_def bloom_check_def bf_inv_def positions_def bf_testLocked_bits)
qed

text \<open>The memory filter keeps the contract, for the keys it accepts.\<close>

definition bf_add_key :: "string \<Rightarrow> bf \<Rightarrow> bf" where
  "bf_add_key key f = snd (bf_Add None key f)"

definition bf_has_key :: "string \<Rightarrow> bf \<Rightarrow> bool" where
  "bf_has_key key f \<longleftrightarrow> key = [] \<or> bf_Test None key f = Inr True"

lemma bf_Add_empty: "bf_Add ctx [] f = (Inl (case ctx of Some e \<Rightarrow> BlCtx e | None \<Rightarrow> BlErrEmptyKey), f)"
  by (simp add: bf_Add_def bloom_check_def split: option.splits)

interpretation bfm: membership_filter bf_add_key bf_has_key bf_inv
proof
  fix f k j
  assume inv: "bf_inv f"
  have add: "bf_inv (bf_add_key k f) \<and> positions (bf_add_key k f) = positions f \<and>
      bit_set (bf_bits (bf_add_key k f)) = bit_set (bf_bits f) \<union> (if k = [] then {} else positions f k)" for k
    using bf_Add_bits [OF inv, of k] inv by (cases "k = []") (auto simp: bf_add_key_def bf_Add_empty)
  then show "bf_inv (bf_add_key k f)" by blast
  show "bf_has_key k (bf_add_key k f)"
  proof (cases "k = []")
    case False
    with add [of k] have "bf_Test None k (bf_add_key k f) = Inr True"
      by (subst bf_Test_bits) auto
    then show ?thesis by (simp add: bf_has_key_def)
  qed (simp add: bf_has_key_def)
  show "bf_has_key k (bf_add_key j f)" if "bf_has_key k f"
  proof (cases "k = []")
    case False
    with that have "positions f k \<subseteq> bit_set (bf_bits f)" by (simp add: bf_has_key_def bf_Test_bits [OF inv])
    with False add [of j] have "bf_Test None k (bf_add_key j f) = Inr True"
      by (subst bf_Test_bits) auto
    then show ?thesis by (simp add: bf_has_key_def)
  qed (simp add: bf_has_key_def)
qed

lemma bf_adds_present:
  "bf_inv f \<Longrightarrow> k \<in> set ks \<Longrightarrow> k \<noteq> [] \<Longrightarrow> bf_Test None k (fold bf_add_key ks f) = Inr True"
  using bfm.no_false_negative [of f k ks] by (simp add: bf_has_key_def)

lemma BitsToBytes_enough:
  assumes "unat m \<le> 2 ^ 64 - 8"
  shows "unat m \<le> 8 * unat (BitsToBytes m)"
proof -
  have "unat (m + 7) = unat m + 7"
    using assms by (subst unat_plus_if_size) (simp add: word_size)
  then show ?thesis by (simp add: BitsToBytes_def unat_div)
qed

lemma bf_New_inv:
  assumes "bf_New opts = Inr f" "unat (bf_m f) \<le> 2 ^ 64 - 8"
  shows "bf_inv f \<and> bit_set (bf_bits f) = {}"
  using assms BitsToBytes_enough [of "bf_m f"]
  by (auto simp: bf_New_def Let_def bf_inv_def word_gt_0 split: if_splits)

text \<open>A history of calls that change a filter, and the keys it holds since the last reset.\<close>

datatype bf_op = BAdd ctx string | BReset ctx

fun bf_apply :: "bf_op \<Rightarrow> bf \<Rightarrow> bf" where
  "bf_apply (BAdd ctx key) f = snd (bf_Add ctx key f)"
| "bf_apply (BReset ctx) f = snd (bf_Reset ctx f)"

fun keys_apply :: "bf_op \<Rightarrow> string set \<Rightarrow> string set" where
  "keys_apply (BAdd ctx key) K = (if ctx = None \<and> key \<noteq> [] then insert key K else K)"
| "keys_apply (BReset ctx) K = (if ctx = None then {} else K)"

lemma bf_apply_bits:
  assumes "bf_inv f" "bit_set (bf_bits f) = \<Union> (positions f ` K)"
  shows "bf_inv (bf_apply p f) \<and> positions (bf_apply p f) = positions f \<and>
    bit_set (bf_bits (bf_apply p f)) = \<Union> (positions f ` keys_apply p K)"
proof (cases p)
  case (BAdd ctx key)
  show ?thesis
  proof (cases "ctx = None \<and> key \<noteq> []")
    case True
    then show ?thesis using BAdd bf_Add_bits [OF assms(1), of key] assms(2) by auto
  next
    case False
    then have "bf_apply p f = f" using BAdd by (auto simp: bf_Add_def bloom_check_def split: option.splits)
    then show ?thesis using False BAdd assms by auto
  qed
next
  case (BReset ctx)
  then show ?thesis
    using assms by (cases ctx) (auto simp: bf_Reset_def bf_inv_def positions_def [abs_def])
qed

lemma bf_run_bits:
  "bf_inv f \<Longrightarrow> bit_set (bf_bits f) = \<Union> (positions f ` K) \<Longrightarrow>
     bf_inv (fold bf_apply ops f) \<and> positions (fold bf_apply ops f) = positions f \<and>
     bit_set (bf_bits (fold bf_apply ops f)) = \<Union> (positions f ` fold keys_apply ops K)"
proof (induction ops arbitrary: f K)
  case (Cons p ops)
  from bf_apply_bits [OF Cons.prems, of p] show ?case
    using Cons.IH [of "bf_apply p f" "keys_apply p K"] by simp
qed simp

section \<open>Properties\<close>

text \<open>
  C23. A memory filter answers exactly what its bits allow: after any history of additions and
  resets, a key tests positive if and only if each of its positions is a position of a key added
  since the last reset. So a key that was added is never reported absent, and an empty filter
  reports every key absent. (The number of bits is at most \<open>2^64 - 8\<close>: beyond it the size in bytes
  wraps.)
\<close>

theorem bloom_test_exact:
  assumes "bf_New opts = Inr f" and "unat (bf_m f) \<le> 2 ^ 64 - 8" and "key \<noteq> []"
  shows "bf_Test None key (fold bf_apply ops f) =
      Inr (positions f key \<subseteq> \<Union> (positions f ` fold keys_apply ops {})) \<and>
    (key \<in> fold keys_apply ops {} \<longrightarrow> bf_Test None key (fold bf_apply ops f) = Inr True)"
proof -
  have inv: "bf_inv f" "bit_set (bf_bits f) = {}" using bf_New_inv [OF assms(1,2)] by blast+
  have run: "bf_inv (fold bf_apply ops f)" "positions (fold bf_apply ops f) = positions f"
    "bit_set (bf_bits (fold bf_apply ops f)) = \<Union> (positions f ` fold keys_apply ops {})"
    using bf_run_bits [OF inv(1), of "{}" ops] inv(2) by auto
  show ?thesis unfolding bf_Test_bits [OF run(1) assms(3)] run(2,3) by auto
qed

definition sample_bf :: bf where
  "sample_bf = \<lparr>bf_bits = [0, 0], bf_m = 16, bf_k = 2, bf_closed = False\<rparr>"

lemma sample_bf_New: "bf_New [Some (bf_WithParams \<lparr>par_M = 16, par_K = 2\<rparr>)] = Inr sample_bf"
proof -
  have "unat (BitsToBytes 16) = Suc (Suc 0)" by (simp add: BitsToBytes_def)
  then show ?thesis
    by (simp add: bf_New_def bf_applyOptions_def bf_WithParams_def sample_bf_def Let_def)
qed

theorem bloom_test_exact_witness:
  "bf_Test None ''a'' (fold bf_apply [BAdd None ''b'', BReset None, BAdd None ''a'', BAdd None ''c''] sample_bf) = Inr True"
  using bloom_test_exact [OF sample_bf_New, of "''a''" "[BAdd None ''b'', BReset None, BAdd None ''a'', BAdd None ''c'']"]
  by (simp add: sample_bf_def)

end
