(* ===== verification/CountingBloom.thy ===== *)
theory CountingBloom
  imports Bloom
begin

text \<open>
  The package \<open>common/bloom/counting\<close>: the filter with 4-bit saturating counters, two to a byte,
  which supports removal. Its abstraction is the function from a cell to its count; while no cell
  saturates, the counts are the load of the multiset of the keys in the filter.
\<close>

unbundle bit_operations_syntax

definition MaxCounter :: byte where
  "MaxCounter = 15"

record cf =
  cf_counts :: "byte list"
  cf_m :: uint64
  cf_k :: uint64
  cf_closed :: bool

definition cf_New :: "bf_Option option list \<Rightarrow> bloom_error + cf" where
  "cf_New opts =
     (let cfg = bf_applyOptions opts in
      if bf_cfg_m cfg = 0 then Inl BlErrInvalidCapacity
      else if bf_cfg_k cfg = 0 then Inl BlErrInvalidFalsePositiveRate
      else Inr \<lparr>cf_counts = replicate (unat ((bf_cfg_m cfg + 1) div 2)) 0, cf_m = bf_cfg_m cfg,
                cf_k = bf_cfg_k cfg, cf_closed = False\<rparr>)"

text \<open>The position of a cell's byte; the callers panic if it is beyond the slice.\<close>

definition cell_idx :: "uint64 \<Rightarrow> nat" where
  "cell_idx i = unat (drop_bit 1 i)"

definition cf_getLocked :: "byte list \<Rightarrow> uint64 \<Rightarrow> byte" where
  "cf_getLocked cs i =
     (let b = cs ! cell_idx i in if i AND 1 = 0 then b AND 0x0f else drop_bit 4 b)"

definition cf_setLocked :: "byte list \<Rightarrow> uint64 \<Rightarrow> byte \<Rightarrow> byte list" where
  "cf_setLocked cs i x =
     (let v = (if x > MaxCounter then MaxCounter else x); pos = cell_idx i in
      if i AND 1 = 0 then cs[pos := ((cs ! pos) AND 0xf0) OR v]
      else cs[pos := ((cs ! pos) AND 0x0f) OR push_bit 4 v])"

definition cf_addLocked :: "uint64 \<Rightarrow> byte list \<Rightarrow> byte list" where
  "cf_addLocked i cs =
     (let v = cf_getLocked cs i in if v < MaxCounter then cf_setLocked cs i (v + 1) else cs)"

definition cf_subLocked :: "uint64 \<Rightarrow> byte list \<Rightarrow> byte list" where
  "cf_subLocked i cs =
     (let v = cf_getLocked cs i in if v > 0 then cf_setLocked cs i (v - 1) else cs)"

fun cf_loop :: "(uint64 \<Rightarrow> byte list \<Rightarrow> byte list) \<Rightarrow> uint64 list \<Rightarrow> byte list \<Rightarrow> (bloom_error + unit) \<times> byte list" where
  "cf_loop upd [] cs = (Inr (), cs)"
| "cf_loop upd (i # is) cs =
     (if cell_idx i < length cs then cf_loop upd is (upd i cs) else (Inl BlPanic, cs))"

fun cf_test_loop :: "uint64 list \<Rightarrow> byte list \<Rightarrow> bloom_error + bool" where
  "cf_test_loop [] cs = Inr True"
| "cf_test_loop (i # is) cs =
     (if cell_idx i < length cs
      then if cf_getLocked cs i = 0 then Inr False else cf_test_loop is cs
      else Inl BlPanic)"

definition cf_update :: "(uint64 \<Rightarrow> byte list \<Rightarrow> byte list) \<Rightarrow> ctx \<Rightarrow> string \<Rightarrow> cf \<Rightarrow> (bloom_error + unit) \<times> cf" where
  "cf_update upd ctx key f =
     (case bloom_check ctx key of
        Some e \<Rightarrow> (Inl e, f)
      | None \<Rightarrow>
          if cf_closed f then (Inl BlErrClosed, f)
          else (case cf_loop upd (Indices key (cf_m f) (cf_k f)) (cf_counts f) of
                  (r, cs) \<Rightarrow> (r, f\<lparr>cf_counts := cs\<rparr>)))"

definition cf_Add :: "ctx \<Rightarrow> string \<Rightarrow> cf \<Rightarrow> (bloom_error + unit) \<times> cf" where
  "cf_Add = cf_update cf_addLocked"

definition cf_Remove :: "ctx \<Rightarrow> string \<Rightarrow> cf \<Rightarrow> (bloom_error + unit) \<times> cf" where
  "cf_Remove = cf_update cf_subLocked"

definition cf_Test :: "ctx \<Rightarrow> string \<Rightarrow> cf \<Rightarrow> bloom_error + bool" where
  "cf_Test ctx key f =
     (case bloom_check ctx key of
        Some e \<Rightarrow> Inl e
      | None \<Rightarrow>
          if cf_closed f then Inl BlErrClosed
          else cf_test_loop (Indices key (cf_m f) (cf_k f)) (cf_counts f))"

definition cf_Reset :: "ctx \<Rightarrow> cf \<Rightarrow> (bloom_error + unit) \<times> cf" where
  "cf_Reset ctx f =
     (case ctx of
        Some e \<Rightarrow> (Inl (BlCtx e), f)
      | None \<Rightarrow> if cf_closed f then (Inl BlErrClosed, f)
                else (Inr (), f\<lparr>cf_counts := replicate (length (cf_counts f)) 0\<rparr>))"

definition cf_Close :: "cf \<Rightarrow> cf" where
  "cf_Close f = (if cf_closed f then f else f\<lparr>cf_closed := True, cf_counts := []\<rparr>)"

section \<open>The counters\<close>

text \<open>The two halves of a byte are independent.\<close>

lemma low_nibble: "bit (0x0f :: byte) n \<longleftrightarrow> n < 4"
proof -
  have eq: "(0x0f :: byte) = mask 4" by (simp add: mask_eq_exp_minus_1)
  show ?thesis unfolding eq by (auto simp: bit_mask_iff)
qed

lemma high_nibble: "n < 8 \<Longrightarrow> bit (0xf0 :: byte) n \<longleftrightarrow> 4 \<le> n"
proof -
  assume n: "n < 8"
  have eq: "(0xf0 :: byte) = push_bit 4 (mask 4)" by (simp add: mask_eq_exp_minus_1 push_bit_eq_mult)
  show ?thesis unfolding eq using n by (auto simp: bit_push_bit_iff bit_mask_iff)
qed

lemma small_bit: "v \<le> 15 \<Longrightarrow> n \<ge> 4 \<Longrightarrow> \<not> bit (v :: byte) n"
proof -
  assume v: "v \<le> 15" and n: "n \<ge> 4"
  have "unat (take_bit 4 v) = unat v"
    using v by (simp add: unsigned_take_bit_eq take_bit_nat_eq_self word_le_nat_alt)
  then have "take_bit 4 v = v" by (simp add: word_unat_eq_iff)
  then show ?thesis using n by (metis bit_take_bit_iff not_less)
qed

lemma nibble_facts:
  fixes b v :: byte
  assumes "v \<le> 15"
  shows "((b AND 0xf0) OR v) AND 0x0f = v" "drop_bit 4 ((b AND 0xf0) OR v) = drop_bit 4 b"
    "((b AND 0x0f) OR push_bit 4 v) AND 0x0f = b AND 0x0f" "drop_bit 4 ((b AND 0x0f) OR push_bit 4 v) = v"
proof -
  note bits = bit_and_iff bit_or_iff bit_drop_bit_eq bit_push_bit_iff low_nibble high_nibble
  have small: "\<not> bit v n" if "n \<ge> 4" for n using small_bit [OF assms that] .
  have long: "\<not> bit x n" if "n \<ge> 8" for x :: byte and n using that by (simp add: impossible_bit)
  show "((b AND 0xf0) OR v) AND 0x0f = v"
  proof (rule bit_word_eqI)
    fix n show "bit (((b AND 0xf0) OR v) AND 0x0f) n = bit v n"
      by (cases "n < 4") (use small [of n] in \<open>simp_all add: bits not_less del: bit_numeral_word_iff\<close>)
  qed
  show "drop_bit 4 ((b AND 0xf0) OR v) = drop_bit 4 b"
  proof (rule bit_word_eqI)
    fix n show "bit (drop_bit 4 ((b AND 0xf0) OR v)) n = bit (drop_bit 4 b) n"
      by (cases "4 + n < 8") (use small [of "4 + n"] long [of "4 + n"] in \<open>simp_all add: bits del: bit_numeral_word_iff\<close>)
  qed
  show "((b AND 0x0f) OR push_bit 4 v) AND 0x0f = b AND 0x0f"
    by (rule bit_word_eqI) (auto simp: bits simp del: bit_numeral_word_iff)
  show "drop_bit 4 ((b AND 0x0f) OR push_bit 4 v) = v"
  proof (rule bit_word_eqI)
    fix n show "bit (drop_bit 4 ((b AND 0x0f) OR push_bit 4 v)) n = bit v n"
      by (cases "4 + n < 8") (use small [of n] long [of "4 + n"] in \<open>auto simp: bits simp del: bit_numeral_word_iff\<close>)
  qed
qed

lemma even_cell: "i AND 1 = (0 :: uint64) \<longleftrightarrow> even (unat i)"
proof -
  have "i AND 1 = take_bit 1 i" by (simp add: take_bit_eq_mask mask_eq_exp_minus_1)
  then have "unat (i AND 1) = take_bit 1 (unat i)" by (simp only: unsigned_take_bit_eq)
  then have "unat (i AND 1) = unat i mod 2" by (simp add: take_bit_eq_mod)
  moreover have "i AND 1 = 0 \<longleftrightarrow> unat (i AND 1) = 0" by (simp add: word_unat_eq_iff)
  ultimately show ?thesis by presburger
qed

lemma cell_idx_div: "cell_idx i = unat i div 2"
  by (simp add: cell_idx_def unat_drop_bit_eq flip: drop_bit_eq_div) (simp add: drop_bit_eq_div)

text \<open>The count of cell \<open>n\<close>.\<close>

definition cell :: "byte list \<Rightarrow> nat \<Rightarrow> nat" where
  "cell cs n = (let b = cs ! (n div 2) in if even n then unat (b AND 0x0f) else unat (drop_bit 4 b))"

lemma getLocked_cell: "unat (cf_getLocked cs i) = cell cs (unat i)"
  by (simp add: cf_getLocked_def cell_def Let_def cell_idx_div even_cell)

lemma cell_le: "cell cs n \<le> 15"
proof -
  let ?b = "cs ! (n div 2)"
  have "unat (?b AND 0x0f) \<le> 15" using word_and_le1 [of ?b "0x0f"] by (simp add: word_le_nat_alt)
  moreover have "unat ?b < 2 ^ LENGTH(8)" by (rule unsigned_less)
  then have "unat (drop_bit 4 ?b) \<le> 15"
    by (simp add: drop_bit_eq_div unat_div)
  ultimately show ?thesis by (simp add: cell_def Let_def)
qed

lemma cell_setLocked:
  assumes "cell_idx i < length cs" "x \<le> 15"
  shows "cell (cf_setLocked cs i x) n = (if n = unat i then unat x else cell cs n)"
proof (cases "n div 2 = unat i div 2")
  case True
  have "n = unat i \<longleftrightarrow> (even n \<longleftrightarrow> even (unat i))"
    using True by (metis dvd_div_mult_self odd_two_times_div_two_succ)
  then show ?thesis
    using assms True nibble_facts [OF assms(2)]
    by (auto simp: cf_setLocked_def cell_def Let_def MaxCounter_def even_cell cell_idx_div not_le [symmetric])
next
  case False
  then show ?thesis by (auto simp: cf_setLocked_def cell_def Let_def cell_idx_div)
qed

lemma length_setLocked [simp]: "length (cf_setLocked cs i x) = length cs"
  by (simp add: cf_setLocked_def Let_def)

lemma addLocked_cell:
  assumes "cell_idx i < length cs"
  shows "cell (cf_addLocked i cs) = (cell cs)(unat i := min 15 (cell cs (unat i) + 1))"
proof (rule ext)
  fix n
  let ?v = "cf_getLocked cs i"
  have v: "?v < MaxCounter \<longleftrightarrow> cell cs (unat i) < 15"
    by (simp add: word_less_nat_alt getLocked_cell MaxCounter_def)
  show "cell (cf_addLocked i cs) n = ((cell cs)(unat i := min 15 (cell cs (unat i) + 1))) n"
  proof (cases "?v < MaxCounter")
    case True
    then have lt: "cell cs (unat i) < 15" by (simp add: v)
    then have u: "unat (?v + 1) = cell cs (unat i) + 1"
      by (subst unat_plus_if_size) (simp add: word_size getLocked_cell)
    then have "?v + 1 \<le> 15" using lt by (simp add: word_le_nat_alt)
    then show ?thesis using True lt u assms by (simp add: cf_addLocked_def Let_def cell_setLocked)
  next
    case False
    then show ?thesis using v cell_le [of cs "unat i"] by (simp add: cf_addLocked_def Let_def)
  qed
qed

lemma subLocked_cell:
  assumes "cell_idx i < length cs"
  shows "cell (cf_subLocked i cs) = (cell cs)(unat i := cell cs (unat i) - 1)"
proof (rule ext)
  fix n
  let ?v = "cf_getLocked cs i"
  have v: "?v > 0 \<longleftrightarrow> cell cs (unat i) > 0"
    by (simp add: word_less_nat_alt getLocked_cell)
  show "cell (cf_subLocked i cs) n = ((cell cs)(unat i := cell cs (unat i) - 1)) n"
  proof (cases "?v > 0")
    case True
    then have u: "unat (?v - 1) = cell cs (unat i) - 1"
      by (subst unat_minus_one) (auto simp: getLocked_cell)
    then have "?v - 1 \<le> 15" using cell_le [of cs "unat i"] by (simp add: word_le_nat_alt)
    then show ?thesis using True u assms by (simp add: cf_subLocked_def Let_def cell_setLocked)
  next
    case False
    then show ?thesis using v by (simp add: cf_subLocked_def Let_def)
  qed
qed

lemma length_updates [simp]:
  "length (cf_addLocked i cs) = length cs" "length (cf_subLocked i cs) = length cs"
  by (simp_all add: cf_addLocked_def cf_subLocked_def Let_def)

section \<open>The load of a multiset of keys\<close>

text \<open>How often a key uses a cell, and the sum over the keys in the filter.\<close>

definition uses :: "uint64 list \<Rightarrow> nat \<Rightarrow> nat" where
  "uses is n = count_list (map unat is) n"

lemma uses_simps [simp]: "uses [] n = 0" "uses (i # is) n = (if unat i = n then 1 else 0) + uses is n"
  by (simp_all add: uses_def)

lemma uses_pos: "uses is n > 0 \<longleftrightarrow> n \<in> unat ` set is"
  by (induction "is") (auto split: if_splits)

lemma add_loop_cells:
  "\<forall>i \<in> set is. cell_idx i < length cs \<Longrightarrow> \<exists>cs'. cf_loop cf_addLocked is cs = (Inr (), cs') \<and>
     length cs' = length cs \<and> (\<forall>n. cell cs' n = min 15 (cell cs n + uses is n))"
proof (induction "is" arbitrary: cs)
  case Nil
  have "cell cs n = min 15 (cell cs n)" for n using cell_le [of cs n] by simp
  then show ?case by simp
next
  case (Cons i "is")
  then show ?case using Cons.IH [of "cf_addLocked i cs"] by (auto simp: addLocked_cell)
qed

lemma sub_loop_cells:
  "\<forall>i \<in> set is. cell_idx i < length cs \<Longrightarrow> \<exists>cs'. cf_loop cf_subLocked is cs = (Inr (), cs') \<and>
     length cs' = length cs \<and> (\<forall>n. cell cs' n = cell cs n - uses is n)"
proof (induction "is" arbitrary: cs)
  case (Cons i "is")
  then show ?case using Cons.IH [of "cf_subLocked i cs"] by (auto simp: subLocked_cell)
qed simp

lemma test_loop_cells:
  "\<forall>i \<in> set is. cell_idx i < length cs \<Longrightarrow> cf_test_loop is cs = Inr (\<forall>n \<in> unat ` set is. cell cs n > 0)"
proof (induction "is")
  case (Cons i "is")
  have "cf_getLocked cs i = 0 \<longleftrightarrow> cell cs (unat i) = 0"
    by (simp add: word_unat_eq_iff getLocked_cell)
  with Cons show ?case by auto
qed simp

definition cf_inv :: "cf \<Rightarrow> bool" where
  "cf_inv f \<longleftrightarrow> \<not> cf_closed f \<and> cf_m f > 0 \<and> unat (cf_m f) \<le> 2 * length (cf_counts f)"

lemma cf_inv_idx:
  assumes "cf_inv f" "i \<in> set (Indices key (cf_m f) k)"
  shows "cell_idx i < length (cf_counts f)"
proof -
  have "unat i < unat (cf_m f)" using Indices_bound assms by (auto simp: cf_inv_def word_less_nat_alt)
  then have "unat i < length (cf_counts f) * 2" using assms(1) by (simp add: cf_inv_def)
  then show ?thesis by (simp add: cell_idx_div less_mult_imp_div_less)
qed

definition key_uses :: "cf \<Rightarrow> string \<Rightarrow> nat \<Rightarrow> nat" where
  "key_uses f key = uses (Indices key (cf_m f) (cf_k f))"

lemma cf_Add_cells:
  assumes "cf_inv f" "key \<noteq> []"
  shows "\<exists>f'. cf_Add None key f = (Inr (), f') \<and> cf_inv f' \<and> key_uses f' = key_uses f \<and>
    (\<forall>n. cell (cf_counts f') n = min 15 (cell (cf_counts f) n + key_uses f key n))"
  using add_loop_cells [of "Indices key (cf_m f) (cf_k f)" "cf_counts f"] cf_inv_idx [OF assms(1)] assms
  by (auto simp: cf_Add_def cf_update_def bloom_check_def cf_inv_def key_uses_def [abs_def])

lemma cf_Remove_cells:
  assumes "cf_inv f" "key \<noteq> []"
  shows "\<exists>f'. cf_Remove None key f = (Inr (), f') \<and> cf_inv f' \<and> key_uses f' = key_uses f \<and>
    (\<forall>n. cell (cf_counts f') n = cell (cf_counts f) n - key_uses f key n)"
  using sub_loop_cells [of "Indices key (cf_m f) (cf_k f)" "cf_counts f"] cf_inv_idx [OF assms(1)] assms
  by (auto simp: cf_Remove_def cf_update_def bloom_check_def cf_inv_def key_uses_def [abs_def])

lemma cf_Test_cells:
  assumes "cf_inv f" "key \<noteq> []"
  shows "cf_Test None key f = Inr (\<forall>n. key_uses f key n > 0 \<longrightarrow> cell (cf_counts f) n > 0)"
  using test_loop_cells [of "Indices key (cf_m f) (cf_k f)" "cf_counts f"] cf_inv_idx [OF assms(1)] assms
  by (auto simp: cf_Test_def bloom_check_def cf_inv_def key_uses_def uses_pos)

text \<open>Additions alone keep the contract of a filter, saturated or not.\<close>

definition cf_add_key :: "string \<Rightarrow> cf \<Rightarrow> cf" where
  "cf_add_key key f = snd (cf_Add None key f)"

definition cf_has_key :: "string \<Rightarrow> cf \<Rightarrow> bool" where
  "cf_has_key key f \<longleftrightarrow> key = [] \<or> cf_Test None key f = Inr True"

lemma cf_add_key_cells:
  assumes "cf_inv f"
  shows "cf_inv (cf_add_key k f) \<and> key_uses (cf_add_key k f) = key_uses f \<and>
    (\<forall>n. cell (cf_counts (cf_add_key k f)) n =
       (if k = [] then cell (cf_counts f) n else min 15 (cell (cf_counts f) n + key_uses f k n)))"
  using cf_Add_cells [OF assms, of k] assms
  by (cases "k = []") (auto simp: cf_add_key_def cf_Add_def cf_update_def bloom_check_def)

interpretation cfm: membership_filter cf_add_key cf_has_key cf_inv
proof
  fix f k j
  assume inv: "cf_inv f"
  note add = cf_add_key_cells [OF inv]
  show "cf_inv (cf_add_key k f)" using add by blast
  show "cf_has_key k (cf_add_key k f)"
    using add [of k] cf_Test_cells [of "cf_add_key k f" k] by (auto simp: cf_has_key_def)
  show "cf_has_key k (cf_add_key j f)" if "cf_has_key k f"
  proof (cases "k = []")
    case False
    have "cell (cf_counts f) n > 0 \<Longrightarrow> cell (cf_counts (cf_add_key j f)) n > 0" for n
      using add [of j] by simp
    with that add [of j] False cf_Test_cells [of "cf_add_key j f" k] cf_Test_cells [OF inv, of k]
    show ?thesis by (simp add: cf_has_key_def)
  qed (simp add: cf_has_key_def)
qed

lemma cf_adds_present:
  "cf_inv f \<Longrightarrow> k \<in> set ks \<Longrightarrow> k \<noteq> [] \<Longrightarrow> cf_Test None k (fold cf_add_key ks f) = Inr True"
  using cfm.no_false_negative [of f k ks] by (simp add: cf_has_key_def)

section \<open>Histories\<close>

datatype cf_op = CAdd string | CRemove string | CReset

fun cf_apply :: "cf_op \<Rightarrow> cf \<Rightarrow> cf" where
  "cf_apply (CAdd key) f = snd (cf_Add None key f)"
| "cf_apply (CRemove key) f = snd (cf_Remove None key f)"
| "cf_apply CReset f = snd (cf_Reset None f)"

fun bag_apply :: "cf_op \<Rightarrow> string multiset \<Rightarrow> string multiset" where
  "bag_apply (CAdd key) M = add_mset key M"
| "bag_apply (CRemove key) M = M - {#key#}"
| "bag_apply CReset M = {#}"

definition load :: "cf \<Rightarrow> string multiset \<Rightarrow> nat \<Rightarrow> nat" where
  "load f M n = (\<Sum>k \<in># M. key_uses f k n)"

text \<open>Only keys of the filter are removed, and no addition takes a cell beyond 15.\<close>

fun cf_valid :: "cf \<Rightarrow> string multiset \<Rightarrow> cf_op list \<Rightarrow> bool" where
  "cf_valid f M [] \<longleftrightarrow> True"
| "cf_valid f M (CAdd key # ops) \<longleftrightarrow>
     key \<noteq> [] \<and> list_all (\<lambda>i. load f (add_mset key M) (unat i) \<le> 15) (Indices key (cf_m f) (cf_k f)) \<and>
     cf_valid f (add_mset key M) ops"
| "cf_valid f M (CRemove key # ops) \<longleftrightarrow> key \<noteq> [] \<and> key \<in># M \<and> cf_valid f (M - {#key#}) ops"
| "cf_valid f M (CReset # ops) \<longleftrightarrow> cf_valid f {#} ops"

definition cf_holds :: "cf \<Rightarrow> string multiset \<Rightarrow> bool" where
  "cf_holds f M \<longleftrightarrow> cf_inv f \<and> (\<forall>n < unat (cf_m f). cell (cf_counts f) n = load f M n)"

lemma load_simps [simp]:
  "load f {#} n = 0" "load f (add_mset k M) n = key_uses f k n + load f M n"
  by (simp_all add: load_def)

lemma load_remove: "k \<in># M \<Longrightarrow> load f (M - {#k#}) n = load f M n - key_uses f k n"
  by (metis add_diff_cancel_left' insert_DiffM load_simps(2))

lemma load_pos: "k \<in># M \<Longrightarrow> key_uses f k n > 0 \<Longrightarrow> load f M n > 0"
  by (metis add_gr_0 insert_DiffM load_simps(2))

lemma load_cong: "key_uses f' = key_uses f \<Longrightarrow> load f' = load f"
  by (simp add: load_def fun_eq_iff)

lemma cell_replicate [simp]: "n div 2 < k \<Longrightarrow> cell (replicate k 0) n = 0"
  by (simp add: cell_def)


lemma key_uses_bound: "cf_m f > 0 \<Longrightarrow> key_uses f k n > 0 \<Longrightarrow> n < unat (cf_m f)"
  using Indices_bound [of "cf_m f"] by (auto simp: key_uses_def uses_pos word_less_nat_alt)

lemma cf_Add_m: "cf_m (snd (cf_Add ctx key f)) = cf_m f \<and> cf_k (snd (cf_Add ctx key f)) = cf_k f"
  by (simp add: cf_Add_def cf_update_def split: option.splits prod.splits)

lemma cf_Remove_m: "cf_m (snd (cf_Remove ctx key f)) = cf_m f \<and> cf_k (snd (cf_Remove ctx key f)) = cf_k f"
  by (simp add: cf_Remove_def cf_update_def split: option.splits prod.splits)

lemma cf_apply_m: "cf_m (cf_apply p f) = cf_m f \<and> cf_k (cf_apply p f) = cf_k f"
  by (cases p) (simp_all add: cf_Add_m cf_Remove_m cf_Reset_def)

lemma key_uses_cong: "cf_m f' = cf_m f \<and> cf_k f' = cf_k f \<Longrightarrow> key_uses f' = key_uses f"
  by (simp add: key_uses_def fun_eq_iff)

lemma cf_apply_holds:
  assumes "cf_holds f M" "cf_valid f M (p # ops)"
  shows "cf_holds (cf_apply p f) (bag_apply p M) \<and> cf_valid f (bag_apply p M) ops"
proof -
  have inv: "cf_inv f" and cells: "\<And>n. n < unat (cf_m f) \<Longrightarrow> cell (cf_counts f) n = load f M n"
    using assms(1) by (auto simp: cf_holds_def)
  have load: "load (cf_apply p f) = load f" by (rule load_cong [OF key_uses_cong [OF cf_apply_m]])
  show ?thesis
  proof (cases p)
    case (CAdd k)
    then obtain f' where f': "cf_Add None k f = (Inr (), f')" "cf_inv f'"
      "\<And>n. cell (cf_counts f') n = min 15 (cell (cf_counts f) n + key_uses f k n)"
      using cf_Add_cells [OF inv, of k] assms(2) by auto
    have "min 15 (load f M n + key_uses f k n) = load f (add_mset k M) n" if n: "n < unat (cf_m f)" for n
    proof (cases "key_uses f k n > 0")
      case True
      then have "load f (add_mset k M) n \<le> 15"
        using assms(2) CAdd by (auto simp: key_uses_def uses_pos list_all_iff)
      then show ?thesis by simp
    next
      case False
      then show ?thesis using cells [OF n] cell_le [of "cf_counts f" n] by simp
    qed
    then show ?thesis
      using f' CAdd assms(2) cells load cf_apply_m [of p f] by (simp add: cf_holds_def)
  next
    case (CRemove k)
    then obtain f' where f': "cf_Remove None k f = (Inr (), f')" "cf_inv f'"
      "\<And>n. cell (cf_counts f') n = cell (cf_counts f) n - key_uses f k n"
      using cf_Remove_cells [OF inv, of k] assms(2) by auto
    then show ?thesis
      using CRemove assms(2) cells load cf_apply_m [of p f] by (simp add: cf_holds_def load_remove)
  next
    case CReset
    have "n div 2 < length (cf_counts f)" if "n < unat (cf_m f)" for n
    proof -
      have "n < length (cf_counts f) * 2" using inv that by (simp add: cf_inv_def)
      then show ?thesis by (rule less_mult_imp_div_less)
    qed
    then show ?thesis
      using CReset assms(2) inv by (simp add: cf_holds_def cf_Reset_def cf_inv_def)
  qed
qed

lemma cf_valid_cong: "cf_m f' = cf_m f \<and> cf_k f' = cf_k f \<Longrightarrow> cf_valid f' M ops = cf_valid f M ops"
proof (induction ops arbitrary: M)
  case (Cons p ops)
  have "load f' = load f" using load_cong [OF key_uses_cong [OF Cons.prems]] .
  with Cons show ?case by (cases p) simp_all
qed simp

lemma cf_run_holds:
  "cf_holds f M \<Longrightarrow> cf_valid f M ops \<Longrightarrow>
     cf_holds (fold cf_apply ops f) (fold bag_apply ops M) \<and>
     cf_m (fold cf_apply ops f) = cf_m f \<and> cf_k (fold cf_apply ops f) = cf_k f"
proof (induction ops arbitrary: f M)
  case (Cons p ops)
  from cf_apply_holds [OF Cons.prems] have "cf_holds (cf_apply p f) (bag_apply p M)" "cf_valid (cf_apply p f) (bag_apply p M) ops"
    using cf_valid_cong [OF cf_apply_m] by simp_all
  from Cons.IH [OF this] show ?case using cf_apply_m [of p f] by simp
qed simp

lemma cf_New_holds:
  assumes "cf_New opts = Inr f" "unat (cf_m f) < 2 ^ 64 - 1"
  shows "cf_holds f {#} \<and> cf_k f \<noteq> 0"
proof -
  let ?c = "bf_applyOptions opts"
  have f: "f = \<lparr>cf_counts = replicate (unat ((bf_cfg_m ?c + 1) div 2)) 0, cf_m = bf_cfg_m ?c,
      cf_k = bf_cfg_k ?c, cf_closed = False\<rparr>" and nz: "bf_cfg_m ?c \<noteq> 0" "bf_cfg_k ?c \<noteq> 0"
    using assms(1) by (auto simp: cf_New_def Let_def split: if_splits)
  have "unat (bf_cfg_m ?c + 1) = unat (bf_cfg_m ?c) + 1"
    using assms(2) by (subst unat_plus_if_size) (simp add: f word_size)
  then have len: "unat (bf_cfg_m ?c) \<le> 2 * unat ((bf_cfg_m ?c + 1) div 2)"
    by (simp add: unat_div)
  then have "n div 2 < unat ((bf_cfg_m ?c + 1) div 2)" if "n < unat (bf_cfg_m ?c)" for n
    using that by simp
  with len nz show ?thesis by (simp add: f cf_holds_def cf_inv_def word_gt_0)
qed

section \<open>Properties\<close>

text \<open>
  C25. While only keys of the filter are removed and no addition takes a counter beyond 15, the
  counting filter is exact about its counters: after any history a key tests positive if and
  only if every cell it uses is used by a key the history leaves in the filter. So a key that is
  in the filter is never reported absent, whatever else was removed, and when everything was
  removed no key is reported present.
\<close>

theorem counting_remove_exact:
  assumes "cf_New opts = Inr f" and "unat (cf_m f) < 2 ^ 64 - 1" and "cf_valid f {#} ops" and "key \<noteq> []"
  shows "cf_Test None key (fold cf_apply ops f) =
      Inr (\<forall>n. key_uses f key n > 0 \<longrightarrow> load f (fold bag_apply ops {#}) n > 0) \<and>
    (key \<in># fold bag_apply ops {#} \<longrightarrow> cf_Test None key (fold cf_apply ops f) = Inr True) \<and>
    (fold bag_apply ops {#} = {#} \<longrightarrow> cf_Test None key (fold cf_apply ops f) = Inr False)"
proof -
  let ?f = "fold cf_apply ops f" and ?M = "fold bag_apply ops {#}"
  have new: "cf_holds f {#}" "cf_k f \<noteq> 0" using cf_New_holds [OF assms(1,2)] by blast+
  then have m: "cf_m f > 0" by (simp add: cf_holds_def cf_inv_def)
  have run: "cf_holds ?f ?M" "cf_m ?f = cf_m f" "cf_k ?f = cf_k f" using cf_run_holds [OF new(1) assms(3)] by blast+
  then have same: "key_uses ?f = key_uses f" "load ?f = load f"
    using key_uses_cong load_cong by blast+
  have "cf_Test None key ?f = Inr (\<forall>n. key_uses f key n > 0 \<longrightarrow> load f ?M n > 0)"
  proof -
    have inv: "cf_inv ?f" using run(1) by (simp add: cf_holds_def)
    have "cell (cf_counts ?f) n = load f ?M n" if "key_uses f key n > 0" for n
      using run key_uses_bound [OF m that] by (simp add: cf_holds_def same)
    then show ?thesis unfolding cf_Test_cells [OF inv assms(4)] same by auto
  qed
  moreover have "\<exists>n. key_uses f key n > 0"
  proof -
    have "length (Indices key (cf_m f) (cf_k f)) \<noteq> 0" using new(2) by (simp add: word_unat_eq_iff)
    then have "set (Indices key (cf_m f) (cf_k f)) \<noteq> {}" by (metis length_0_conv set_empty)
    then show ?thesis by (auto simp: key_uses_def uses_pos)
  qed
  ultimately show ?thesis using load_pos [of key ?M f] by auto
qed

definition sample_cf :: cf where
  "sample_cf = \<lparr>cf_counts = [0], cf_m = 1, cf_k = 1, cf_closed = False\<rparr>"

lemma sample_cf_New: "cf_New [Some (bf_WithParams \<lparr>par_M = 1, par_K = 1\<rparr>)] = Inr sample_cf"
  by (simp add: cf_New_def bf_applyOptions_def bf_WithParams_def sample_cf_def Let_def)

lemma sample_uses: "key_uses sample_cf key n = (if n = 0 then 1 else 0)"
proof -
  have "Indices key 1 1 = [0]" by (auto simp: Indices_def split: prod.splits)
  then show ?thesis by (simp add: key_uses_def sample_cf_def)
qed

theorem counting_remove_exact_witness:
  "cf_Test None ''a'' (fold cf_apply [CAdd ''a'', CAdd ''b'', CRemove ''b''] sample_cf) = Inr True \<and>
    cf_Test None ''a'' (fold cf_apply [CAdd ''a'', CRemove ''a''] sample_cf) = Inr False"
proof -
  have v: "cf_valid sample_cf {#} [CAdd ''a'', CAdd ''b'', CRemove ''b'']"
    "cf_valid sample_cf {#} [CAdd ''a'', CRemove ''a'']"
    by (simp_all add: list_all_iff sample_uses)
  have "unat (cf_m sample_cf) < 2 ^ 64 - 1" by (simp add: sample_cf_def)
  from counting_remove_exact [OF sample_cf_New this v(1), of "''a''"]
    counting_remove_exact [OF sample_cf_New this v(2), of "''a''"]
  show ?thesis by (simp add: sample_uses)
qed

text \<open>A run of one key in a filter with one cell.\<close>

lemma one_cell_adds:
  assumes "cf_inv f" "cf_m f = 1" "cf_k f = 1"
  shows "cf_inv (fold cf_apply (replicate j (CAdd ''a'')) f) \<and> cf_m (fold cf_apply (replicate j (CAdd ''a'')) f) = 1 \<and>
    cf_k (fold cf_apply (replicate j (CAdd ''a'')) f) = 1 \<and>
    cell (cf_counts (fold cf_apply (replicate j (CAdd ''a'')) f)) 0 = min 15 (cell (cf_counts f) 0 + j)"
  using assms
proof (induction j arbitrary: f)
  case 0
  then show ?case using cell_le [of "cf_counts f" 0] by simp
next
  case (Suc j)
  have u: "key_uses f ''a'' 0 = 1" using sample_uses [of "''a''" 0] Suc.prems by (simp add: key_uses_def sample_cf_def)
  from Suc.IH [of "cf_apply (CAdd ''a'') f"] cf_Add_cells [OF Suc.prems(1), of "''a''"] Suc.prems cf_apply_m [of "CAdd ''a''" f]
  show ?case by (auto simp: u)
qed

lemma one_cell_removes:
  assumes "cf_inv f" "cf_m f = 1" "cf_k f = 1"
  shows "cf_inv (fold cf_apply (replicate j (CRemove ''a'')) f) \<and> cf_m (fold cf_apply (replicate j (CRemove ''a'')) f) = 1 \<and>
    cf_k (fold cf_apply (replicate j (CRemove ''a'')) f) = 1 \<and>
    cell (cf_counts (fold cf_apply (replicate j (CRemove ''a'')) f)) 0 = cell (cf_counts f) 0 - j"
  using assms
proof (induction j arbitrary: f)
  case (Suc j)
  have u: "key_uses f ''a'' 0 = 1" using sample_uses [of "''a''" 0] Suc.prems by (simp add: key_uses_def sample_cf_def)
  from Suc.IH [of "cf_apply (CRemove ''a'') f"] cf_Remove_cells [OF Suc.prems(1), of "''a''"] Suc.prems cf_apply_m [of "CRemove ''a''" f]
  show ?case by (auto simp: u)
qed simp

text \<open>
  A saturated counter is decremented like any other: sixteen additions of a key and fifteen
  removals leave one addition in force, and the key tests negative.
\<close>

lemma counting_saturation_false_negative:
  "cf_Test None ''a'' (fold cf_apply (replicate 16 (CAdd ''a'') @ replicate 15 (CRemove ''a'')) sample_cf) = Inr False"
proof -
  let ?g = "fold cf_apply (replicate 16 (CAdd ''a'')) sample_cf"
  let ?h = "fold cf_apply (replicate 15 (CRemove ''a'')) ?g"
  have s: "cf_inv sample_cf" "cf_m sample_cf = 1" "cf_k sample_cf = 1"
    by (simp_all add: sample_cf_def cf_inv_def)
  have g: "cf_inv ?g" "cf_m ?g = 1" "cf_k ?g = 1" "cell (cf_counts ?g) 0 \<le> 15"
    using one_cell_adds [OF s, of 16] by simp_all
  have h: "cf_inv ?h" "cf_m ?h = 1" "cf_k ?h = 1" "cell (cf_counts ?h) 0 = 0"
    using one_cell_removes [OF g(1-3), of 15] g(4) by simp_all
  have "key_uses ?h ''a'' = key_uses sample_cf ''a''"
    using key_uses_cong [of ?h sample_cf] h s by simp
  then have "cf_Test None ''a'' ?h = Inr False"
    using cf_Test_cells [OF h(1), of "''a''"] h(4) by (auto simp: sample_uses)
  then show ?thesis by simp
qed

end
