(* ===== verification/Idempotency.thy ===== *)
theory Idempotency
  imports GoPrelude
begin

text \<open>
  The package \<open>common/idempotency\<close> (file \<open>idempotency.go\<close>): the storage interface as a record of
  operations with its contract as the locale \<open>storage\<close>, the handler over any storage, the memory
  storage, and several callers of \<open>Execute\<close> interleaved on one memory storage as a step relation.
  A storage operation is one step, as the memory storage locks it; between the operations of one
  \<open>Execute\<close> other callers may run. Every operation takes the reading of the clock it makes.
\<close>

datatype idem_State = StateAbsent | StateInFlight | StateAccomplished

definition idem_State_String :: "idem_State \<Rightarrow> string" where
  "idem_State_String s =
     (case s of StateInFlight \<Rightarrow> ''in-flight'' | StateAccomplished \<Rightarrow> ''accomplished'' | _ \<Rightarrow> ''absent'')"

datatype BeginResult = BeginClaimed | BeginAlreadyInFlight | BeginAlreadyAccomplished

text \<open>A wrapped storage error names the call and the key; \<open>IdFn\<close> is an error of the caller's function.\<close>

datatype idem_call = CallBegin | CallGet | CallComplete | CallDelete | CallCheck

datatype ('e, 'f) idem_error =
    IdErrEmptyKey
  | IdErrAlreadyInFlight
  | IdWrap idem_call string 'e
  | IdFn 'f

record ('s, 'e) storage_ops =
  st_Get :: "ctx \<Rightarrow> gotime \<Rightarrow> string \<Rightarrow> 's \<Rightarrow> 's \<times> ('e + idem_State)"
  st_SetIfAbsent :: "ctx \<Rightarrow> gotime \<Rightarrow> string \<Rightarrow> duration \<Rightarrow> 's \<Rightarrow> 's \<times> ('e + bool)"
  st_Set :: "ctx \<Rightarrow> gotime \<Rightarrow> string \<Rightarrow> idem_State \<Rightarrow> duration \<Rightarrow> 's \<Rightarrow> 's \<times> 'e option"
  st_Delete :: "ctx \<Rightarrow> string \<Rightarrow> 's \<Rightarrow> 's \<times> 'e option"
  st_Close :: "'s \<Rightarrow> 's \<times> 'e option"

section \<open>The handler\<close>

record ('s, 'e) idem_Handler =
  h_store :: "('s, 'e) storage_ops"
  h_ttl :: duration

type_synonym ('s, 'e) idem_Option = "('s, 'e) idem_Handler \<Rightarrow> ('s, 'e) idem_Handler"

definition idem_WithTTL :: "duration \<Rightarrow> ('s, 'e) idem_Option" where
  "idem_WithTTL ttl h = h\<lparr>h_ttl := ttl\<rparr>"

definition idem_New :: "('s, 'e) storage_ops \<Rightarrow> ('s, 'e) idem_Option option list \<Rightarrow> ('s, 'e) idem_Handler" where
  "idem_New store opts =
     fold (\<lambda>opt h. case opt of None \<Rightarrow> h | Some f \<Rightarrow> f h) opts \<lparr>h_store = store, h_ttl = 5 * 60 * 10 ^ 9\<rparr>"

definition idem_Begin ::
    "('s, 'e) idem_Handler \<Rightarrow> ctx \<Rightarrow> gotime \<times> gotime \<Rightarrow> string \<Rightarrow> 's \<Rightarrow> 's \<times> (('e, 'f) idem_error + BeginResult)" where
  "idem_Begin h ctx = (\<lambda>(now1, now2) key s.
     if key = [] then (s, Inl IdErrEmptyKey)
     else case st_SetIfAbsent (h_store h) ctx now1 key (h_ttl h) s of
       (s1, Inl e) \<Rightarrow> (s1, Inl (IdWrap CallBegin key e))
     | (s1, Inr True) \<Rightarrow> (s1, Inr BeginClaimed)
     | (s1, Inr False) \<Rightarrow>
         (case st_Get (h_store h) ctx now2 key s1 of
            (s2, Inl e) \<Rightarrow> (s2, Inl (IdWrap CallGet key e))
          | (s2, Inr StateAccomplished) \<Rightarrow> (s2, Inr BeginAlreadyAccomplished)
          | (s2, Inr _) \<Rightarrow> (s2, Inr BeginAlreadyInFlight)))"

definition idem_Complete ::
    "('s, 'e) idem_Handler \<Rightarrow> ctx \<Rightarrow> gotime \<Rightarrow> string \<Rightarrow> 's \<Rightarrow> 's \<times> ('e, 'f) idem_error option" where
  "idem_Complete h ctx now key s =
     (if key = [] then (s, Some IdErrEmptyKey)
      else case st_Set (h_store h) ctx now key StateAccomplished (h_ttl h) s of
        (s', Some e) \<Rightarrow> (s', Some (IdWrap CallComplete key e))
      | (s', None) \<Rightarrow> (s', None))"

definition idem_Del :: "('s, 'e) idem_Handler \<Rightarrow> ctx \<Rightarrow> string \<Rightarrow> 's \<Rightarrow> 's \<times> ('e, 'f) idem_error option" where
  "idem_Del h ctx key s =
     (if key = [] then (s, Some IdErrEmptyKey)
      else case st_Delete (h_store h) ctx key s of
        (s', Some e) \<Rightarrow> (s', Some (IdWrap CallDelete key e))
      | (s', None) \<Rightarrow> (s', None))"

definition idem_check ::
    "idem_State \<Rightarrow> ('s, 'e) idem_Handler \<Rightarrow> ctx \<Rightarrow> gotime \<Rightarrow> string \<Rightarrow> 's \<Rightarrow> 's \<times> (('e, 'f) idem_error + bool)" where
  "idem_check want h ctx now key s =
     (if key = [] then (s, Inl IdErrEmptyKey)
      else case st_Get (h_store h) ctx now key s of
        (s', Inl e) \<Rightarrow> (s', Inl (IdWrap CallCheck key e))
      | (s', Inr st) \<Rightarrow> (s', Inr (st = want)))"

definition idem_IsAccomplished ::
    "('s, 'e) idem_Handler \<Rightarrow> ctx \<Rightarrow> gotime \<Rightarrow> string \<Rightarrow> 's \<Rightarrow> 's \<times> (('e, 'f) idem_error + bool)" where
  "idem_IsAccomplished = idem_check StateAccomplished"

definition idem_IsInFlight ::
    "('s, 'e) idem_Handler \<Rightarrow> ctx \<Rightarrow> gotime \<Rightarrow> string \<Rightarrow> 's \<Rightarrow> 's \<times> (('e, 'f) idem_error + bool)" where
  "idem_IsInFlight = idem_check StateInFlight"

definition idem_Close :: "('s, 'e) idem_Handler \<Rightarrow> 's \<Rightarrow> 's \<times> 'e option" where
  "idem_Close h s = st_Close (h_store h) s"

text \<open>\<open>Execute\<close> runs the caller's function on a world of its own; the error of \<open>Del\<close> is dropped.\<close>

definition idem_Execute ::
    "('s, 'e) idem_Handler \<Rightarrow> ctx \<Rightarrow> gotime \<times> gotime \<times> gotime \<Rightarrow> string \<Rightarrow> ('w \<Rightarrow> 'w \<times> 'f option) \<Rightarrow>
     's \<times> 'w \<Rightarrow> ('s \<times> 'w) \<times> ('e, 'f) idem_error option" where
  "idem_Execute h ctx = (\<lambda>(now1, now2, now3) key fn (s, w).
     case idem_Begin h ctx (now1, now2) key s of
       (s1, Inl e) \<Rightarrow> ((s1, w), Some e)
     | (s1, Inr BeginAlreadyAccomplished) \<Rightarrow> ((s1, w), None)
     | (s1, Inr BeginAlreadyInFlight) \<Rightarrow> ((s1, w), Some IdErrAlreadyInFlight)
     | (s1, Inr BeginClaimed) \<Rightarrow>
         (case fn w of
            (w', Some e) \<Rightarrow> ((fst (idem_Del h ctx key s1 :: 's \<times> ('e, 'f) idem_error option), w'), Some (IdFn e))
          | (w', None) \<Rightarrow> (case idem_Complete h ctx now3 key s1 of (s2, r) \<Rightarrow> ((s2, w'), r))))"

section \<open>The contract of a storage\<close>

text \<open>
  \<open>view t s k\<close> is the state of \<open>k\<close> at time \<open>t\<close>. A record is kept for its time to live, which has
  no end if it is not positive; every other key is left alone.
\<close>

definition alive_until :: "duration \<Rightarrow> gotime \<Rightarrow> gotime \<Rightarrow> bool" where
  "alive_until ttl now t \<longleftrightarrow> now \<le> t \<and> (ttl > 0 \<longrightarrow> t \<le> now + ttl)"

locale storage =
  fixes ops :: "('s, 'e) storage_ops"
    and view :: "gotime \<Rightarrow> 's \<Rightarrow> string \<Rightarrow> idem_State"
    and opened :: "'s \<Rightarrow> bool"
  assumes get: "opened s \<Longrightarrow> st_Get ops ctx now k s = (s, Inr (view now s k))"
    and claim: "opened s \<Longrightarrow> now > 0 \<Longrightarrow> view now s k = StateAbsent \<Longrightarrow>
      \<exists>s'. st_SetIfAbsent ops ctx now k ttl s = (s', Inr True) \<and> opened s' \<and>
        (\<forall>t. alive_until ttl now t \<longrightarrow> view t s' k = StateInFlight) \<and> (\<forall>j t. j \<noteq> k \<longrightarrow> view t s' j = view t s j)"
    and refuse: "opened s \<Longrightarrow> view now s k \<noteq> StateAbsent \<Longrightarrow> st_SetIfAbsent ops ctx now k ttl s = (s, Inr False)"
    and set: "opened s \<Longrightarrow> now > 0 \<Longrightarrow> st \<noteq> StateAbsent \<Longrightarrow>
      \<exists>s'. st_Set ops ctx now k st ttl s = (s', None) \<and> opened s' \<and>
        (\<forall>t. alive_until ttl now t \<longrightarrow> view t s' k = st) \<and> (\<forall>j t. j \<noteq> k \<longrightarrow> view t s' j = view t s j)"
    and delete: "opened s \<Longrightarrow>
      \<exists>s'. st_Delete ops ctx k s = (s', None) \<and> opened s' \<and> (\<forall>t. view t s' k = StateAbsent) \<and>
        (\<forall>j t. j \<noteq> k \<longrightarrow> view t s' j = view t s j)"
begin

text \<open>One \<open>Execute\<close> with no other caller between its operations.\<close>

lemma execute_spec:
  fixes h :: "('s, 'e) idem_Handler" and fn :: "'w \<Rightarrow> 'w \<times> 'f option"
  assumes h: "h_store h = ops" and s: "opened s" and k: "key \<noteq> []" and t: "0 < now1" "0 < now3"
    and same: "view now2 s key = view now1 s key"
  shows "case view now1 s key of
      StateAccomplished \<Rightarrow> idem_Execute h ctx (now1, now2, now3) key fn (s, w) = ((s, w), None)
    | StateInFlight \<Rightarrow> idem_Execute h ctx (now1, now2, now3) key fn (s, w) = ((s, w), Some IdErrAlreadyInFlight)
    | StateAbsent \<Rightarrow>
        \<exists>s'. idem_Execute h ctx (now1, now2, now3) key fn (s, w) = ((s', fst (fn w)), map_option IdFn (snd (fn w))) \<and>
          opened s' \<and> (\<forall>j t. j \<noteq> key \<longrightarrow> view t s' j = view t s j) \<and>
          (case snd (fn w) of
             None \<Rightarrow> \<forall>t. alive_until (h_ttl h) now3 t \<longrightarrow> view t s' key = StateAccomplished
           | Some e \<Rightarrow> \<forall>t. view t s' key = StateAbsent)"
proof (cases "view now1 s key = StateAbsent")
  case False
  then have "idem_Begin h ctx (now1, now2) key s =
      (s, Inr (case view now1 s key of StateAccomplished \<Rightarrow> BeginAlreadyAccomplished | _ \<Rightarrow> BeginAlreadyInFlight)
         :: ('e, 'f) idem_error + BeginResult)"
    using k refuse [OF s False, of ctx "h_ttl h"]
    by (auto simp: idem_Begin_def h get [OF s] same split: idem_State.split)
  then show ?thesis using False by (auto simp: idem_Execute_def split: idem_State.split)
next
  case True
  obtain s1 where s1: "st_SetIfAbsent ops ctx now1 key (h_ttl h) s = (s1, Inr True)" "opened s1"
    "\<And>j t. j \<noteq> key \<Longrightarrow> view t s1 j = view t s j"
    using claim [OF s t(1) True] by blast
  have begin_ok: "idem_Begin h ctx (now1, now2) key s = (s1, Inr BeginClaimed :: ('e, 'f) idem_error + BeginResult)"
    using k s1(1) by (simp add: idem_Begin_def h)
  show ?thesis
  proof (cases "snd (fn w)")
    case None
    obtain s2 where "st_Set ops ctx now3 key StateAccomplished (h_ttl h) s1 = (s2, None)" "opened s2"
      "\<forall>t. alive_until (h_ttl h) now3 t \<longrightarrow> view t s2 key = StateAccomplished" "\<And>j t. j \<noteq> key \<Longrightarrow> view t s2 j = view t s1 j"
      using set [OF s1(2) t(2), of StateAccomplished] by blast
    then show ?thesis
      using True None begin_ok s1(3) k
      by (auto simp: idem_Execute_def idem_Complete_def h split: prod.split)
  next
    case (Some e)
    obtain s2 where "st_Delete ops ctx key s1 = (s2, None)" "opened s2"
      "\<forall>t. view t s2 key = StateAbsent" "\<And>j t. j \<noteq> key \<Longrightarrow> view t s2 j = view t s1 j"
      using delete [OF s1(2)] by blast
    then show ?thesis
      using True Some begin_ok s1(3) k
      by (auto simp: idem_Execute_def idem_Del_def h split: prod.split)
  qed
qed

end

section \<open>The memory storage\<close>

datatype storage_error = ErrStorageClosed

record memoryEntry =
  me_state :: idem_State
  me_expiry :: gotime

record MemoryStorage =
  ms_entries :: "string \<rightharpoonup> memoryEntry"
  ms_closed :: bool

definition NewMemoryStorage :: MemoryStorage where
  "NewMemoryStorage = \<lparr>ms_entries = Map.empty, ms_closed = False\<rparr>"

definition me_expired :: "gotime \<Rightarrow> memoryEntry \<Rightarrow> bool" where
  "me_expired now e \<longleftrightarrow> \<not> time_IsZero (me_expiry e) \<and> time_After now (me_expiry e)"

definition ms_Get :: "ctx \<Rightarrow> gotime \<Rightarrow> string \<Rightarrow> MemoryStorage \<Rightarrow> MemoryStorage \<times> (storage_error + idem_State)" where
  "ms_Get ctx now key m =
     (m, if ms_closed m then Inl ErrStorageClosed
         else case ms_entries m key of
           None \<Rightarrow> Inr StateAbsent
         | Some e \<Rightarrow> if me_expired now e then Inr StateAbsent else Inr (me_state e))"

definition ms_new_expiry :: "gotime \<Rightarrow> duration \<Rightarrow> gotime" where
  "ms_new_expiry now ttl = (if ttl > 0 then now + ttl else 0)"

definition ms_SetIfAbsent ::
    "ctx \<Rightarrow> gotime \<Rightarrow> string \<Rightarrow> duration \<Rightarrow> MemoryStorage \<Rightarrow> MemoryStorage \<times> (storage_error + bool)" where
  "ms_SetIfAbsent ctx now key ttl m =
     (if ms_closed m then (m, Inl ErrStorageClosed)
      else let m1 = (case ms_entries m key of
                       Some e \<Rightarrow> if me_expired now e then m\<lparr>ms_entries := (ms_entries m)(key := None)\<rparr> else m
                     | None \<Rightarrow> m) in
           case ms_entries m1 key of
             Some e \<Rightarrow> (m1, Inr False)
           | None \<Rightarrow>
               (m1\<lparr>ms_entries := (ms_entries m1)(key \<mapsto> \<lparr>me_state = StateInFlight, me_expiry = ms_new_expiry now ttl\<rparr>)\<rparr>,
                Inr True))"

definition ms_Set ::
    "ctx \<Rightarrow> gotime \<Rightarrow> string \<Rightarrow> idem_State \<Rightarrow> duration \<Rightarrow> MemoryStorage \<Rightarrow> MemoryStorage \<times> storage_error option" where
  "ms_Set ctx now key st ttl m =
     (if ms_closed m then (m, Some ErrStorageClosed)
      else (m\<lparr>ms_entries := (ms_entries m)(key \<mapsto> \<lparr>me_state = st, me_expiry = ms_new_expiry now ttl\<rparr>)\<rparr>, None))"

definition ms_Delete :: "ctx \<Rightarrow> string \<Rightarrow> MemoryStorage \<Rightarrow> MemoryStorage \<times> storage_error option" where
  "ms_Delete ctx key m =
     (if ms_closed m then (m, Some ErrStorageClosed)
      else (m\<lparr>ms_entries := (ms_entries m)(key := None)\<rparr>, None))"

definition ms_Close :: "MemoryStorage \<Rightarrow> MemoryStorage \<times> storage_error option" where
  "ms_Close m = (m\<lparr>ms_closed := True, ms_entries := Map.empty\<rparr>, None)"

definition ms_ops :: "(MemoryStorage, storage_error) storage_ops" where
  "ms_ops = \<lparr>st_Get = ms_Get, st_SetIfAbsent = ms_SetIfAbsent, st_Set = ms_Set, st_Delete = ms_Delete,
             st_Close = ms_Close\<rparr>"

definition ms_view :: "gotime \<Rightarrow> MemoryStorage \<Rightarrow> string \<Rightarrow> idem_State" where
  "ms_view t m key =
     (case ms_entries m key of
        None \<Rightarrow> StateAbsent
      | Some e \<Rightarrow> if me_expired t e then StateAbsent else me_state e)"

definition ms_inv :: "MemoryStorage \<Rightarrow> bool" where
  "ms_inv m \<longleftrightarrow> \<not> ms_closed m \<and> (\<forall>key e. ms_entries m key = Some e \<longrightarrow> me_state e \<noteq> StateAbsent)"


interpretation msi: storage ms_ops ms_view ms_inv
proof
  fix m :: MemoryStorage and ctx :: ctx and now :: gotime and k :: string and ttl :: duration and st :: idem_State
  assume inv: "ms_inv m"
  then have op: "\<not> ms_closed m" by (simp add: ms_inv_def)
  show "st_Get ms_ops ctx now k m = (m, Inr (ms_view now m k))"
    using op by (simp add: ms_ops_def ms_Get_def ms_view_def split: option.split)
  show "st_SetIfAbsent ms_ops ctx now k ttl m = (m, Inr False)" if "ms_view now m k \<noteq> StateAbsent"
    using op that by (auto simp: ms_ops_def ms_SetIfAbsent_def ms_view_def split: option.splits if_splits)
  have fresh: "\<not> me_expired t \<lparr>me_state = x, me_expiry = ms_new_expiry now ttl\<rparr>"
    if "now > 0" "alive_until ttl now t" for x t
    using that by (auto simp: me_expired_def ms_new_expiry_def alive_until_def)
  show "\<exists>m'. st_SetIfAbsent ms_ops ctx now k ttl m = (m', Inr True) \<and> ms_inv m' \<and>
      (\<forall>t. alive_until ttl now t \<longrightarrow> ms_view t m' k = StateInFlight) \<and>
      (\<forall>j t. j \<noteq> k \<longrightarrow> ms_view t m' j = ms_view t m j)" if "now > 0" "ms_view now m k = StateAbsent"
  proof -
    let ?e = "\<lparr>me_state = StateInFlight, me_expiry = ms_new_expiry now ttl\<rparr>"
    let ?m = "m\<lparr>ms_entries := (ms_entries m)(k \<mapsto> ?e)\<rparr>"
    have "me_state e \<noteq> StateAbsent" if "ms_entries m k = Some e" for e using inv that by (simp add: ms_inv_def)
    then have "st_SetIfAbsent ms_ops ctx now k ttl m = (?m, Inr True)"
      using op that(2) by (auto simp: ms_ops_def ms_SetIfAbsent_def ms_view_def split: option.splits if_splits)
    moreover have "ms_inv ?m" using inv by (simp add: ms_inv_def)
    ultimately show ?thesis using fresh [OF that(1)] by (simp add: ms_view_def)
  qed
  show "\<exists>m'. st_Set ms_ops ctx now k st ttl m = (m', None) \<and> ms_inv m' \<and>
      (\<forall>t. alive_until ttl now t \<longrightarrow> ms_view t m' k = st) \<and>
      (\<forall>j t. j \<noteq> k \<longrightarrow> ms_view t m' j = ms_view t m j)" if "now > 0" "st \<noteq> StateAbsent"
    using op inv that fresh [OF that(1)] by (simp add: ms_ops_def ms_Set_def ms_view_def ms_inv_def)
  show "\<exists>m'. st_Delete ms_ops ctx k m = (m', None) \<and> ms_inv m' \<and> (\<forall>t. ms_view t m' k = StateAbsent) \<and>
      (\<forall>j t. j \<noteq> k \<longrightarrow> ms_view t m' j = ms_view t m j)"
    using op inv by (simp add: ms_ops_def ms_Delete_def ms_view_def ms_inv_def)
qed

section \<open>Concurrent callers\<close>

text \<open>
  The program counter of a caller of \<open>Execute\<close> between its operations: before \<open>SetIfAbsent\<close>,
  before \<open>Get\<close>, in the caller's function, before \<open>Del\<close> or \<open>Complete\<close>, returned.
\<close>

datatype idem_pc = PcStart | PcGet | PcRun | PcDel | PcComplete | PcDone

record idem_sys =
  sy_store :: MemoryStorage
  sy_clock :: gotime
  sy_pc :: "nat \<Rightarrow> idem_pc"
  sy_log :: "(string \<times> bool) list"

text \<open>The log records each return of a caller's function: its key and whether it succeeded.\<close>

inductive idem_step :: "duration \<Rightarrow> (nat \<Rightarrow> string) \<Rightarrow> idem_sys \<Rightarrow> idem_sys \<Rightarrow> bool"
  for ttl :: duration and key :: "nat \<Rightarrow> string" where
  step_claim: "sy_pc g i = PcStart \<Longrightarrow> key i \<noteq> [] \<Longrightarrow> sy_clock g \<le> now \<Longrightarrow>
    ms_SetIfAbsent None now (key i) ttl (sy_store g) = (s', Inr True) \<Longrightarrow>
    idem_step ttl key g (g\<lparr>sy_store := s', sy_clock := now, sy_pc := (sy_pc g)(i := PcRun)\<rparr>)"
| step_refused: "sy_pc g i = PcStart \<Longrightarrow> key i \<noteq> [] \<Longrightarrow> sy_clock g \<le> now \<Longrightarrow>
    ms_SetIfAbsent None now (key i) ttl (sy_store g) = (s', Inr False) \<Longrightarrow>
    idem_step ttl key g (g\<lparr>sy_store := s', sy_clock := now, sy_pc := (sy_pc g)(i := PcGet)\<rparr>)"
| step_error: "sy_pc g i = PcStart \<Longrightarrow> sy_clock g \<le> now \<Longrightarrow>
    key i = [] \<or> ms_SetIfAbsent None now (key i) ttl (sy_store g) = (sy_store g, Inl ErrStorageClosed) \<Longrightarrow>
    idem_step ttl key g (g\<lparr>sy_clock := now, sy_pc := (sy_pc g)(i := PcDone)\<rparr>)"
| step_get: "sy_pc g i = PcGet \<Longrightarrow> sy_clock g \<le> now \<Longrightarrow> ms_Get None now (key i) (sy_store g) = (s', r) \<Longrightarrow>
    idem_step ttl key g (g\<lparr>sy_store := s', sy_clock := now, sy_pc := (sy_pc g)(i := PcDone)\<rparr>)"
| step_fn: "sy_pc g i = PcRun \<Longrightarrow> sy_clock g \<le> now \<Longrightarrow>
    idem_step ttl key g (g\<lparr>sy_clock := now, sy_pc := (sy_pc g)(i := if ok then PcComplete else PcDel),
                            sy_log := sy_log g @ [(key i, ok)]\<rparr>)"
| step_del: "sy_pc g i = PcDel \<Longrightarrow> sy_clock g \<le> now \<Longrightarrow> ms_Delete None (key i) (sy_store g) = (s', r) \<Longrightarrow>
    idem_step ttl key g (g\<lparr>sy_store := s', sy_clock := now, sy_pc := (sy_pc g)(i := PcDone)\<rparr>)"
| step_complete: "sy_pc g i = PcComplete \<Longrightarrow> sy_clock g \<le> now \<Longrightarrow>
    ms_Set None now (key i) StateAccomplished ttl (sy_store g) = (s', r) \<Longrightarrow>
    idem_step ttl key g (g\<lparr>sy_store := s', sy_clock := now, sy_pc := (sy_pc g)(i := PcDone)\<rparr>)"
| step_close: "sy_clock g \<le> now \<Longrightarrow>
    idem_step ttl key g (g\<lparr>sy_store := fst (ms_Close (sy_store g)), sy_clock := now\<rparr>)"

definition idem_init :: "gotime \<Rightarrow> idem_sys" where
  "idem_init t = \<lparr>sy_store = NewMemoryStorage, sy_clock = t, sy_pc = (\<lambda>_. PcStart), sy_log = []\<rparr>"

definition holders :: "(nat \<Rightarrow> string) \<Rightarrow> idem_sys \<Rightarrow> string \<Rightarrow> nat set" where
  "holders key g k = {i. key i = k \<and> sy_pc g i \<in> {PcRun, PcDel, PcComplete}}"

definition successes :: "idem_sys \<Rightarrow> string \<Rightarrow> nat" where
  "successes g k = count_list (sy_log g) (k, True)"

text \<open>A record that will not expire before \<open>T\<close>.\<close>

definition lasting :: "duration \<Rightarrow> gotime \<Rightarrow> memoryEntry \<Rightarrow> bool" where
  "lasting ttl T e \<longleftrightarrow> (if ttl > 0 then T \<le> me_expiry e else me_expiry e = 0)"

definition idem_inv :: "duration \<Rightarrow> (nat \<Rightarrow> string) \<Rightarrow> gotime \<Rightarrow> idem_sys \<Rightarrow> bool" where
  "idem_inv ttl key T g \<longleftrightarrow> (\<forall>k.
     (\<forall>i \<in> holders key g k. \<forall>j \<in> holders key g k. i = j) \<and>
     (\<forall>i \<in> holders key g k. successes g k = (if sy_pc g i = PcComplete then 1 else 0)) \<and>
     successes g k \<le> 1 \<and>
     (\<not> ms_closed (sy_store g) \<longrightarrow>
        (holders key g k \<noteq> {} \<longrightarrow>
           (\<exists>e. ms_entries (sy_store g) k = Some e \<and> me_state e = StateInFlight \<and> lasting ttl T e)) \<and>
        (holders key g k = {} \<and> successes g k = 1 \<longrightarrow>
           (\<exists>e. ms_entries (sy_store g) k = Some e \<and> me_state e = StateAccomplished \<and> lasting ttl T e))))"

definition key_inv :: "duration \<Rightarrow> (nat \<Rightarrow> string) \<Rightarrow> gotime \<Rightarrow> idem_sys \<Rightarrow> string \<Rightarrow> bool" where
  "key_inv ttl key T g k \<longleftrightarrow>
     (\<forall>i \<in> holders key g k. \<forall>j \<in> holders key g k. i = j) \<and>
     (\<forall>i \<in> holders key g k. successes g k = (if sy_pc g i = PcComplete then 1 else 0)) \<and>
     successes g k \<le> 1 \<and>
     (\<not> ms_closed (sy_store g) \<longrightarrow>
        (holders key g k \<noteq> {} \<longrightarrow>
           (\<exists>e. ms_entries (sy_store g) k = Some e \<and> me_state e = StateInFlight \<and> lasting ttl T e)) \<and>
        (holders key g k = {} \<and> successes g k = 1 \<longrightarrow>
           (\<exists>e. ms_entries (sy_store g) k = Some e \<and> me_state e = StateAccomplished \<and> lasting ttl T e)))"

lemma key_inv_frame:
  assumes "key_inv ttl key T g k" "holders key g' k = holders key g k"
    and "\<And>i. i \<in> holders key g k \<Longrightarrow> sy_pc g' i = sy_pc g i" "successes g' k = successes g k"
    and "ms_closed (sy_store g') = ms_closed (sy_store g)"
    and "\<not> ms_closed (sy_store g) \<Longrightarrow> ms_entries (sy_store g') k = ms_entries (sy_store g) k"
  shows "key_inv ttl key T g' k"
  using assms by (simp add: key_inv_def)

lemma holders_update:
  "holders key (g\<lparr>sy_pc := (sy_pc g)(i := p)\<rparr>) k =
     (if key i = k then if p \<in> {PcRun, PcDel, PcComplete} then insert i (holders key g k) else holders key g k - {i}
      else holders key g k)"
  by (auto simp: holders_def)

lemma holders_frame [simp]:
  "holders key (g\<lparr>sy_store := s\<rparr>) = holders key g" "holders key (g\<lparr>sy_clock := t\<rparr>) = holders key g"
  "holders key (g\<lparr>sy_log := l\<rparr>) = holders key g"
  by (auto simp: holders_def fun_eq_iff)

lemma successes_frame [simp]:
  "successes (g\<lparr>sy_store := s\<rparr>) = successes g" "successes (g\<lparr>sy_clock := t\<rparr>) = successes g"
  "successes (g\<lparr>sy_pc := p\<rparr>) = successes g"
  by (simp_all add: successes_def fun_eq_iff)

lemma lasting_not_expired: "lasting ttl T e \<Longrightarrow> (ttl > 0 \<longrightarrow> now \<le> T) \<Longrightarrow> \<not> me_expired now e"
  by (auto simp: lasting_def me_expired_def split: if_splits)

lemma lasting_new: "now > 0 \<Longrightarrow> (ttl > 0 \<longrightarrow> T \<le> now + ttl) \<Longrightarrow> lasting ttl T \<lparr>me_state = s, me_expiry = ms_new_expiry now ttl\<rparr>"
  by (auto simp: lasting_def ms_new_expiry_def)

lemma SetIfAbsent_other:
  "ms_SetIfAbsent ctx now k ttl m = (m', r) \<Longrightarrow>
     ms_closed m' = ms_closed m \<and> (\<forall>j. j \<noteq> k \<longrightarrow> ms_entries m' j = ms_entries m j)"
  by (auto simp: ms_SetIfAbsent_def Let_def split: if_splits option.splits)

lemma SetIfAbsent_claimed:
  "ms_SetIfAbsent ctx now k ttl m = (m', Inr True) \<Longrightarrow>
     \<not> ms_closed m \<and> ms_entries m' k = Some \<lparr>me_state = StateInFlight, me_expiry = ms_new_expiry now ttl\<rparr> \<and>
     (\<forall>e. ms_entries m k = Some e \<longrightarrow> me_expired now e)"
  by (auto simp: ms_SetIfAbsent_def Let_def split: if_splits option.splits)

lemma SetIfAbsent_refused:
  "ms_SetIfAbsent ctx now k ttl m = (m', Inr False) \<Longrightarrow> m' = m"
  by (auto simp: ms_SetIfAbsent_def Let_def split: if_splits option.splits)

lemma key_inv_step:
  assumes step: "idem_step ttl key g g'" and inv: "\<And>k. key_inv ttl key T g k"
    and clock: "0 < t0" "t0 \<le> sy_clock g" "ttl > 0 \<longrightarrow> T = t0 + ttl" "ttl > 0 \<longrightarrow> sy_clock g' \<le> T"
  shows "key_inv ttl key T g' k"
  using step
proof cases
  case (step_claim i now s')
  show ?thesis
  proof (cases "key i = k")
    case False
    then show ?thesis
      using step_claim SetIfAbsent_other [OF step_claim(5)]
      by (intro key_inv_frame [OF inv [of k]]) (auto simp: holders_def successes_def)
  next
    case True
    note c = SetIfAbsent_claimed [OF step_claim(5)]
    have "\<not> me_expired now e" if "lasting ttl T e" for e
      using lasting_not_expired [OF that] clock(4) step_claim(1) by simp
    then have gone: "\<not> ms_closed (sy_store g)" "\<And>e. ms_entries (sy_store g) k = Some e \<Longrightarrow> \<not> lasting ttl T e"
      using c True by blast+
    then have none: "holders key g k = {}" "successes g k \<noteq> 1"
      using inv [of k] unfolding key_inv_def by meson+
    have "successes g k \<le> 1" using inv [of k] unfolding key_inv_def by blast
    then have "successes g k = 0" using none(2) by linarith
    moreover have "now > 0" "ttl > 0 \<longrightarrow> T \<le> now + ttl" using clock step_claim(4) by auto
    then have "lasting ttl T \<lparr>me_state = StateInFlight, me_expiry = ms_new_expiry now ttl\<rparr>" by (rule lasting_new)
    moreover have "holders key g' k = {i}" using none True by (auto simp: step_claim(1) holders_def)
    moreover have "successes g' k = successes g k" by (simp add: step_claim(1) successes_def)
    ultimately show ?thesis using c True by (simp add: key_inv_def step_claim(1))
  qed
next
  case (step_refused i now s')
  then show ?thesis
    using SetIfAbsent_refused [OF step_refused(5)]
    by (intro key_inv_frame [OF inv [of k]]) (auto simp: holders_def successes_def)
next
  case (step_error i now)
  then show ?thesis
    by (intro key_inv_frame [OF inv [of k]]) (auto simp: holders_def successes_def)
next
  case (step_get i now s' r)
  then show ?thesis
    by (intro key_inv_frame [OF inv [of k]]) (auto simp: holders_def successes_def ms_Get_def)
next
  case (step_fn i now ok)
  show ?thesis
  proof (cases "key i = k")
    case False
    then show ?thesis
      using step_fn by (intro key_inv_frame [OF inv [of k]]) (auto simp: holders_def successes_def)
  next
    case True
    have H: "holders key g' k = holders key g k" "i \<in> holders key g k"
      using step_fn True by (auto simp: holders_def)
    then have "successes g k = 0" "holders key g k = {i}"
      using inv [of k] step_fn(2) by (auto simp: key_inv_def)
    moreover have "successes g' k = successes g k + (if ok then 1 else 0)"
      using True by (simp add: step_fn(1) successes_def)
    ultimately show ?thesis
      using inv [of k] H by (auto simp: key_inv_def step_fn(1))
  qed
next
  case (step_del i now s' r)
  show ?thesis
  proof (cases "key i = k")
    case False
    then show ?thesis
      using step_del by (intro key_inv_frame [OF inv [of k]]) (auto simp: holders_def successes_def ms_Delete_def split: if_splits)
  next
    case True
    have "i \<in> holders key g k" using step_del True by (auto simp: holders_def)
    then have "successes g k = 0" "holders key g k = {i}"
      using inv [of k] step_del(2) by (auto simp: key_inv_def)
    moreover have "holders key g' k = holders key g k - {i}"
      using True by (auto simp: step_del(1) holders_def)
    moreover have "successes g' k = successes g k" by (simp add: step_del(1) successes_def)
    ultimately show ?thesis by (simp add: key_inv_def)
  qed
next
  case (step_complete i now s' r)
  have other: "ms_closed s' = ms_closed (sy_store g) \<and> (\<forall>j. j \<noteq> key i \<longrightarrow> ms_entries s' j = ms_entries (sy_store g) j)"
    using step_complete(4) by (auto simp: ms_Set_def split: if_splits)
  show ?thesis
  proof (cases "key i = k")
    case False
    then show ?thesis
      using step_complete other by (intro key_inv_frame [OF inv [of k]]) (auto simp: holders_def successes_def)
  next
    case True
    have "i \<in> holders key g k" using step_complete True by (auto simp: holders_def)
    then have "successes g k = 1" "holders key g k = {i}"
      using inv [of k] step_complete(2) by (auto simp: key_inv_def)
    moreover have "holders key g' k = holders key g k - {i}"
      using True by (auto simp: step_complete(1) holders_def)
    moreover have "successes g' k = successes g k" by (simp add: step_complete(1) successes_def)
    moreover have "now > 0" "ttl > 0 \<longrightarrow> T \<le> now + ttl" using clock step_complete(3) by auto
    then have "lasting ttl T \<lparr>me_state = StateAccomplished, me_expiry = ms_new_expiry now ttl\<rparr>" by (rule lasting_new)
    moreover have "\<not> ms_closed s' \<Longrightarrow> ms_entries s' k = Some \<lparr>me_state = StateAccomplished, me_expiry = ms_new_expiry now ttl\<rparr>"
      using step_complete(4) True by (auto simp: ms_Set_def split: if_splits)
    ultimately show ?thesis using step_complete(1) by (simp add: key_inv_def)
  qed
next
  case (step_close now)
  have "holders key g' k = holders key g k" "successes g' k = successes g k" "sy_pc g' = sy_pc g"
    "ms_closed (sy_store g')"
    by (simp_all add: step_close(1) ms_Close_def)
  then show ?thesis using inv [of k] by (simp add: key_inv_def)
qed

lemma idem_step_clock: "idem_step ttl key g g' \<Longrightarrow> sy_clock g \<le> sy_clock g'"
  by (cases rule: idem_step.cases) auto

lemma key_inv_reachable:
  assumes "(idem_step ttl key)\<^sup>*\<^sup>* (idem_init t0) g" "0 < t0"
  shows "t0 \<le> sy_clock g \<and> ((ttl > 0 \<longrightarrow> sy_clock g \<le> t0 + ttl) \<longrightarrow> (\<forall>k. key_inv ttl key (t0 + ttl) g k))"
  using assms(1)
proof (induction rule: rtranclp_induct)
  case base
  have "holders key (idem_init t0) k = {}" for k by (auto simp: holders_def idem_init_def)
  moreover have "successes (idem_init t0) k = 0" for k by (simp add: successes_def idem_init_def)
  ultimately show ?case by (simp add: key_inv_def) (simp add: idem_init_def)
next
  case (step g g')
  have mono: "sy_clock g \<le> sy_clock g'" using idem_step_clock [OF step(2)] .
  show ?case
  proof (intro conjI impI allI)
    show "t0 \<le> sy_clock g'" using mono step.IH by simp
    fix k assume b: "ttl > 0 \<longrightarrow> sy_clock g' \<le> t0 + ttl"
    then have "\<And>k. key_inv ttl key (t0 + ttl) g k" using mono step.IH by auto
    from key_inv_step [OF step(2) this assms(2)] step.IH b show "key_inv ttl key (t0 + ttl) g' k" by blast
  qed
qed

section \<open>Properties\<close>

text \<open>
  C13. However many callers run \<open>Execute\<close> on one memory storage and however their operations
  interleave (functions that fail and are retried, and \<open>Close\<close>, included), as long as no record
  has had time to expire: at most one caller at a time is between its claim of a key and its
  release, at most one function for a key ever succeeds, and once one has succeeded no other
  function for that key is running or starts.
\<close>

theorem idempotency_at_most_once:
  assumes "(idem_step ttl key)\<^sup>*\<^sup>* (idem_init t0) g" and "0 < t0" and "ttl > 0 \<longrightarrow> sy_clock g \<le> t0 + ttl"
  shows "(\<forall>i \<in> holders key g k. \<forall>j \<in> holders key g k. i = j) \<and> successes g k \<le> 1 \<and>
    (successes g k = 1 \<longrightarrow> (\<forall>i. key i = k \<longrightarrow> sy_pc g i \<noteq> PcRun \<and>
       (\<forall>now s'. sy_clock g \<le> now \<and> (ttl > 0 \<longrightarrow> now \<le> t0 + ttl) \<and> holders key g k = {} \<longrightarrow>
          ms_SetIfAbsent None now (key i) ttl (sy_store g) \<noteq> (s', Inr True))))"
proof -
  have inv: "key_inv ttl key (t0 + ttl) g k" using key_inv_reachable [OF assms(1,2)] assms(3) by blast
  have "sy_pc g i \<noteq> PcRun" if "successes g k = 1" "key i = k" for i
  proof
    assume "sy_pc g i = PcRun"
    then have "i \<in> holders key g k" using that by (simp add: holders_def)
    with inv that \<open>sy_pc g i = PcRun\<close> show False by (auto simp: key_inv_def)
  qed
  moreover have "ms_SetIfAbsent None now k ttl (sy_store g) \<noteq> (s', Inr True)"
    if "successes g k = 1" "holders key g k = {}" "ttl > 0 \<longrightarrow> now \<le> t0 + ttl" for now s'
  proof
    assume "ms_SetIfAbsent None now k ttl (sy_store g) = (s', Inr True)"
    from SetIfAbsent_claimed [OF this] inv that lasting_not_expired [OF _ that(3)] show False
      by (auto simp: key_inv_def)
  qed
  ultimately show ?thesis using inv by (auto simp: key_inv_def)
qed


text \<open>
  C39. One \<open>Execute\<close> on a memory storage, with no other caller in between: an accomplished key
  returns success and a key in flight \<open>ErrAlreadyInFlight\<close>, both without calling the function;
  an absent key calls it exactly once, and leaves the key accomplished for its time to live when
  the function succeeds, or absent again with the function's error when it fails. The records of
  other keys do not change.
\<close>

theorem idempotency_execute:
  fixes h :: "(MemoryStorage, storage_error) idem_Handler" and fn :: "'w \<Rightarrow> 'w \<times> 'f option"
  assumes "h_store h = ms_ops" and "ms_inv m" and "key \<noteq> []" and "0 < now1" and "0 < now3"
    and "ms_view now2 m key = ms_view now1 m key"
  shows "case ms_view now1 m key of
      StateAccomplished \<Rightarrow> idem_Execute h ctx (now1, now2, now3) key fn (m, w) = ((m, w), None)
    | StateInFlight \<Rightarrow> idem_Execute h ctx (now1, now2, now3) key fn (m, w) = ((m, w), Some IdErrAlreadyInFlight)
    | StateAbsent \<Rightarrow>
        \<exists>m'. idem_Execute h ctx (now1, now2, now3) key fn (m, w) = ((m', fst (fn w)), map_option IdFn (snd (fn w))) \<and>
          ms_inv m' \<and> (\<forall>j t. j \<noteq> key \<longrightarrow> ms_view t m' j = ms_view t m j) \<and>
          (case snd (fn w) of
             None \<Rightarrow> \<forall>t. alive_until (h_ttl h) now3 t \<longrightarrow> ms_view t m' key = StateAccomplished
           | Some e \<Rightarrow> \<forall>t. ms_view t m' key = StateAbsent)"
  by (rule msi.execute_spec [OF assms])

section \<open>Witnesses\<close>

theorem idempotency_execute_witness:
  "snd (idem_Execute (idem_New ms_ops []) None (1, 1, 2) ''k'' (\<lambda>w. (w + 1, None :: nat option)) (NewMemoryStorage, 5 :: nat)) = None \<and>
    snd (fst (idem_Execute (idem_New ms_ops []) None (1, 1, 2) ''k'' (\<lambda>w. (w + 1, None :: nat option)) (NewMemoryStorage, 5 :: nat))) = 6"
  using idempotency_execute [of "idem_New ms_ops []" NewMemoryStorage "''k''" 1 2 1 None "\<lambda>w. (w + 1, None :: nat option)" "5 :: nat"]
  by (auto simp: idem_New_def ms_inv_def NewMemoryStorage_def ms_view_def)

text \<open>A run of two callers: the first claims and succeeds.\<close>

definition sample_key :: "nat \<Rightarrow> string" where
  "sample_key i = ''k''"

lemma sample_claim:
  assumes "sy_pc g i = PcStart" "sy_clock g \<le> now" "\<not> ms_closed (sy_store g)"
    "\<And>e. ms_entries (sy_store g) ''k'' = Some e \<Longrightarrow> me_expired now e"
  shows "idem_step ttl sample_key g (g\<lparr>sy_store := (sy_store g)\<lparr>ms_entries := (ms_entries (sy_store g))(''k'' \<mapsto>
      \<lparr>me_state = StateInFlight, me_expiry = ms_new_expiry now ttl\<rparr>)\<rparr>, sy_clock := now, sy_pc := (sy_pc g)(i := PcRun)\<rparr>)"
  using assms by (intro step_claim) (auto simp: sample_key_def ms_SetIfAbsent_def Let_def split: option.splits)

lemma sample_two_steps:
  "\<exists>g. (idem_step 0 sample_key)\<^sup>*\<^sup>* (idem_init 1) g \<and> sy_clock g = 1 \<and> successes g ''k'' = 1 \<and> sy_pc g 0 = PcComplete"
proof -
  let ?g1 = "(idem_init 1)\<lparr>sy_store := (sy_store (idem_init 1))\<lparr>ms_entries := (ms_entries (sy_store (idem_init 1)))(''k'' \<mapsto>
      \<lparr>me_state = StateInFlight, me_expiry = ms_new_expiry 1 0\<rparr>)\<rparr>, sy_clock := 1, sy_pc := (sy_pc (idem_init 1))(0 := PcRun)\<rparr>"
  let ?g2 = "?g1\<lparr>sy_clock := 1, sy_pc := (sy_pc ?g1)(0 := if True then PcComplete else PcDel), sy_log := sy_log ?g1 @ [(sample_key 0, True)]\<rparr>"
  have "idem_step 0 sample_key (idem_init 1) ?g1"
    by (rule sample_claim) (simp_all add: idem_init_def NewMemoryStorage_def)
  moreover have "idem_step 0 sample_key ?g1 ?g2"
    by (rule step_fn) simp_all
  ultimately have "(idem_step 0 sample_key)\<^sup>*\<^sup>* (idem_init 1) ?g2" by (meson r_into_rtranclp rtranclp_trans)
  moreover have "sy_clock ?g2 = 1 \<and> successes ?g2 ''k'' = 1 \<and> sy_pc ?g2 0 = PcComplete"
    by (simp add: successes_def idem_init_def sample_key_def)
  ultimately show ?thesis by blast
qed

theorem idempotency_at_most_once_witness:
  "\<exists>g. (idem_step 0 sample_key)\<^sup>*\<^sup>* (idem_init 1) g \<and> successes g ''k'' = 1 \<and> holders sample_key g ''k'' = {0}"
proof -
  obtain g where g: "(idem_step 0 sample_key)\<^sup>*\<^sup>* (idem_init 1) g" "successes g ''k'' = 1" "sy_pc g 0 = PcComplete"
    using sample_two_steps by blast
  have "0 \<in> holders sample_key g ''k''" using g(3) by (simp add: holders_def sample_key_def)
  moreover have "\<forall>i \<in> holders sample_key g ''k''. \<forall>j \<in> holders sample_key g ''k''. i = j"
    using idempotency_at_most_once [OF g(1), of "''k''"] by simp
  ultimately have "holders sample_key g ''k'' = {0}" by blast
  with g show ?thesis by blast
qed

text \<open>
  A record that expires while its function runs is claimed again: two functions of one key run
  together, and the \<open>Del\<close> of the first takes the claim of the second away.
\<close>

lemma idempotency_expired_claim:
  "\<exists>g g'. (idem_step 1 sample_key)\<^sup>*\<^sup>* (idem_init 1) g \<and> {0, 1} \<subseteq> holders sample_key g ''k'' \<and>
     idem_step 1 sample_key g g' \<and> sy_pc g' 1 = PcRun \<and> ms_view 3 (sy_store g') ''k'' = StateInFlight \<and>
     (\<exists>g''. idem_step 1 sample_key g' g'' \<and> sy_pc g'' 1 = PcRun \<and> ms_view 3 (sy_store g'') ''k'' = StateAbsent)"
proof -
  let ?upd = "\<lambda>now i g. g\<lparr>sy_store := (sy_store g)\<lparr>ms_entries := (ms_entries (sy_store g))(''k'' \<mapsto>
      \<lparr>me_state = StateInFlight, me_expiry = ms_new_expiry now 1\<rparr>)\<rparr>, sy_clock := now, sy_pc := (sy_pc g)(i := PcRun)\<rparr>"
  let ?g1 = "?upd 1 0 (idem_init 1)"
  let ?g2 = "?upd 3 1 ?g1"
  let ?g3 = "?g2\<lparr>sy_clock := 3, sy_pc := (sy_pc ?g2)(0 := if False then PcComplete else PcDel), sy_log := sy_log ?g2 @ [(sample_key 0, False)]\<rparr>"
  let ?g4 = "?g3\<lparr>sy_store := fst (ms_Delete None ''k'' (sy_store ?g3)), sy_clock := 3, sy_pc := (sy_pc ?g3)(0 := PcDone)\<rparr>"
  have s1: "idem_step 1 sample_key (idem_init 1) ?g1"
    by (rule sample_claim) (simp_all add: idem_init_def NewMemoryStorage_def)
  have s2: "idem_step 1 sample_key ?g1 ?g2"
    by (rule sample_claim) (simp_all add: idem_init_def NewMemoryStorage_def me_expired_def ms_new_expiry_def)
  have s3: "idem_step 1 sample_key ?g2 ?g3"
    by (rule step_fn) (simp_all add: idem_init_def)
  have s4: "idem_step 1 sample_key ?g3 ?g4"
    by (rule step_del [where r = "snd (ms_Delete None ''k'' (sy_store ?g3))"]) (simp_all add: idem_init_def sample_key_def)
  have r: "(idem_step 1 sample_key)\<^sup>*\<^sup>* (idem_init 1) ?g2" using s1 s2 by (meson r_into_rtranclp rtranclp_trans)
  have "{0, 1} \<subseteq> holders sample_key ?g2 ''k''" by (simp add: holders_def sample_key_def idem_init_def)
  moreover have "ms_view 3 (sy_store ?g3) ''k'' = StateInFlight" "ms_view 3 (sy_store ?g4) ''k'' = StateAbsent"
    by (simp_all add: ms_view_def ms_Delete_def idem_init_def NewMemoryStorage_def me_expired_def ms_new_expiry_def)
  moreover have "sy_pc ?g3 1 = PcRun" "sy_pc ?g4 1 = PcRun" by simp_all
  ultimately show ?thesis using r s3 s4 by blast
qed

end
