(* ===== verification/Limiter.thy ===== *)
theory Limiter
  imports GoPrelude "HOL-Library.AList"
begin

text \<open>
  The packages \<open>common/limiter\<close> (errors), \<open>common/limiter/count\<close> and \<open>common/limiter/keycount\<close>.
  The locale \<open>permits\<close> is the contract of a limiter whose calls are atomic; it is interpreted on
  the mutex-protected limiter by key and on the channel semaphore. The limiters that work with
  atomic counters are not atomic as calls: their additions are the steps of a relation on any
  number of goroutines. The semaphore by key, with its condition variable, is modelled by turns.
\<close>

datatype limiter_error = ErrLimitExceeded | ErrKeyRequired | ErrInvalidLimit | ErrInvalidSize | LimCtx ctx_err

section \<open>The contract of an atomic limiter\<close>

locale permits =
  fixes acquire :: "'k \<Rightarrow> 's \<Rightarrow> 's option"
    and release :: "'k \<Rightarrow> 's \<Rightarrow> 's"
    and held :: "'s \<Rightarrow> 'k \<Rightarrow> nat"
    and limit :: "'s \<Rightarrow> nat"
    and inv :: "'s \<Rightarrow> bool"
  assumes acquire_ok: "inv s \<Longrightarrow> held s k < limit s \<Longrightarrow>
      \<exists>s'. acquire k s = Some s' \<and> inv s' \<and> limit s' = limit s \<and> held s' = (held s)(k := held s k + 1)"
    and acquire_full: "inv s \<Longrightarrow> limit s \<le> held s k \<Longrightarrow> acquire k s = None"
    and release_ok: "inv s \<Longrightarrow>
      inv (release k s) \<and> limit (release k s) = limit s \<and> held (release k s) = (held s)(k := held s k - 1)"
begin

text \<open>A sequence of calls, with what each acquisition was told; the counts by key are the specification.\<close>

fun run :: "('k \<times> bool) list \<Rightarrow> 's \<Rightarrow> bool list \<times> 's" where
  "run [] s = ([], s)"
| "run ((k, True) # cs) s =
     (case acquire k s of
        Some s' \<Rightarrow> map_prod ((#) True) id (run cs s')
      | None \<Rightarrow> map_prod ((#) False) id (run cs s))"
| "run ((k, False) # cs) s = run cs (release k s)"

end

text \<open>The specification: a count by key, bounded by the limit.\<close>

fun count_run :: "nat \<Rightarrow> ('k \<times> bool) list \<Rightarrow> ('k \<Rightarrow> nat) \<Rightarrow> bool list \<times> ('k \<Rightarrow> nat)" where
  "count_run n [] c = ([], c)"
| "count_run n ((k, True) # cs) c =
     (if c k < n then map_prod ((#) True) id (count_run n cs (c(k := c k + 1)))
      else map_prod ((#) False) id (count_run n cs c))"
| "count_run n ((k, False) # cs) c = count_run n cs (c(k := c k - 1))"

context permits
begin

lemma run_counts:
  "inv s \<Longrightarrow> fst (run cs s) = fst (count_run (limit s) cs (held s)) \<and>
     held (snd (run cs s)) = snd (count_run (limit s) cs (held s)) \<and> inv (snd (run cs s)) \<and> limit (snd (run cs s)) = limit s"
proof (induction cs arbitrary: s)
  case (Cons c cs)
  obtain k a where c: "c = (k, a)" by (cases c)
  show ?case
  proof (cases a)
    case True
    show ?thesis
    proof (cases "held s k < limit s")
      case True
      obtain s' where "acquire k s = Some s'" "inv s'" "limit s' = limit s" "held s' = (held s)(k := held s k + 1)"
        using acquire_ok [OF Cons.prems True] by blast
      with Cons.IH [of s'] True \<open>a\<close> show ?thesis by (simp add: c fun_upd_def)
    next
      case False
      then have "acquire k s = None" using acquire_full [OF Cons.prems] by simp
      with Cons.IH [OF Cons.prems] False \<open>a\<close> show ?thesis by (simp add: c)
    qed
  next
    case False
    with Cons.IH [of "release k s"] release_ok [OF Cons.prems, of k] show ?thesis by (simp add: c fun_upd_def)
  qed
qed simp

end

lemma count_run_bound:
  "(\<And>k. c k \<le> n) \<Longrightarrow> snd (count_run n cs c) k \<le> n"
proof (induction n cs c rule: count_run.induct)
  case (2 n k' cs c)
  have "(c(k' := c k' + 1)) j \<le> n" if "c k' < n" for j using 2(3) [of j] that by simp
  with 2 show ?case by (cases "c k' < n") (simp_all del: fun_upd_apply)
next
  case (3 n k' cs c)
  have "(c(k' := c k' - 1)) j \<le> n" for j using 3(2) [of j] 3(2) [of k'] by auto
  with 3(1) show ?case by (simp del: fun_upd_apply)
qed simp

section \<open>The mutex limiter by key\<close>

record mutexLimit =
  ml_current :: "(string \<times> uint32) list"
  ml_n :: uint32

definition mutexLimit_New :: "int \<Rightarrow> mutexLimit" where
  "mutexLimit_New n = \<lparr>ml_current = [], ml_n = word_of_int n\<rparr>"

definition ml_count :: "mutexLimit \<Rightarrow> string \<Rightarrow> uint32" where
  "ml_count l k = (case map_of (ml_current l) k of None \<Rightarrow> 0 | Some c \<Rightarrow> c)"

definition mutexLimit_Running :: "mutexLimit \<Rightarrow> uint32" where
  "mutexLimit_Running l = foldl (\<lambda>total (k, v). total + v) 0 (ml_current l)"

definition mutexLimit_Acquire :: "string \<Rightarrow> mutexLimit \<Rightarrow> mutexLimit \<times> limiter_error option" where
  "mutexLimit_Acquire k l =
     (if ml_count l k \<ge> ml_n l then (l, Some ErrLimitExceeded)
      else (l\<lparr>ml_current := AList.update k (ml_count l k + 1) (ml_current l)\<rparr>, None))"

definition mutexLimit_Release :: "string \<Rightarrow> mutexLimit \<Rightarrow> mutexLimit" where
  "mutexLimit_Release k l =
     (case map_of (ml_current l) k of
        None \<Rightarrow> l
      | Some n \<Rightarrow>
          if n \<le> 1 then l\<lparr>ml_current := AList.delete k (ml_current l)\<rparr>
          else l\<lparr>ml_current := AList.update k (n - 1) (ml_current l)\<rparr>)"

definition ml_acquire :: "string \<Rightarrow> mutexLimit \<Rightarrow> mutexLimit option" where
  "ml_acquire k l = (case mutexLimit_Acquire k l of (l', None) \<Rightarrow> Some l' | (_, Some e) \<Rightarrow> None)"

definition ml_held :: "mutexLimit \<Rightarrow> string \<Rightarrow> nat" where
  "ml_held l k = unat (ml_count l k)"

definition ml_inv :: "mutexLimit \<Rightarrow> bool" where
  "ml_inv l \<longleftrightarrow> distinct (map fst (ml_current l))"

lemma unat_add_1: "c < (n :: uint32) \<Longrightarrow> unat (c + 1) = unat c + 1"
proof -
  assume "c < n"
  then have "unat c < unat n" by (simp add: word_less_nat_alt)
  moreover have "unat n < 2 ^ LENGTH(32)" by (rule unsigned_less)
  ultimately show ?thesis by (subst unat_plus_if_size) (simp add: word_size)
qed

interpretation mlp: permits ml_acquire mutexLimit_Release ml_held "\<lambda>l. unat (ml_n l)" ml_inv
proof
  fix l k
  assume inv: "ml_inv l"
  show "ml_acquire k l = None" if "unat (ml_n l) \<le> ml_held l k"
    using that by (simp add: ml_acquire_def mutexLimit_Acquire_def ml_held_def word_le_nat_alt)
  show "\<exists>l'. ml_acquire k l = Some l' \<and> ml_inv l' \<and> unat (ml_n l') = unat (ml_n l) \<and>
      ml_held l' = (ml_held l)(k := ml_held l k + 1)" if "ml_held l k < unat (ml_n l)"
  proof -
    have lt: "ml_count l k < ml_n l" using that by (simp add: ml_held_def word_less_nat_alt)
    let ?l = "l\<lparr>ml_current := AList.update k (ml_count l k + 1) (ml_current l)\<rparr>"
    have "ml_held ?l = (ml_held l)(k := ml_held l k + 1)"
      by (auto simp: ml_held_def ml_count_def update_conv' fun_eq_iff unat_add_1 [OF lt, unfolded ml_count_def])
    moreover have "ml_inv ?l" using inv by (simp add: ml_inv_def distinct_update)
    ultimately show ?thesis using lt by (simp add: ml_acquire_def mutexLimit_Acquire_def not_le)
  qed
  show "ml_inv (mutexLimit_Release k l) \<and> unat (ml_n (mutexLimit_Release k l)) = unat (ml_n l) \<and>
      ml_held (mutexLimit_Release k l) = (ml_held l)(k := ml_held l k - 1)"
  proof (cases "map_of (ml_current l) k")
    case None
    then show ?thesis using inv by (simp add: mutexLimit_Release_def fun_eq_iff ml_held_def ml_count_def)
  next
    case (Some n)
    show ?thesis
    proof (cases "n \<le> 1")
      case True
      then have "unat n \<le> 1" by (simp add: word_le_nat_alt)
      then show ?thesis using inv Some True
        by (auto simp: mutexLimit_Release_def ml_inv_def distinct_delete fun_eq_iff ml_held_def ml_count_def delete_conv')
    next
      case False
      then have "unat (n - 1) = unat n - 1" by (subst unat_minus_one) auto
      then show ?thesis using inv Some False
        by (auto simp: mutexLimit_Release_def ml_inv_def distinct_update fun_eq_iff ml_held_def ml_count_def update_conv')
    qed
  qed
qed

section \<open>The channel semaphore\<close>

text \<open>A buffered channel of empty values is the number of values in it and its capacity.\<close>

record blockingLimit =
  bl_len :: nat
  bl_cap :: nat

text \<open>\<open>make\<close> panics on a negative capacity.\<close>

definition NewBlocking :: "int \<Rightarrow> blockingLimit option" where
  "NewBlocking n = (if n < 0 then None else Some \<lparr>bl_len = nat n, bl_cap = nat n\<rparr>)"

definition blockingLimit_Running :: "blockingLimit \<Rightarrow> int" where
  "blockingLimit_Running l = int (bl_cap l) - int (bl_len l)"

text \<open>
  The \<open>select\<close> of \<open>Acquire\<close>: with a value in the channel and the context done the choice is
  arbitrary (\<open>pick\<close>); with neither the call waits (None).
\<close>

definition blockingLimit_Acquire :: "bool \<Rightarrow> ctx \<Rightarrow> blockingLimit \<Rightarrow> (blockingLimit \<times> limiter_error option) option" where
  "blockingLimit_Acquire pick ctx l =
     (case ctx of
        None \<Rightarrow> if bl_len l > 0 then Some (l\<lparr>bl_len := bl_len l - 1\<rparr>, None) else None
      | Some e \<Rightarrow>
          if bl_len l > 0 \<and> pick then Some (l\<lparr>bl_len := bl_len l - 1\<rparr>, None)
          else Some (l, Some (LimCtx e)))"

definition blockingLimit_Release :: "blockingLimit \<Rightarrow> blockingLimit" where
  "blockingLimit_Release l = (if bl_len l < bl_cap l then l\<lparr>bl_len := bl_len l + 1\<rparr> else l)"

definition bl_acquire :: "unit \<Rightarrow> blockingLimit \<Rightarrow> blockingLimit option" where
  "bl_acquire k l = map_option fst (blockingLimit_Acquire True None l)"

definition bl_held :: "blockingLimit \<Rightarrow> unit \<Rightarrow> nat" where
  "bl_held l k = bl_cap l - bl_len l"

definition bl_inv :: "blockingLimit \<Rightarrow> bool" where
  "bl_inv l \<longleftrightarrow> bl_len l \<le> bl_cap l"

interpretation blp: permits bl_acquire "\<lambda>_. blockingLimit_Release" bl_held bl_cap bl_inv
  by unfold_locales
    (auto simp: bl_acquire_def blockingLimit_Acquire_def blockingLimit_Release_def bl_held_def bl_inv_def fun_eq_iff)

section \<open>The atomic limiter\<close>

record atomicLimit =
  al_n :: uint32
  al_current :: uint32

definition atomicLimit_New :: "int \<Rightarrow> atomicLimit" where
  "atomicLimit_New n = \<lparr>al_n = word_of_int n, al_current = 0\<rparr>"

definition atomicLimit_Running :: "atomicLimit \<Rightarrow> int" where
  "atomicLimit_Running l = int (unat (al_current l))"

definition minusOne :: uint32 where
  "minusOne = not 0"

text \<open>\<open>atomic.AddUint32\<close> returns the new value.\<close>

definition al_Add :: "uint32 \<Rightarrow> atomicLimit \<Rightarrow> atomicLimit \<times> uint32" where
  "al_Add d l = (let c = al_current l + d in (l\<lparr>al_current := c\<rparr>, c))"

text \<open>
  The two halves of \<open>Acquire\<close>: the addition, which says whether the call is over the limit, and
  then the addition that takes it back.
\<close>

definition atomicLimit_enter :: "atomicLimit \<Rightarrow> atomicLimit \<times> bool" where
  "atomicLimit_enter l = (case al_Add 1 l of (l', c) \<Rightarrow> (l', c > al_n l))"

definition atomicLimit_undo :: "atomicLimit \<Rightarrow> atomicLimit \<times> limiter_error option" where
  "atomicLimit_undo l = (fst (al_Add minusOne l), Some ErrLimitExceeded)"

definition atomicLimit_Acquire :: "atomicLimit \<Rightarrow> atomicLimit \<times> limiter_error option" where
  "atomicLimit_Acquire l = (case atomicLimit_enter l of (l', over) \<Rightarrow> if over then atomicLimit_undo l' else (l', None))"

definition atomicLimit_Release :: "atomicLimit \<Rightarrow> atomicLimit" where
  "atomicLimit_Release l = fst (al_Add minusOne l)"

text \<open>
  Goroutines that acquire and release: idle, over the limit and about to take the addition back,
  or holding a permit. \<open>N\<close> of them exist. \<open>Release\<close> does not check that its caller holds a permit, so
  any goroutine may call it without one; the last part of the state counts these releases.
\<close>

datatype al_pc = AlIdle | AlOver | AlHold

type_synonym al_state = "atomicLimit \<times> (nat \<Rightarrow> al_pc) \<times> nat"

inductive al_step :: "nat \<Rightarrow> al_state \<Rightarrow> al_state \<Rightarrow> bool" for N :: nat where
  al_enter: "i < N \<Longrightarrow> pc i = AlIdle \<Longrightarrow> atomicLimit_enter l = (l', over) \<Longrightarrow>
    al_step N (l, pc, x) (l', pc(i := if over then AlOver else AlHold), x)"
| al_undo: "i < N \<Longrightarrow> pc i = AlOver \<Longrightarrow> al_step N (l, pc, x) (fst (atomicLimit_undo l), pc(i := AlIdle), x)"
| al_release: "i < N \<Longrightarrow> pc i = AlHold \<Longrightarrow> al_step N (l, pc, x) (atomicLimit_Release l, pc(i := AlIdle), x)"
| al_spurious: "i < N \<Longrightarrow> pc i = AlIdle \<Longrightarrow> al_step N (l, pc, x) (atomicLimit_Release l, pc, x + 1)"

inductive_cases al_stepE: "al_step N (l, pc, x) s'"

definition at_pc :: "nat \<Rightarrow> (nat \<Rightarrow> al_pc) \<Rightarrow> al_pc \<Rightarrow> nat set" where
  "at_pc N pc p = {i. i < N \<and> pc i = p}"

text \<open>
  The counter is the number of goroutines that have added and not yet taken back, less the releases
  without a permit; as long as there are none, no arithmetic wraps and the limit holds.
\<close>

definition al_inv :: "nat \<Rightarrow> uint32 \<Rightarrow> al_state \<Rightarrow> bool" where
  "al_inv N n = (\<lambda>(l, pc, x). al_n l = n \<and>
     al_current l = of_nat (card (at_pc N pc AlHold) + card (at_pc N pc AlOver)) - of_nat x \<and>
     (x = 0 \<longrightarrow> card (at_pc N pc AlHold) \<le> unat n))"

lemma finite_at_pc [simp]: "finite (at_pc N pc p)"
  by (simp add: at_pc_def)

lemma card_at_pc_update:
  assumes "i < N" "pc i = q" "q \<noteq> p'"
  shows "card (at_pc N (pc(i := p')) p) =
    (if p = p' then card (at_pc N pc p) + 1 else if p = q then card (at_pc N pc p) - 1 else card (at_pc N pc p))"
proof -
  consider "p = p'" | "p = q" "p \<noteq> p'" | "p \<noteq> p'" "p \<noteq> q" by blast
  then show ?thesis
  proof cases
    case 1
    then have "at_pc N (pc(i := p')) p = insert i (at_pc N pc p)" "i \<notin> at_pc N pc p"
      using assms by (auto simp: at_pc_def)
    then show ?thesis using 1 by simp
  next
    case 2
    then have "at_pc N (pc(i := p')) p = at_pc N pc p - {i}" "i \<in> at_pc N pc p"
      using assms by (auto simp: at_pc_def)
    then show ?thesis using 2 by simp
  next
    case 3
    then have "at_pc N (pc(i := p')) p = at_pc N pc p" using assms by (auto simp: at_pc_def)
    then show ?thesis using 3 by simp
  qed
qed

lemma at_pc_pos: "i < N \<Longrightarrow> pc i = p \<Longrightarrow> card (at_pc N pc p) > 0"
  by (auto simp: at_pc_def card_gt_0_iff)

lemma card_at_pc_two: "p \<noteq> q \<Longrightarrow> i < N \<Longrightarrow> pc i \<notin> {p, q} \<Longrightarrow> card (at_pc N pc p) + card (at_pc N pc q) < N"
proof -
  assume a: "p \<noteq> q" "i < N" "pc i \<notin> {p, q}"
  have "at_pc N pc p \<inter> at_pc N pc q = {}" using a(1) by (auto simp: at_pc_def)
  then have "card (at_pc N pc p) + card (at_pc N pc q) = card (at_pc N pc p \<union> at_pc N pc q)"
    by (simp add: card_Un_disjoint)
  also have "at_pc N pc p \<union> at_pc N pc q \<subset> {..<N}" using a by (auto simp: at_pc_def)
  then have "card (at_pc N pc p \<union> at_pc N pc q) < card {..<N}" by (intro psubset_card_mono) auto
  finally show ?thesis by simp
qed

lemma minus_one_add: "al_Add minusOne l = (l\<lparr>al_current := al_current l - 1\<rparr>, al_current l - 1)"
  by (simp add: al_Add_def minusOne_def Let_def)

lemma card_at_pc_sum: "card (at_pc N pc AlHold) + card (at_pc N pc AlOver) \<le> N"
proof -
  have "card (at_pc N pc AlHold) + card (at_pc N pc AlOver) = card (at_pc N pc AlHold \<union> at_pc N pc AlOver)"
    by (intro card_Un_disjoint [symmetric]) (auto simp: at_pc_def)
  also have "\<dots> \<le> card {..<N}" by (intro card_mono) (auto simp: at_pc_def)
  finally show ?thesis by simp
qed

lemma unat_of_nat32: "k < 2 ^ 32 \<Longrightarrow> unat (of_nat k :: uint32) = k"
  by (simp add: unat_of_nat take_bit_nat_eq_self)

text \<open>Whether a call that adds now is over the limit, while no permit has been released twice.\<close>

lemma enter_over:
  assumes "al_inv N n (l, pc, 0)" "N < 2 ^ 32" "i < N" "pc i = AlIdle"
  shows "snd (atomicLimit_enter l) \<longleftrightarrow> unat n \<le> card (at_pc N pc AlHold) + card (at_pc N pc AlOver)"
proof -
  define k where "k = card (at_pc N pc AlHold) + card (at_pc N pc AlOver)"
  have "k < N" using card_at_pc_two [of AlHold AlOver i N pc] assms(3,4) by (simp add: k_def)
  then have u: "unat (of_nat (k + 1) :: uint32) = k + 1" using assms(2) by (intro unat_of_nat32) simp
  have "al_current l + 1 = of_nat (k + 1)" "al_n l = n" using assms(1) by (simp_all add: al_inv_def k_def)
  then have "snd (atomicLimit_enter l) \<longleftrightarrow> n < of_nat (k + 1)"
    by (simp only: atomicLimit_enter_def al_Add_def Let_def prod.case snd_conv)
  also have "\<dots> \<longleftrightarrow> unat n < k + 1" by (simp only: word_less_nat_alt u)
  finally show ?thesis by (auto simp: k_def)
qed

lemma al_inv_step:
  assumes "al_step N (l, pc, x) s'" "al_inv N n (l, pc, x)" "N < 2 ^ 32"
  shows "al_inv N n s'"
proof -
  define h where "h = card (at_pc N pc AlHold)"
  define v where "v = card (at_pc N pc AlOver)"
  have inv: "al_n l = n" "al_current l = of_nat (h + v) - of_nat x" "x = 0 \<longrightarrow> h \<le> unat n"
    using assms(2) by (simp_all add: al_inv_def h_def v_def)
  have goal: "al_inv N n (l', pc', x')"
    if "al_n l' = n" "al_current l' = of_nat (h' + v') - of_nat x'" "x' = 0 \<longrightarrow> h' \<le> unat n"
      "card (at_pc N pc' AlHold) = h'" "card (at_pc N pc' AlOver) = v'" for l' pc' x' h' v'
    using that by (simp add: al_inv_def)
  from assms(1) show ?thesis
  proof (rule al_stepE, goal_cases)
    case (1 i l' over)
    have l': "al_n l' = n" "al_current l' = al_current l + 1" "over = snd (atomicLimit_enter l)"
      using 1 inv(1) by (auto simp: atomicLimit_enter_def al_Add_def Let_def)
    note up = card_at_pc_update [of i N pc AlIdle, OF 1(2,3)]
    show ?case
    proof (cases over)
      case True
      have "card (at_pc N (pc(i := AlOver)) AlHold) = h" "card (at_pc N (pc(i := AlOver)) AlOver) = Suc v"
        by (simp_all add: up h_def v_def)
      moreover have "al_current l' = of_nat (h + Suc v) - of_nat x" unfolding l'(2) inv(2) by simp
      ultimately show ?thesis using goal l'(1) inv(3) unfolding 1 if_P [OF True] by blast
    next
      case False
      have "card (at_pc N (pc(i := AlHold)) AlHold) = Suc h" "card (at_pc N (pc(i := AlHold)) AlOver) = v"
        by (simp_all add: up h_def v_def)
      moreover have "al_current l' = of_nat (Suc h + v) - of_nat x" unfolding l'(2) inv(2) by simp
      moreover have "Suc h \<le> unat n" if "x = 0"
      proof -
        have "\<not> snd (atomicLimit_enter l)" using l'(3) False by blast
        then have "\<not> unat n \<le> h + v"
          using enter_over [OF assms(2) [unfolded that] assms(3) 1(2,3), folded h_def v_def] by blast
        then show ?thesis by linarith
      qed
      ultimately show ?thesis using goal l'(1) unfolding 1 if_not_P [OF False] by blast
    qed
  next
    case (2 i)
    note up = card_at_pc_update [of i N pc AlOver, OF 2(2,3)]
    have "0 < v" using at_pc_pos [of i N pc AlOver, OF 2(2,3)] by (simp only: v_def)
    then obtain k where k: "v = Suc k" by (cases v) simp_all
    have "card (at_pc N (pc(i := AlIdle)) AlHold) = h" "card (at_pc N (pc(i := AlIdle)) AlOver) = k"
      using k by (simp_all add: up h_def v_def)
    moreover have "al_n (fst (atomicLimit_undo l)) = n" "al_current (fst (atomicLimit_undo l)) = of_nat (h + k) - of_nat x"
      using inv(1) by (simp_all add: atomicLimit_undo_def minus_one_add inv(2) k)
    ultimately show ?case using goal inv(3) unfolding 2 by blast
  next
    case (3 i)
    note up = card_at_pc_update [of i N pc AlHold, OF 3(2,3)]
    have "0 < h" using at_pc_pos [of i N pc AlHold, OF 3(2,3)] by (simp only: h_def)
    then obtain k where k: "h = Suc k" by (cases h) simp_all
    have "card (at_pc N (pc(i := AlIdle)) AlHold) = k" "card (at_pc N (pc(i := AlIdle)) AlOver) = v"
      using k by (simp_all add: up h_def v_def)
    moreover have "al_n (atomicLimit_Release l) = n" "al_current (atomicLimit_Release l) = of_nat (k + v) - of_nat x"
      using inv(1) by (simp_all add: atomicLimit_Release_def minus_one_add inv(2) k)
    moreover have "x = 0 \<longrightarrow> k \<le> unat n" using inv(3) k by auto
    ultimately show ?case using goal unfolding 3 by blast
  next
    case (4 i)
    have "al_n (atomicLimit_Release l) = n" "al_current (atomicLimit_Release l) = of_nat (h + v) - of_nat (x + 1)"
      using inv(1) by (simp_all add: atomicLimit_Release_def minus_one_add inv(2))
    then show ?case using goal [of "atomicLimit_Release l" h v "x + 1" pc] unfolding 4 h_def v_def by simp
  qed
qed

definition al_init :: "int \<Rightarrow> al_state" where
  "al_init n = (atomicLimit_New n, \<lambda>_. AlIdle, 0)"

lemma al_inv_reachable:
  assumes "(al_step N)\<^sup>*\<^sup>* (al_init n) s" "N < 2 ^ 32"
  shows "al_inv N (word_of_int n) s"
  using assms(1)
proof (induction rule: rtranclp_induct)
  case base
  have "at_pc N (\<lambda>_. AlIdle) AlHold = {}" "at_pc N (\<lambda>_. AlIdle) AlOver = {}" by (auto simp: at_pc_def)
  then show ?case by (simp add: al_inv_def al_init_def atomicLimit_New_def)
next
  case (step s s')
  obtain l pc x where "s = (l, pc, x)" by (cases s)
  with step al_inv_step assms(2) show ?case by blast
qed

section \<open>Properties\<close>


text \<open>
  The mutex limiter by key behaves as a count by key that is raised while it is below the limit
  and lowered when it is not zero: every acquisition of any sequence of calls is granted or
  refused as the counts say, no key ever has more than \<open>n\<close> permits, keys do not affect each
  other, and a release without a permit changes nothing.
\<close>

lemma limiter_keycount_permits:
  assumes "0 \<le> n" and "n < 2 ^ 32"
  shows "fst (mlp.run cs (mutexLimit_New n)) = fst (count_run (nat n) cs (\<lambda>_. 0)) \<and>
    ml_held (snd (mlp.run cs (mutexLimit_New n))) = snd (count_run (nat n) cs (\<lambda>_. 0)) \<and>
    ml_held (snd (mlp.run cs (mutexLimit_New n))) k \<le> nat n"
proof -
  have "unat (ml_n (mutexLimit_New n)) = nat n"
    using assms by (simp add: mutexLimit_New_def unsigned_of_int take_bit_int_eq_self)
  moreover have "ml_inv (mutexLimit_New n)" "ml_held (mutexLimit_New n) = (\<lambda>_. 0)"
    by (simp_all add: mutexLimit_New_def ml_inv_def ml_held_def ml_count_def fun_eq_iff)
  ultimately show ?thesis
    using mlp.run_counts [of "mutexLimit_New n" cs] count_run_bound [of "\<lambda>_. 0" "nat n" cs k] by simp
qed

section \<open>Witnesses\<close>

text \<open>A run of three goroutines with a limit of one: goroutine 0 gets the permit and 1 is over the limit.\<close>

lemma limiter_run:
  "(al_step 3)\<^sup>*\<^sup>* (al_init 1) (\<lparr>al_n = 1, al_current = 2\<rparr>, (\<lambda>_. AlIdle)(0 := AlHold, 1 := AlOver), 0)"
proof -
  have "al_step 3 (al_init 1) (\<lparr>al_n = 1, al_current = 1\<rparr>, (\<lambda>_. AlIdle)(0 := if False then AlOver else AlHold), 0)"
    unfolding al_init_def by (rule al_enter) (simp_all add: atomicLimit_enter_def al_Add_def atomicLimit_New_def Let_def)
  moreover have "al_step 3 (\<lparr>al_n = 1, al_current = 1\<rparr>, (\<lambda>_. AlIdle)(0 := AlHold), 0)
      (\<lparr>al_n = 1, al_current = 2\<rparr>, (\<lambda>_. AlIdle)(0 := AlHold, 1 := if True then AlOver else AlHold), 0)"
    by (rule al_enter) (simp_all add: atomicLimit_enter_def al_Add_def Let_def)
  ultimately show ?thesis by (simp del: fun_upd_apply)
qed


text \<open>
  \<open>Running\<close> is not the number of active permits: after that run it returns two with one permit out.
  When the holder has released it still counts the caller about to be refused, so another call is
  refused too although no permit is out.
\<close>

lemma limiter_running_counts_refused:
  "\<exists>l pc. (al_step 3)\<^sup>*\<^sup>* (al_init 1) (l, pc, 0) \<and> atomicLimit_Running l = 2 \<and> {i. pc i = AlHold} = {0}"
proof -
  have "{i. ((\<lambda>_. AlIdle)(0 := AlHold, 1 := AlOver)) i = AlHold} = {0 :: nat}" by (auto split: if_splits)
  moreover have "atomicLimit_Running \<lparr>al_n = 1, al_current = 2\<rparr> = 2" by (simp add: atomicLimit_Running_def)
  ultimately show ?thesis using limiter_run by blast
qed

lemma limiter_refuses_below_limit:
  "\<exists>l pc. (al_step 3)\<^sup>*\<^sup>* (al_init 1) (l, pc, 0) \<and> (\<forall>i. pc i \<noteq> AlHold) \<and> pc 2 = AlIdle \<and> snd (atomicLimit_enter l)"
proof -
  let ?pc = "(\<lambda>_. AlIdle)(0 := AlHold, 1 := AlOver) :: nat \<Rightarrow> al_pc"
  have "al_step 3 (\<lparr>al_n = 1, al_current = 2\<rparr>, ?pc, 0) (atomicLimit_Release \<lparr>al_n = 1, al_current = 2\<rparr>, ?pc(0 := AlIdle), 0)"
    by (rule al_release) simp_all
  with limiter_run have "(al_step 3)\<^sup>*\<^sup>* (al_init 1) (atomicLimit_Release \<lparr>al_n = 1, al_current = 2\<rparr>, ?pc(0 := AlIdle), 0)"
    by simp
  moreover have "snd (atomicLimit_enter (atomicLimit_Release \<lparr>al_n = 1, al_current = 2\<rparr>))"
    by (simp add: atomicLimit_enter_def atomicLimit_Release_def al_Add_def minusOne_def Let_def)
  moreover have "\<forall>i. (?pc(0 := AlIdle)) i \<noteq> AlHold" "(?pc(0 := AlIdle)) 2 = AlIdle" by simp_all
  ultimately show ?thesis by blast
qed

lemma limiter_keycount_permits_witness:
  "fst (mlp.run [(''a'', True), (''a'', True), (''b'', True), (''b'', False), (''b'', False), (''a'', False), (''a'', True)]
      (mutexLimit_New 1)) = [True, False, True, True]"
  using limiter_keycount_permits [of 1 "[(''a'', True), (''a'', True), (''b'', True), (''b'', False), (''b'', False),
      (''a'', False), (''a'', True)]"] by simp

section \<open>Releases without a permit\<close>

text \<open>
  The mutex limiter and the channel ignore a release without a permit; the atomic counter wraps
  to its largest value, and from then on every acquisition is refused.
\<close>

lemma limiter_atomic_double_release:
  "(let l = atomicLimit_Release (atomicLimit_Release (atomicLimit_New 5))
    in atomicLimit_Acquire l = (l, Some ErrLimitExceeded))"
  by (simp add: atomicLimit_New_def atomicLimit_Release_def atomicLimit_Acquire_def atomicLimit_enter_def
      atomicLimit_undo_def minusOne_def al_Add_def Let_def)

section \<open>The semaphores by key\<close>

record semaphore =
  sem_refs :: int
  sem_max :: int
  sem_value :: int

definition newSemaphore :: "int \<Rightarrow> semaphore" where
  "newSemaphore m = \<lparr>sem_refs = 0, sem_max = m, sem_value = 0\<rparr>"

datatype sem_result = SemAcquired | SemWait | SemErr ctx_err

text \<open>
  A turn of the loop of \<open>Acquire\<close>, which returns or waits, and what it does when it is woken, which
  ends the call or goes to the next turn.
\<close>

definition sem_turn :: "semaphore \<Rightarrow> semaphore \<times> sem_result" where
  "sem_turn s = (if sem_value s < sem_max s then (s\<lparr>sem_value := sem_value s + 1\<rparr>, SemAcquired) else (s, SemWait))"

definition sem_woken :: "ctx \<Rightarrow> semaphore \<Rightarrow> semaphore \<times> sem_result" where
  "sem_woken ctx s =
     (case ctx of
        Some e \<Rightarrow> (s\<lparr>sem_value := max 0 (sem_value s - 1)\<rparr>, SemErr e)
      | None \<Rightarrow> (s, SemWait))"

definition sem_Release :: "semaphore \<Rightarrow> semaphore" where
  "sem_Release s = s\<lparr>sem_value := max 0 (sem_value s - 1)\<rparr>"

text \<open>
  The limiter: a map from keys to semaphores, which are objects (a call keeps the semaphore it
  found after the key is gone from the map).
\<close>

record keyLimit =
  kl_current :: "string \<rightharpoonup> nat"
  kl_heap :: "nat \<Rightarrow> semaphore"
  kl_next :: nat
  kl_n :: int

definition keyLimit_New :: "int \<Rightarrow> keyLimit" where
  "keyLimit_New n = \<lparr>kl_current = Map.empty, kl_heap = (\<lambda>_. newSemaphore 0), kl_next = 0, kl_n = n\<rparr>"

definition keyLimit_enter :: "string \<Rightarrow> keyLimit \<Rightarrow> keyLimit \<times> nat" where
  "keyLimit_enter k l =
     (let (l1, a) = (case kl_current l k of
             Some a \<Rightarrow> (l, a)
           | None \<Rightarrow>
               (l\<lparr>kl_current := (kl_current l)(k \<mapsto> kl_next l),
                  kl_heap := (kl_heap l)(kl_next l := newSemaphore (kl_n l)), kl_next := kl_next l + 1\<rparr>, kl_next l))
      in (l1\<lparr>kl_heap := (kl_heap l1)(a := (kl_heap l1 a)\<lparr>sem_refs := sem_refs (kl_heap l1 a) + 1\<rparr>)\<rparr>, a))"

definition keyLimit_turn :: "nat \<Rightarrow> keyLimit \<Rightarrow> keyLimit \<times> sem_result" where
  "keyLimit_turn a l = (case sem_turn (kl_heap l a) of (s, r) \<Rightarrow> (l\<lparr>kl_heap := (kl_heap l)(a := s)\<rparr>, r))"

definition keyLimit_woken :: "ctx \<Rightarrow> nat \<Rightarrow> keyLimit \<Rightarrow> keyLimit \<times> sem_result" where
  "keyLimit_woken ctx a l = (case sem_woken ctx (kl_heap l a) of (s, r) \<Rightarrow> (l\<lparr>kl_heap := (kl_heap l)(a := s)\<rparr>, r))"

definition keyLimit_Release :: "string \<Rightarrow> keyLimit \<Rightarrow> keyLimit" where
  "keyLimit_Release k l =
     (case kl_current l k of
        None \<Rightarrow> l
      | Some a \<Rightarrow>
          (let s = (kl_heap l a)\<lparr>sem_refs := sem_refs (kl_heap l a) - 1\<rparr>;
               current = (if sem_refs s \<le> 0 then (kl_current l)(k := None) else kl_current l)
           in l\<lparr>kl_current := current, kl_heap := (kl_heap l)(a := sem_Release s)\<rparr>))"

text \<open>
  A waiter whose context ends gives back a permit it never had: with a limit of one, a second call
  waits and is cancelled, and a third call is granted while the first still holds its permit.
\<close>

lemma limiter_cancelled_waiter_frees:
  "(let (l1, a) = keyLimit_enter ''k'' (keyLimit_New 1);
        (l2, first) = keyLimit_turn a l1;
        (l3, b) = keyLimit_enter ''k'' l2;
        (l4, second) = keyLimit_turn b l3;
        (l5, cancelled) = keyLimit_woken (Some Canceled) b l4;
        (l6, c) = keyLimit_enter ''k'' l5;
        (l7, third) = keyLimit_turn c l6
    in first = SemAcquired \<and> second = SemWait \<and> cancelled = SemErr Canceled \<and> third = SemAcquired)"
  by (simp add: keyLimit_enter_def keyLimit_turn_def keyLimit_woken_def keyLimit_New_def newSemaphore_def
      sem_turn_def sem_woken_def Let_def)

text \<open>It also keeps its reference, so the semaphore of a key stays in the map for ever.\<close>

lemma limiter_cancelled_waiter_leaks:
  "(let (l1, a) = keyLimit_enter ''k'' (keyLimit_New 1);
        (l2, first) = keyLimit_turn a l1;
        (l3, b) = keyLimit_enter ''k'' l2;
        (l4, second) = keyLimit_turn b l3;
        (l5, cancelled) = keyLimit_woken (Some Canceled) b l4
    in kl_current (keyLimit_Release ''k'' l5) ''k'' \<noteq> None)"
  by (simp add: keyLimit_enter_def keyLimit_turn_def keyLimit_woken_def keyLimit_Release_def keyLimit_New_def
      newSemaphore_def sem_turn_def sem_woken_def Let_def)

section \<open>The atomic limiter by key\<close>

text \<open>
  A counter is created for a key at its first acquisition and never removed; the calls then work
  on the key's counter as the atomic limiter on its only one. The calls are given here without
  interleaving.
\<close>

record syncLimit =
  sl_current :: "string \<rightharpoonup> uint32"
  sl_n :: uint32

definition syncLimit_New :: "int \<Rightarrow> syncLimit" where
  "syncLimit_New n = \<lparr>sl_current = Map.empty, sl_n = word_of_int n\<rparr>"

definition sl_at :: "string \<Rightarrow> syncLimit \<Rightarrow> atomicLimit" where
  "sl_at k l = \<lparr>al_n = sl_n l, al_current = (case sl_current l k of None \<Rightarrow> 0 | Some c \<Rightarrow> c)\<rparr>"

definition syncLimit_Acquire :: "string \<Rightarrow> syncLimit \<Rightarrow> syncLimit \<times> limiter_error option" where
  "syncLimit_Acquire k l =
     (let l1 = (if sl_current l k = None then l\<lparr>sl_current := (sl_current l)(k \<mapsto> 0)\<rparr> else l)
      in case atomicLimit_Acquire (sl_at k l1) of
           (a, r) \<Rightarrow> (l1\<lparr>sl_current := (sl_current l1)(k \<mapsto> al_current a)\<rparr>, r))"

definition syncLimit_Release :: "string \<Rightarrow> syncLimit \<Rightarrow> syncLimit" where
  "syncLimit_Release k l =
     (case sl_current l k of
        None \<Rightarrow> l
      | Some c \<Rightarrow> l\<lparr>sl_current := (sl_current l)(k \<mapsto> al_current (atomicLimit_Release (sl_at k l)))\<rparr>)"

lemma sl_at_Acquire:
  "snd (syncLimit_Acquire k l) = snd (atomicLimit_Acquire (sl_at k l)) \<and>
   sl_at j (fst (syncLimit_Acquire k l)) = (if j = k then fst (atomicLimit_Acquire (sl_at k l)) else sl_at j l)"
proof -
  have n: "al_n (fst (atomicLimit_Acquire a)) = al_n a" for a
    by (simp add: atomicLimit_Acquire_def atomicLimit_enter_def atomicLimit_undo_def al_Add_def Let_def)
  show ?thesis
    using n [of "sl_at k l"] by (auto simp: syncLimit_Acquire_def sl_at_def Let_def split: prod.splits option.splits)
qed

end
