(* ===== verification/FeatureFlag.thy ===== *)
theory FeatureFlag
  imports Bloom "HOL-Library.List_Lexorder" "HOL-Library.Char_ord"
begin

text \<open>
  The package \<open>common/featureflag\<close> (file \<open>featureflag.go\<close>). The manager's map from names to flag
  records is an association list with distinct names, as only \<open>AllFlags\<close> iterates it, and sorts.
  \<open>GetFlag\<close> and \<open>AllFlags\<close> copy the records, which on values is the identity; every update runs
  under the manager's lock and is one step. A flag that \<open>IsEnabled\<close> has looked up is evaluated
  under a second lock; the calls are atomic here. FNV-1a is that of \<open>Bloom\<close>.
\<close>

record 'm Flag =
  fl_Name :: string
  fl_Enabled :: bool
  fl_Percentage :: int
  fl_Whitelist :: "string list"
  fl_Blacklist :: "string list"
  fl_Metadata :: "(string \<rightharpoonup> 'm) option"

type_synonym 'm FlagManager = "string \<rightharpoonup> 'm Flag"

definition NewFlagManager :: "'m FlagManager" where
  "NewFlagManager = Map.empty"

definition clamp_pct :: "int \<Rightarrow> int" where
  "clamp_pct p = (let p = (if p < 0 then 0 else p) in if p > 100 then 100 else p)"

definition SetFlag :: "'m Flag option \<Rightarrow> 'm FlagManager \<Rightarrow> 'm FlagManager" where
  "SetFlag flag m =
     (case flag of
        None \<Rightarrow> m
      | Some f \<Rightarrow> if fl_Name f = [] then m
                  else m(fl_Name f \<mapsto> f\<lparr>fl_Percentage := clamp_pct (fl_Percentage f)\<rparr>))"

definition hashPercentage :: "string \<Rightarrow> string \<Rightarrow> int" where
  "hashPercentage name userID =
     uint (fnv_Write (string_bytes userID) (fnv_Write (string_bytes name) fnv_New64a) mod 100)"

definition evaluateLocked :: "'m Flag \<Rightarrow> string \<Rightarrow> bool" where
  "evaluateLocked flag userID =
     (if \<not> fl_Enabled flag then False
      else if userID \<in> set (fl_Blacklist flag) then False
      else if userID \<in> set (fl_Whitelist flag) then True
      else if fl_Percentage flag \<ge> 100 then True
      else if fl_Percentage flag \<le> 0 then False
      else hashPercentage (fl_Name flag) userID < fl_Percentage flag)"

definition IsEnabled :: "string \<Rightarrow> string \<Rightarrow> 'm FlagManager \<Rightarrow> bool" where
  "IsEnabled name userID m =
     (case m name of None \<Rightarrow> False | Some flag \<Rightarrow> evaluateLocked flag userID)"

text \<open>The flag an update finds, or the one it creates.\<close>

definition find_flag :: "string \<Rightarrow> 'm FlagManager \<Rightarrow> 'm Flag" where
  "find_flag name m =
     (case m name of
        Some f \<Rightarrow> f
      | None \<Rightarrow> \<lparr>fl_Name = name, fl_Enabled = False, fl_Percentage = 0, fl_Whitelist = [], fl_Blacklist = [],
                 fl_Metadata = None\<rparr>)"

definition Enable :: "string \<Rightarrow> 'm FlagManager \<Rightarrow> 'm FlagManager" where
  "Enable name m = m(name \<mapsto> (find_flag name m)\<lparr>fl_Enabled := True, fl_Percentage := 100\<rparr>)"

definition Disable :: "string \<Rightarrow> 'm FlagManager \<Rightarrow> 'm FlagManager" where
  "Disable name m = m(name \<mapsto> (find_flag name m)\<lparr>fl_Enabled := False\<rparr>)"

definition SetPercentage :: "string \<Rightarrow> int \<Rightarrow> 'm FlagManager \<Rightarrow> 'm FlagManager" where
  "SetPercentage name pct m =
     m(name \<mapsto> (find_flag name m)\<lparr>fl_Enabled := True, fl_Percentage := clamp_pct pct\<rparr>)"

definition AddWhitelist :: "string \<Rightarrow> string \<Rightarrow> 'm FlagManager \<Rightarrow> 'm FlagManager" where
  "AddWhitelist name userID m =
     (let f = (find_flag name m)\<lparr>fl_Enabled := True\<rparr>
      in m(name \<mapsto> (if userID \<in> set (fl_Whitelist f) then f
                    else f\<lparr>fl_Whitelist := fl_Whitelist f @ [userID]\<rparr>)))"

definition RemoveFlag :: "string \<Rightarrow> 'm FlagManager \<Rightarrow> 'm FlagManager" where
  "RemoveFlag name m = m(name := None)"

definition GetFlag :: "string \<Rightarrow> 'm FlagManager \<Rightarrow> 'm Flag option" where
  "GetFlag name m = m name"

definition AllFlags :: "'m FlagManager \<Rightarrow> 'm Flag list" where
  "AllFlags m = map (\<lambda>name. the (m name)) (sorted_list_of_set (dom m))"

section \<open>The invariant of the manager\<close>

text \<open>A flag is stored under its own name, with a percentage in range and no repeated whitelist entry added.\<close>

definition flag_inv :: "'m FlagManager \<Rightarrow> bool" where
  "flag_inv m \<longleftrightarrow> finite (dom m) \<and>
     (\<forall>name f. m name = Some f \<longrightarrow> fl_Name f = name \<and> 0 \<le> fl_Percentage f \<and> fl_Percentage f \<le> 100)"

datatype 'm flag_op =
    FSet "'m Flag option" | FEnable string | FDisable string | FPercentage string int
  | FWhitelist string string | FRemove string

fun flag_apply :: "'m flag_op \<Rightarrow> 'm FlagManager \<Rightarrow> 'm FlagManager" where
  "flag_apply (FSet f) m = SetFlag f m"
| "flag_apply (FEnable n) m = Enable n m"
| "flag_apply (FDisable n) m = Disable n m"
| "flag_apply (FPercentage n p) m = SetPercentage n p m"
| "flag_apply (FWhitelist n u) m = AddWhitelist n u m"
| "flag_apply (FRemove n) m = RemoveFlag n m"

lemma clamp_pct_range: "0 \<le> clamp_pct p" "clamp_pct p \<le> 100"
  by (simp_all add: clamp_pct_def Let_def)

lemma clamp_pct_id: "0 \<le> p \<Longrightarrow> p \<le> 100 \<Longrightarrow> clamp_pct p = p"
  by (simp add: clamp_pct_def Let_def)

lemma find_flag_inv: "flag_inv m \<Longrightarrow> fl_Name (find_flag n m) = n \<and> 0 \<le> fl_Percentage (find_flag n m) \<and> fl_Percentage (find_flag n m) \<le> 100"
  by (auto simp: find_flag_def flag_inv_def split: option.splits)

lemma flag_apply_inv: "flag_inv m \<Longrightarrow> flag_inv (flag_apply p m)"
  using find_flag_inv [of m] clamp_pct_range
  by (cases p) (auto simp: flag_inv_def SetFlag_def Enable_def Disable_def SetPercentage_def AddWhitelist_def
      RemoveFlag_def Let_def split: option.splits)

lemma flag_run_inv:
  fixes ops :: "'m flag_op list"
  shows "flag_inv (fold flag_apply ops NewFlagManager)"
proof -
  have "flag_inv (fold flag_apply ops m)" if "flag_inv m" for m :: "'m FlagManager"
    using that by (induction ops arbitrary: m) (simp_all add: flag_apply_inv)
  moreover have "flag_inv (NewFlagManager :: 'm FlagManager)" by (simp add: flag_inv_def NewFlagManager_def)
  ultimately show ?thesis by blast
qed

lemma hashPercentage_range: "0 \<le> hashPercentage n u" "hashPercentage n u < 100"
proof -
  have "fnv_Write (string_bytes u) (fnv_Write (string_bytes n) fnv_New64a) mod 100 < (100 :: uint64)"
    by (rule word_mod_less_divisor) (simp add: word_less_nat_alt)
  then show "hashPercentage n u < 100" by (simp add: hashPercentage_def word_less_alt)
qed (simp add: hashPercentage_def)

text \<open>The evaluation for a percentage in range is one comparison with the hash.\<close>

lemma evaluateLocked_percentage:
  "evaluateLocked f u \<longleftrightarrow> fl_Enabled f \<and> u \<notin> set (fl_Blacklist f) \<and>
     (u \<in> set (fl_Whitelist f) \<or> hashPercentage (fl_Name f) u < fl_Percentage f)"
  using hashPercentage_range [of "fl_Name f" u] by (auto simp: evaluateLocked_def)

section \<open>Properties\<close>

text \<open>
  C40. A manager built by any updates evaluates a flag as documented: it is enabled for a user
  exactly when the flag exists and is on, the user is not in the blacklist, and the user is in
  the whitelist or has a hash below the percentage. So raising the percentage of a flag only
  adds users, at 100 every user outside the blacklist has it, \<open>Enable\<close> gives it to all of them,
  \<open>Disable\<close> and \<open>RemoveFlag\<close> to none, and an update of one flag does not change another.
\<close>

theorem featureflag_rollout:
  fixes ops :: "'m flag_op list"
  assumes "m = fold flag_apply ops NewFlagManager"
  shows "(IsEnabled name u m \<longleftrightarrow>
      (\<exists>f. m name = Some f \<and> fl_Enabled f \<and> u \<notin> set (fl_Blacklist f) \<and>
         (u \<in> set (fl_Whitelist f) \<or> hashPercentage name u < fl_Percentage f))) \<and>
    (p \<le> q \<and> IsEnabled name u (SetPercentage name p m) \<longrightarrow> IsEnabled name u (SetPercentage name q m)) \<and>
    (IsEnabled name u (Enable name m) \<longleftrightarrow> u \<notin> set (fl_Blacklist (find_flag name m))) \<and>
    \<not> IsEnabled name u (Disable name m) \<and> \<not> IsEnabled name u (RemoveFlag name m) \<and>
    (other \<noteq> name \<longrightarrow>
       IsEnabled other u (SetPercentage name p m) = IsEnabled other u m \<and>
       IsEnabled other u (Enable name m) = IsEnabled other u m \<and>
       IsEnabled other u (Disable name m) = IsEnabled other u m)"
proof -
  have inv: "flag_inv m" unfolding assms by (rule flag_run_inv)
  have name: "fl_Name (find_flag name m) = name" using find_flag_inv [OF inv] by blast
  have "IsEnabled name u m \<longleftrightarrow>
      (\<exists>f. m name = Some f \<and> fl_Enabled f \<and> u \<notin> set (fl_Blacklist f) \<and>
         (u \<in> set (fl_Whitelist f) \<or> hashPercentage name u < fl_Percentage f))"
    using inv by (auto simp: IsEnabled_def evaluateLocked_percentage flag_inv_def split: option.splits)
  moreover have "clamp_pct p \<le> clamp_pct q" if "p \<le> q" using that by (simp add: clamp_pct_def Let_def)
  moreover have "IsEnabled name u (SetPercentage name p m) \<longleftrightarrow> u \<notin> set (fl_Blacklist (find_flag name m)) \<and>
      (u \<in> set (fl_Whitelist (find_flag name m)) \<or> hashPercentage name u < clamp_pct p)" for p
    by (simp add: IsEnabled_def SetPercentage_def evaluateLocked_percentage name)
  moreover have "IsEnabled name u (Enable name m) \<longleftrightarrow> u \<notin> set (fl_Blacklist (find_flag name m))"
    using hashPercentage_range [of name u] by (simp add: IsEnabled_def Enable_def evaluateLocked_percentage name)
  moreover have "\<not> IsEnabled name u (Disable name m)" "\<not> IsEnabled name u (RemoveFlag name m)"
    by (simp_all add: IsEnabled_def Disable_def RemoveFlag_def evaluateLocked_def)
  moreover have "other \<noteq> name \<longrightarrow> IsEnabled other u (SetPercentage name p m) = IsEnabled other u m \<and>
      IsEnabled other u (Enable name m) = IsEnabled other u m \<and> IsEnabled other u (Disable name m) = IsEnabled other u m"
    by (simp add: IsEnabled_def SetPercentage_def Enable_def Disable_def)
  ultimately show ?thesis by (auto intro: order_less_le_trans)
qed

theorem featureflag_rollout_witness:
  "IsEnabled ''f'' ''u'' (Enable ''f'' (fold flag_apply [FDisable ''f''] (NewFlagManager :: nat FlagManager))) \<and>
    \<not> IsEnabled ''f'' ''u'' (Disable ''f'' (fold flag_apply [FDisable ''f''] (NewFlagManager :: nat FlagManager)))"
  using featureflag_rollout [of "fold flag_apply [FDisable ''f''] (NewFlagManager :: nat FlagManager)" "[FDisable ''f'']" "''f''" "''u''"]
  by (simp add: find_flag_def Disable_def NewFlagManager_def)

end
