(* ===== verification/Diff.thy ===== *)
theory Diff
  imports GoDecimal "HOL-Library.Sublist"
begin

text \<open>
  The package \<open>common/diff\<close> (file \<open>diff.go\<close>): the diff of two lists of tokens by dynamic
  programming over the lengths of longest common subsequences, the split into lines and words,
  and the text and HTML renderings. The table \<open>dp\<close> is a list of rows; row \<open>i\<close> is computed from
  row \<open>i + 1\<close> from right to left, as the two loops do.
\<close>

datatype DiffType = Unchanged | Added | Removed

record 'a DiffLine =
  dl_Type :: DiffType
  dl_Content :: 'a

abbreviation dline :: "DiffType \<Rightarrow> 'a \<Rightarrow> 'a DiffLine" where
  "dline t x \<equiv> \<lparr>dl_Type = t, dl_Content = x\<rparr>"

definition go_max :: "nat \<Rightarrow> nat \<Rightarrow> nat" where
  "go_max a b = (if a > b then a else b)"

text \<open>Row \<open>i\<close> for the token \<open>x = a[i]\<close>, from the row below it; the last column is 0.\<close>

fun dp_row :: "'a \<Rightarrow> 'a list \<Rightarrow> nat list \<Rightarrow> nat list" where
  "dp_row x [] below = [0]"
| "dp_row x (y # ys) below =
     (let right = dp_row x ys (tl below)
      in (if x = y then hd (tl below) + 1 else go_max (hd below) (hd right)) # right)"

fun dp_table :: "'a list \<Rightarrow> 'a list \<Rightarrow> nat list list" where
  "dp_table [] b = [replicate (length b + 1) 0]"
| "dp_table (x # xs) b = (let rest = dp_table xs b in dp_row x b (hd rest) # rest)"

text \<open>The walk through the table from \<open>dp[i][j]\<close>, with the rows and columns still ahead.\<close>

function diff_walk :: "'a list \<Rightarrow> 'a list \<Rightarrow> nat list list \<Rightarrow> 'a DiffLine list" where
  "diff_walk (x # xs) (y # ys) dp =
     (if x = y then dline Unchanged x # diff_walk xs ys (map tl (tl dp))
      else if hd (hd (tl dp)) \<ge> hd (tl (hd dp)) then dline Removed x # diff_walk xs (y # ys) (tl dp)
      else dline Added y # diff_walk (x # xs) ys (map tl dp))"
| "diff_walk xs [] dp = map (dline Removed) xs"
| "diff_walk [] (y # ys) dp = map (dline Added) (y # ys)"
  by pat_completeness auto
termination
  by (relation "measure (\<lambda>(xs, ys, dp). length xs + length ys)") auto

definition diffTokens :: "'a list \<Rightarrow> 'a list \<Rightarrow> 'a DiffLine list" where
  "diffTokens a b = diff_walk a b (dp_table a b)"

section \<open>Lines and words\<close>

definition LF :: char where "LF = CHR 0x0A"
definition CR :: char where "CR = CHR 0x0D"

fun replace_crlf :: "string \<Rightarrow> string" where
  "replace_crlf (c # d # cs) =
     (if c = CR \<and> d = LF then LF # replace_crlf cs else c # replace_crlf (d # cs))"
| "replace_crlf cs = cs"

text \<open>\<open>strings.Split\<close> with the separator newline.\<close>

fun split_lf :: "string \<Rightarrow> string list" where
  "split_lf [] = [[]]"
| "split_lf (c # cs) =
     (if c = LF then [] # split_lf cs
      else (case split_lf cs of p # ps \<Rightarrow> (c # p) # ps | [] \<Rightarrow> [[c]]))"

definition splitLines :: "string \<Rightarrow> string list" where
  "splitLines s =
     (if s = [] then []
      else let s = replace_crlf s; parts = split_lf s
           in if parts \<noteq> [] \<and> last parts = [] \<and> s \<noteq> [] \<and> last s = LF then butlast parts else parts)"

text \<open>
  \<open>strings.Fields\<close>: the text is cut at the white space of Unicode, in its encodings as bytes. The first
  byte of an encoding never occurs inside another one, so a scan by bytes finds what a scan by
  characters finds.
\<close>

definition space_width :: "string \<Rightarrow> nat" where
  "space_width s = (case find (\<lambda>w. is_prefix w s) space_seqs of None \<Rightarrow> 0 | Some w \<Rightarrow> length w)"

function fields :: "string \<Rightarrow> string \<Rightarrow> string list" where
  "fields word [] = (if word = [] then [] else [word])"
| "fields word (c # cs) =
     (let n = space_width (c # cs) in
      if n > 0 then (if word = [] then [] else [word]) @ fields [] (drop n (c # cs))
      else fields (word @ [c]) cs)"
  by pat_completeness auto
termination
  by (relation "measure (length \<circ> snd)") auto

declare fields.simps(2) [simp del]

definition splitWords :: "string \<Rightarrow> string list" where
  "splitWords s = fields [] s"

text \<open>A no-break space, as the two bytes of its encoding, separates words like a blank.\<close>

lemma splitWords_unicode: "splitWords (''a b'' @ [CHR 0xC2, CHR 0xA0] @ ''c'') = [''a'', ''b'', ''c'']"
  by (simp add: splitWords_def fields.simps(2) space_width_def space_seqs_def is_prefix_def char_of_def bit_simps)

definition LineDiff :: "string \<Rightarrow> string \<Rightarrow> string DiffLine list" where
  "LineDiff old new = diffTokens (splitLines old) (splitLines new)"

definition WordDiff :: "string \<Rightarrow> string \<Rightarrow> string DiffLine list" where
  "WordDiff old new = diffTokens (splitWords old) (splitWords new)"

definition diff_prefix :: "DiffType \<Rightarrow> string" where
  "diff_prefix t = (case t of Added \<Rightarrow> ''+ '' | Removed \<Rightarrow> ''- '' | Unchanged \<Rightarrow> ''  '')"

definition TextDiff :: "string \<Rightarrow> string \<Rightarrow> string" where
  "TextDiff old new = concat (map (\<lambda>l. diff_prefix (dl_Type l) @ dl_Content l @ [LF]) (LineDiff old new))"

text \<open>\<open>html.EscapeString\<close> followed by the two replacements.\<close>

definition html_escape_char :: "char \<Rightarrow> string" where
  "html_escape_char c =
     (if c = CHR ''<'' then ''&lt;'' else if c = CHR ''>'' then ''&gt;'' else if c = CHR ''&'' then ''&amp;''
      else if c = CHR 0x27 then ''&#39;'' else if c = CHR 0x22 then ''&#34;'' else [c])"

function replace_all :: "string \<Rightarrow> string \<Rightarrow> string \<Rightarrow> string" where
  "replace_all old new s =
     (case s of
        [] \<Rightarrow> []
      | c # cs \<Rightarrow>
          if old \<noteq> [] \<and> prefix old s then new @ replace_all old new (drop (length old) s)
          else c # replace_all old new cs)"
  by pat_completeness auto
termination
  by (relation "measure (\<lambda>(old, new, s). length s)") (auto simp: length_greater_0_conv simp flip: length_greater_0_conv)

declare replace_all.simps [simp del]

definition escapeHTML :: "string \<Rightarrow> string" where
  "escapeHTML s =
     replace_all ''&#34;'' ''&quot;''
       (replace_all ''&#39;'' [CHR 0x27] (concat (map html_escape_char s)))"

definition html_class :: "DiffType \<Rightarrow> string" where
  "html_class t = (case t of Added \<Rightarrow> ''diff-added'' | Removed \<Rightarrow> ''diff-removed'' | Unchanged \<Rightarrow> ''diff-unchanged'')"

definition HTMLDiff :: "string \<Rightarrow> string \<Rightarrow> string" where
  "HTMLDiff old new =
     concat (map (\<lambda>l. ''<div class='' @ [CHR 0x22] @ html_class (dl_Type l) @ [CHR 0x22] @ ''>'' @
                       escapeHTML (dl_Content l) @ ''</div>'' @ [LF]) (LineDiff old new))"

section \<open>Longest common subsequences\<close>

fun lcs :: "'a list \<Rightarrow> 'a list \<Rightarrow> nat" where
  "lcs (x # xs) (y # ys) = (if x = y then lcs xs ys + 1 else go_max (lcs xs (y # ys)) (lcs (x # xs) ys))"
| "lcs _ _ = 0"

lemma lcs_Nil [simp]: "lcs [] ys = 0" "lcs xs [] = 0"
  by (cases xs; simp)+

lemma go_max_max: "go_max a b = max a b"
  by (simp add: go_max_def max_def)

text \<open>The specification: an upper bound on every common subsequence.\<close>

lemma lcs_bounds: "lcs xs ys \<le> lcs (x # xs) ys \<and> lcs (x # xs) ys \<le> lcs xs ys + 1 \<and>
    lcs xs ys \<le> lcs xs (y # ys) \<and> lcs xs (y # ys) \<le> lcs xs ys + 1"
proof (induction "length xs + length ys" arbitrary: xs ys x y rule: less_induct)
  case less
  have left: "lcs xs ys \<le> lcs (x # xs) ys \<and> lcs (x # xs) ys \<le> lcs xs ys + 1"
  proof (cases ys)
    case (Cons z zs)
    have "lcs xs zs \<le> lcs xs ys" "lcs xs ys \<le> lcs xs zs + 1" "lcs (x # xs) zs \<le> lcs xs zs + 1"
      using less [of xs zs x z] Cons by auto
    then show ?thesis using Cons by (auto simp: go_max_max)
  qed simp
  have right: "lcs xs ys \<le> lcs xs (y # ys) \<and> lcs xs (y # ys) \<le> lcs xs ys + 1"
  proof (cases xs)
    case (Cons z zs)
    have "lcs zs ys \<le> lcs xs ys" "lcs xs ys \<le> lcs zs ys + 1" "lcs zs (y # ys) \<le> lcs zs ys + 1"
      using less [of zs ys z y] Cons by auto
    then show ?thesis using Cons by (auto simp: go_max_max)
  qed simp
  from left right show ?case by blast
qed

lemma lcs_mono: "lcs xs ys \<le> lcs (x # xs) ys" "lcs xs ys \<le> lcs xs (y # ys)"
  by (meson lcs_bounds)+

lemma subseq_lcs: "subseq zs xs \<Longrightarrow> subseq zs ys \<Longrightarrow> length zs \<le> lcs xs ys"
proof (induction xs ys arbitrary: zs rule: lcs.induct)
  case (1 x xs y ys)
  show ?case
  proof (cases "x = y")
    case True
    show ?thesis
    proof (cases zs)
      case (Cons z zs')
      have "subseq zs' xs" "subseq zs' ys"
        using "1.prems" Cons by (auto split: if_splits dest: subseq_Cons')
      then show ?thesis using 1(1) [OF True] True Cons by auto
    qed simp
  next
    case False
    show ?thesis
    proof (cases "zs \<noteq> [] \<and> hd zs = x")
      case True
      then have "subseq zs ys" using "1.prems" False by (cases zs) auto
      then show ?thesis using 1(3) [OF False _ , of zs] "1.prems" False by (simp add: go_max_max)
    next
      case no: False
      then have "subseq zs xs" using "1.prems" by (cases zs) auto
      then show ?thesis using 1(2) [OF False, of zs] "1.prems" False by (simp add: go_max_max)
    qed
  qed
qed auto

section \<open>The table\<close>

fun lcs_row :: "'a list \<Rightarrow> 'a list \<Rightarrow> nat list" where
  "lcs_row a [] = [lcs a []]"
| "lcs_row a (y # ys) = lcs a (y # ys) # lcs_row a ys"

fun lcs_table :: "'a list \<Rightarrow> 'a list \<Rightarrow> nat list list" where
  "lcs_table [] b = [lcs_row [] b]"
| "lcs_table (x # xs) b = lcs_row (x # xs) b # lcs_table xs b"

lemma hd_lcs_row [simp]: "hd (lcs_row a b) = lcs a b" "lcs_row a b \<noteq> []"
  by (cases b; simp)+

lemma hd_lcs_table [simp]: "hd (lcs_table a b) = lcs_row a b" "lcs_table a b \<noteq> []"
  by (cases a; simp)+

lemma dp_row_lcs: "dp_row x b (lcs_row xs b) = lcs_row (x # xs) b"
proof (induction b)
  case (Cons y ys)
  then show ?case by (simp add: Let_def)
qed simp

lemma dp_table_lcs: "dp_table a b = lcs_table a b"
proof (induction a)
  case Nil
  have "lcs_row [] b = replicate (length b + 1) 0" by (induction b) simp_all
  then show ?case by simp
next
  case (Cons x xs)
  then show ?case by (simp add: dp_row_lcs Let_def)
qed

lemma map_tl_table: "map tl (lcs_table xs (y # ys)) = lcs_table xs ys"
  by (induction xs) simp_all

text \<open>The walk with the table replaced by what its cells hold.\<close>

lemma diff_walk_lcs:
  "diff_walk (x # xs) (y # ys) (lcs_table (x # xs) (y # ys)) =
     (if x = y then dline Unchanged x # diff_walk xs ys (lcs_table xs ys)
      else if lcs xs (y # ys) \<ge> lcs (x # xs) ys then dline Removed x # diff_walk xs (y # ys) (lcs_table xs (y # ys))
      else dline Added y # diff_walk (x # xs) ys (lcs_table (x # xs) ys))"
  using map_tl_table [of "x # xs" y ys] map_tl_table [of xs y ys] by simp

lemma diffTokens_lcs: "diffTokens a b = diff_walk a b (lcs_table a b)"
  by (simp add: diffTokens_def dp_table_lcs)

lemma diffTokens_simps:
  "diffTokens (x # xs) (y # ys) =
     (if x = y then dline Unchanged x # diffTokens xs ys
      else if lcs xs (y # ys) \<ge> lcs (x # xs) ys then dline Removed x # diffTokens xs (y # ys)
      else dline Added y # diffTokens (x # xs) ys)"
  "diffTokens xs [] = map (dline Removed) xs"
  "diffTokens [] ys = map (dline Added) ys"
  unfolding diffTokens_lcs diff_walk_lcs by (simp_all, cases ys, simp_all)

lemmas diff_induct = lcs.induct [case_names both nil_left nil_right]

text \<open>The old and the new text in a diff, and what they share.\<close>

definition old_of :: "'a DiffLine list \<Rightarrow> 'a list" where
  "old_of ds = map dl_Content (filter (\<lambda>d. dl_Type d \<noteq> Added) ds)"

definition new_of :: "'a DiffLine list \<Rightarrow> 'a list" where
  "new_of ds = map dl_Content (filter (\<lambda>d. dl_Type d \<noteq> Removed) ds)"

definition shared_of :: "'a DiffLine list \<Rightarrow> 'a list" where
  "shared_of ds = map dl_Content (filter (\<lambda>d. dl_Type d = Unchanged) ds)"

lemma of_simps [simp]:
  "old_of [] = []" "new_of [] = []" "shared_of [] = []"
  "old_of (dline t x # ds) = (if t = Added then old_of ds else x # old_of ds)"
  "new_of (dline t x # ds) = (if t = Removed then new_of ds else x # new_of ds)"
  "shared_of (dline t x # ds) = (if t = Unchanged then x # shared_of ds else shared_of ds)"
  by (simp_all add: old_of_def new_of_def shared_of_def)

lemma of_map [simp]:
  "old_of (map (dline Removed) xs) = xs" "new_of (map (dline Removed) xs) = []" "shared_of (map (dline Removed) xs) = []"
  "old_of (map (dline Added) xs) = []" "new_of (map (dline Added) xs) = xs" "shared_of (map (dline Added) xs) = []"
  by (induction xs) simp_all

lemma diffTokens_projections: "old_of (diffTokens a b) = a \<and> new_of (diffTokens a b) = b"
proof (induction a b rule: lcs.induct)
  case (1 x xs y ys)
  then show ?case by (auto simp: diffTokens_simps(1))
qed (simp_all add: diffTokens_simps(2,3))

lemma shared_subseq: "subseq (shared_of ds) (old_of ds) \<and> subseq (shared_of ds) (new_of ds)"
proof (induction ds)
  case (Cons d ds)
  obtain t x where "d = dline t x" by (cases d) auto
  with Cons show ?case by (cases t) auto
qed simp

lemma diffTokens_shared: "length (shared_of (diffTokens a b)) = lcs a b"
proof (induction a b rule: lcs.induct)
  case (1 x xs y ys)
  then show ?case by (auto simp: diffTokens_simps(1) go_max_def)
qed (simp_all add: diffTokens_simps(2,3))

text \<open>No added token is directly followed by a removed one.\<close>

definition not_added_removed :: "'a DiffLine \<Rightarrow> 'a DiffLine \<Rightarrow> bool" where
  "not_added_removed d e \<longleftrightarrow> \<not> (dl_Type d = Added \<and> dl_Type e = Removed)"

lemma successively_map_same: "successively not_added_removed (map (dline t) xs)"
  by (induction xs rule: induct_list012) (auto simp: not_added_removed_def)

lemma diffTokens_order: "successively not_added_removed (diffTokens a b)"
proof (induction a b rule: lcs.induct)
  case (1 x xs y ys)
  show ?case
  proof (cases "x \<noteq> y \<and> \<not> lcs xs (y # ys) \<ge> lcs (x # xs) ys")
    case True
    then have IH: "successively not_added_removed (diffTokens (x # xs) ys)" using 1(3) by blast
    obtain z zs where ys: "ys = z # zs" using True by (cases ys) auto
    have "diffTokens (x # xs) ys \<noteq> [] \<and> dl_Type (hd (diffTokens (x # xs) ys)) \<noteq> Removed"
    proof (cases "x = z \<or> \<not> lcs xs (z # zs) \<ge> lcs (x # xs) zs")
      case True
      then show ?thesis by (auto simp: ys diffTokens_simps(1))
    next
      case False
      then have "lcs (x # xs) ys = lcs xs ys" by (simp add: ys go_max_def)
      also have "\<dots> \<le> lcs xs (y # ys)" by (rule lcs_mono)
      finally show ?thesis using True by simp
    qed
    with IH True show ?thesis
      by (cases "diffTokens (x # xs) ys") (auto simp: diffTokens_simps(1) not_added_removed_def)
  next
    case False
    then show ?thesis
      using 1 by (auto simp: diffTokens_simps(1) successively_Cons not_added_removed_def)
  qed
qed (simp_all add: diffTokens_simps(2,3) successively_map_same)

section \<open>Properties\<close>

text \<open>
  C32. A diff loses nothing and invents nothing: the lines of a line diff that are not added are the
  lines of the old text and those that are not removed the lines of the new one, each in order;
  so it is for the words of a word diff. In a block of changes the removed tokens come before the
  added ones.
\<close>

theorem diff_projections:
  "old_of (LineDiff s t) = splitLines s \<and> new_of (LineDiff s t) = splitLines t \<and>
    old_of (WordDiff s t) = splitWords s \<and> new_of (WordDiff s t) = splitWords t \<and>
    successively not_added_removed (LineDiff s t)"
  unfolding LineDiff_def WordDiff_def by (simp add: diffTokens_projections diffTokens_order)

text \<open>
  C24. A diff is minimal: its unchanged tokens are a longest common subsequence of the two inputs,
  so no sequence of tokens that is in both is longer, and the number of added and removed tokens
  is the least possible.
\<close>

theorem diff_minimal:
  fixes a b :: "'a list"
  shows "subseq (shared_of (diffTokens a b)) a \<and> subseq (shared_of (diffTokens a b)) b \<and>
    (\<forall>zs. subseq zs a \<and> subseq zs b \<longrightarrow> length zs \<le> length (shared_of (diffTokens a b))) \<and>
    (\<forall>ds. old_of ds = a \<and> new_of ds = b \<longrightarrow>
       length (filter (\<lambda>d. dl_Type d \<noteq> Unchanged) (diffTokens a b)) \<le> length (filter (\<lambda>d. dl_Type d \<noteq> Unchanged) ds))"
proof -
  have sub: "subseq (shared_of (diffTokens a b)) a" "subseq (shared_of (diffTokens a b)) b"
    using shared_subseq [of "diffTokens a b"] diffTokens_projections [of a b] by simp_all
  have longest: "length zs \<le> length (shared_of (diffTokens a b))" if "subseq zs a" "subseq zs b" for zs
    using subseq_lcs [OF that] by (simp add: diffTokens_shared)
  have count: "length (filter (\<lambda>d. dl_Type d \<noteq> Unchanged) ds) + 2 * length (shared_of ds) = length (old_of ds) + length (new_of ds)"
    for ds :: "'a DiffLine list"
  proof (induction ds)
    case (Cons d ds)
    obtain t x where "d = dline t x" by (cases d) auto
    with Cons show ?case by (cases t) auto
  qed simp
  have "length (filter (\<lambda>d. dl_Type d \<noteq> Unchanged) (diffTokens a b)) \<le> length (filter (\<lambda>d. dl_Type d \<noteq> Unchanged) ds)"
    if "old_of ds = a" "new_of ds = b" for ds
  proof -
    have "length (shared_of ds) \<le> length (shared_of (diffTokens a b))"
      using longest shared_subseq [of ds] that by blast
    then show ?thesis using count [of ds] count [of "diffTokens a b"] diffTokens_projections [of a b] that by simp
  qed
  with sub longest show ?thesis by blast
qed

theorem diff_minimal_witness: "2 \<le> length (shared_of (diffTokens ''abc'' ''xac''))"
proof -
  have "subseq ''ac'' ''abc''" "subseq ''ac'' ''xac''" by simp_all
  then have "length ''ac'' \<le> length (shared_of (diffTokens ''abc'' ''xac''))"
    using diff_minimal [of "''abc''" "''xac''"] by blast
  then show ?thesis by simp
qed

end
