(* ===== verification/Queue.thy ===== *)
theory Queue
  imports GoPrelude "HOL-Library.Product_Lexorder"
begin

text \<open>
  The packages \<open>common/queue\<close> (file \<open>types.go\<close>: statuses, tasks, errors, counters) and
  \<open>common/queue/memory\<close>: the in-process priority queue. Tasks are shared objects: the caller
  keeps the pointer it enqueued, so the model has a store of tasks, and the queue holds addresses.
  A method is one step, as it holds the mutex; the waiting \<open>Dequeue\<close> is split at its waits.
\<close>

datatype TaskStatus = StatusPending | StatusRunning | StatusSuccess | StatusFailed | StatusCanceled | StatusRetry

definition IsTerminal :: "TaskStatus \<Rightarrow> bool" where
  "IsTerminal s \<longleftrightarrow> s = StatusSuccess \<or> s = StatusFailed \<or> s = StatusCanceled"

text \<open>The fields of a task that the queue and its schedulers read or write; a null time is None.\<close>

record Task =
  t_ID :: string
  t_JobID :: string
  t_Priority :: int
  t_Weight :: int
  t_Status :: TaskStatus
  t_Progress :: int
  t_RetryCount :: int64
  t_MaxRetries :: int64
  t_ErrorMsg :: string
  t_SubmitTime :: gotime
  t_StartedAt :: "gotime option"
  t_FinishedAt :: "gotime option"
  t_Preemptible :: bool

record TaskLogEntry =
  lg_TaskID :: string
  lg_Level :: string
  lg_Message :: string
  lg_Timestamp :: gotime

datatype queue_error = ErrQueueEmpty | ErrQueueClosed | ErrTaskNotFound | ErrDuplicateTask | QueueCtx ctx_err

record QueueStats =
  qs_Queue :: string
  qs_Pending :: int64
  qs_Running :: int64
  qs_Completed :: int64
  qs_Failed :: int64
  qs_Total :: int64

type_synonym addr = nat

record Queue =
  q_name :: string
  q_store :: "addr \<Rightarrow> Task"
  q_tasks :: "addr list"
  q_byID :: "string \<rightharpoonup> addr"
  q_logs :: "string \<Rightarrow> TaskLogEntry list"
  q_closed :: bool
  q_stats :: QueueStats

definition queue_New :: "string \<Rightarrow> (addr \<Rightarrow> Task) \<Rightarrow> Queue" where
  "queue_New name store =
     \<lparr>q_name = name, q_store = store, q_tasks = [], q_byID = Map.empty, q_logs = (\<lambda>_. []), q_closed = False,
      q_stats = \<lparr>qs_Queue = [], qs_Pending = 0, qs_Running = 0, qs_Completed = 0, qs_Failed = 0, qs_Total = 0\<rparr>\<rparr>"

definition set_task :: "addr \<Rightarrow> Task \<Rightarrow> Queue \<Rightarrow> Queue" where
  "set_task a t q = q\<lparr>q_store := (q_store q)(a := t)\<rparr>"

definition add_pending :: "int64 \<Rightarrow> Queue \<Rightarrow> Queue" where
  "add_pending d q = q\<lparr>q_stats := (q_stats q)\<lparr>qs_Pending := qs_Pending (q_stats q) + d\<rparr>\<rparr>"

text \<open>The order of \<open>sortLocked\<close>: higher priority first, then earlier submission; the sort is stable.\<close>

definition task_key :: "Task \<Rightarrow> int \<times> gotime" where
  "task_key t = (- t_Priority t, t_SubmitTime t)"

definition sortLocked :: "Queue \<Rightarrow> Queue" where
  "sortLocked q = q\<lparr>q_tasks := sort_key (\<lambda>a. task_key (q_store q a)) (q_tasks q)\<rparr>"

definition queue_Enqueue :: "gotime \<Rightarrow> addr \<Rightarrow> Queue \<Rightarrow> Queue \<times> queue_error option" where
  "queue_Enqueue now a q =
     (let t = q_store q a in
      if q_closed q then (q, Some ErrQueueClosed)
      else if q_byID q (t_ID t) \<noteq> None then (q, Some ErrDuplicateTask)
      else let t = t\<lparr>t_Status := StatusPending,
                     t_SubmitTime := (if time_IsZero (t_SubmitTime t) then now else t_SubmitTime t)\<rparr>;
               q = set_task a t q;
               q = q\<lparr>q_byID := (q_byID q)(t_ID t \<mapsto> a), q_tasks := q_tasks q @ [a]\<rparr>;
               q = add_pending 1 (sortLocked q)
           in (q\<lparr>q_stats := (q_stats q)\<lparr>qs_Total := qs_Total (q_stats q) + 1\<rparr>\<rparr>, None))"

definition popLocked :: "gotime \<Rightarrow> Queue \<Rightarrow> Queue \<times> addr" where
  "popLocked now q =
     (let a = hd (q_tasks q); q = q\<lparr>q_tasks := tl (q_tasks q)\<rparr>;
          q = set_task a ((q_store q a)\<lparr>t_Status := StatusRunning, t_StartedAt := Some now\<rparr>) q
      in (add_pending (-1) q, a))"

text \<open>
  \<open>Dequeue\<close>: the fast path, the head of the waiting loop and the return from a wait. Waiting is
  the result \<open>DqWait\<close> with the deadline; \<open>fired\<close> says that the timer woke the call.
\<close>

datatype dq_result = DqTask addr | DqErr queue_error | DqWait gotime

definition dq_exit :: "gotime \<Rightarrow> Queue \<Rightarrow> Queue \<times> dq_result" where
  "dq_exit now q =
     (if q_closed q then (q, DqErr ErrQueueClosed)
      else if q_tasks q = [] then (q, DqErr ErrQueueEmpty)
      else case popLocked now q of (q', a) \<Rightarrow> (q', DqTask a))"

definition dq_loop :: "gotime \<Rightarrow> gotime \<Rightarrow> Queue \<Rightarrow> Queue \<times> dq_result" where
  "dq_loop deadline now q =
     (if q_tasks q = [] \<and> \<not> q_closed q
      then if deadline - now \<le> 0 then (q, DqErr ErrQueueEmpty) else (q, DqWait deadline)
      else dq_exit now q)"

definition dq_start :: "duration \<Rightarrow> gotime \<Rightarrow> Queue \<Rightarrow> Queue \<times> dq_result" where
  "dq_start timeout now q =
     (if q_tasks q \<noteq> [] then (case popLocked now q of (q', a) \<Rightarrow> (q', DqTask a))
      else if q_closed q then (q, DqErr ErrQueueClosed)
      else if timeout \<le> 0 then (q, DqErr ErrQueueEmpty)
      else dq_loop (now + timeout) now q)"

definition dq_woken :: "bool \<Rightarrow> ctx \<Rightarrow> gotime \<Rightarrow> gotime \<Rightarrow> Queue \<Rightarrow> Queue \<times> dq_result" where
  "dq_woken fired ctx deadline now q =
     (if fired \<and> q_tasks q = [] \<and> \<not> q_closed q then (q, DqErr ErrQueueEmpty)
      else case ctx of Some e \<Rightarrow> (q, DqErr (QueueCtx e)) | None \<Rightarrow> dq_loop deadline now q)"

definition queue_Ack :: "gotime \<Rightarrow> string \<Rightarrow> TaskStatus \<Rightarrow> string \<Rightarrow> Queue \<Rightarrow> Queue \<times> queue_error option" where
  "queue_Ack now taskID status errMsg q =
     (case q_byID q taskID of
        None \<Rightarrow> (q, Some ErrTaskNotFound)
      | Some a \<Rightarrow>
          (let t = (q_store q a)\<lparr>t_Status := status, t_ErrorMsg := errMsg, t_FinishedAt := Some now\<rparr>;
               st = q_stats q;
               (t, st) = (if status = StatusSuccess
                          then (t\<lparr>t_Progress := 100\<rparr>, st\<lparr>qs_Completed := qs_Completed st + 1\<rparr>)
                          else if status = StatusFailed then (t, st\<lparr>qs_Failed := qs_Failed st + 1\<rparr>)
                          else (t, st));
               q = set_task a t q\<lparr>q_stats := st\<rparr>
           in (if IsTerminal status then q\<lparr>q_byID := (q_byID q)(taskID := None)\<rparr> else q, None)))"

definition queue_Requeue :: "string \<Rightarrow> Queue \<Rightarrow> Queue \<times> queue_error option" where
  "queue_Requeue taskID q =
     (case q_byID q taskID of
        None \<Rightarrow> (q, Some ErrTaskNotFound)
      | Some a \<Rightarrow>
          (let t = q_store q a;
               q = set_task a (t\<lparr>t_Status := StatusPending, t_RetryCount := t_RetryCount t + 1, t_StartedAt := None,
                                t_FinishedAt := None, t_ErrorMsg := []\<rparr>) q;
               q = sortLocked (q\<lparr>q_tasks := q_tasks q @ [a]\<rparr>)
           in (add_pending 1 q, None)))"

definition queue_Get :: "string \<Rightarrow> Queue \<Rightarrow> queue_error + Task" where
  "queue_Get taskID q = (case q_byID q taskID of None \<Rightarrow> Inl ErrTaskNotFound | Some a \<Rightarrow> Inr (q_store q a))"

text \<open>\<open>Cancel\<close> removes the first task with the identifier from the pending list.\<close>

definition queue_Cancel :: "gotime \<Rightarrow> string \<Rightarrow> Queue \<Rightarrow> Queue \<times> queue_error option" where
  "queue_Cancel now taskID q =
     (case q_byID q taskID of
        None \<Rightarrow> (q, Some ErrTaskNotFound)
      | Some a \<Rightarrow>
          (let P = (\<lambda>b. t_ID (q_store q b) = taskID);
               q = (if list_ex P (q_tasks q) then add_pending (-1) (q\<lparr>q_tasks := remove_first P (q_tasks q)\<rparr>) else q);
               q = set_task a ((q_store q a)\<lparr>t_Status := StatusCanceled, t_FinishedAt := Some now\<rparr>) q
           in (q\<lparr>q_byID := (q_byID q)(taskID := None)\<rparr>, None)))"

fun position_loop :: "(addr \<Rightarrow> Task) \<Rightarrow> string \<Rightarrow> addr list \<Rightarrow> int \<Rightarrow> int" where
  "position_loop store taskID [] i = - 1"
| "position_loop store taskID (a # as) i =
     (if t_ID (store a) = taskID then i else position_loop store taskID as (i + 1))"

definition queue_Position :: "string \<Rightarrow> Queue \<Rightarrow> int" where
  "queue_Position taskID q = position_loop (q_store q) taskID (q_tasks q) 0"

definition queue_UpdateProgress :: "string \<Rightarrow> int \<Rightarrow> Queue \<Rightarrow> Queue \<times> queue_error option" where
  "queue_UpdateProgress taskID progress q =
     (case q_byID q taskID of
        None \<Rightarrow> (q, Some ErrTaskNotFound)
      | Some a \<Rightarrow>
          (let p = (if progress < 0 then 0 else progress); p = (if p > 100 then 100 else p)
           in (set_task a ((q_store q a)\<lparr>t_Progress := p\<rparr>) q, None)))"

definition queue_AppendLog :: "gotime \<Rightarrow> TaskLogEntry \<Rightarrow> Queue \<Rightarrow> Queue" where
  "queue_AppendLog now e q =
     (let e = (if time_IsZero (lg_Timestamp e) then e\<lparr>lg_Timestamp := now\<rparr> else e)
      in q\<lparr>q_logs := (q_logs q)(lg_TaskID e := q_logs q (lg_TaskID e) @ [e])\<rparr>)"

definition queue_ListLogs :: "string \<Rightarrow> int \<Rightarrow> Queue \<Rightarrow> TaskLogEntry list" where
  "queue_ListLogs taskID limit q =
     (let result = rev (q_logs q taskID)
      in if limit > 0 \<and> int (length result) > limit then take (nat limit) result else result)"

definition queue_Stats :: "Queue \<Rightarrow> QueueStats" where
  "queue_Stats q = (q_stats q)\<lparr>qs_Queue := q_name q\<rparr>"

definition queue_Close :: "Queue \<Rightarrow> Queue" where
  "queue_Close q = q\<lparr>q_closed := True\<rparr>"

section \<open>Histories\<close>

datatype q_op =
    QEnqueue gotime addr | QDequeue duration gotime | QWoken bool ctx gotime gotime
  | QAck gotime string TaskStatus string | QRequeue string | QCancel gotime string
  | QProgress string int | QLog gotime TaskLogEntry | QClose

fun q_apply :: "q_op \<Rightarrow> Queue \<Rightarrow> Queue" where
  "q_apply (QEnqueue now a) q = fst (queue_Enqueue now a q)"
| "q_apply (QDequeue timeout now) q = fst (dq_start timeout now q)"
| "q_apply (QWoken fired ctx deadline now) q = fst (dq_woken fired ctx deadline now q)"
| "q_apply (QAck now i s m) q = fst (queue_Ack now i s m q)"
| "q_apply (QRequeue i) q = fst (queue_Requeue i q)"
| "q_apply (QCancel now i) q = fst (queue_Cancel now i q)"
| "q_apply (QProgress i p) q = fst (queue_UpdateProgress i p q)"
| "q_apply (QLog now e) q = queue_AppendLog now e q"
| "q_apply QClose q = queue_Close q"

definition q_run :: "string \<Rightarrow> (addr \<Rightarrow> Task) \<Rightarrow> q_op list \<Rightarrow> Queue" where
  "q_run name store ops = fold q_apply ops (queue_New name store)"

section \<open>Order and counters\<close>

definition q_keys :: "Queue \<Rightarrow> (int \<times> gotime) list" where
  "q_keys q = map (\<lambda>a. task_key (q_store q a)) (q_tasks q)"

definition q_sorted :: "Queue \<Rightarrow> bool" where
  "q_sorted q \<longleftrightarrow> sorted (q_keys q) \<and> qs_Pending (q_stats q) = word_of_nat (length (q_tasks q))"

lemma set_task_keys:
  "task_key t = task_key (q_store q a) \<Longrightarrow> q_keys (set_task a t q) = q_keys q"
  by (simp add: q_keys_def set_task_def)

lemma q_simps [simp]:
  "q_tasks (set_task a t q) = q_tasks q" "q_stats (set_task a t q) = q_stats q" "q_byID (set_task a t q) = q_byID q"
  "q_closed (set_task a t q) = q_closed q" "q_store (set_task a t q) = (q_store q)(a := t)"
  "q_tasks (add_pending d q) = q_tasks q" "q_byID (add_pending d q) = q_byID q" "q_store (add_pending d q) = q_store q"
  "qs_Pending (q_stats (add_pending d q)) = qs_Pending (q_stats q) + d"
  "q_byID (sortLocked q) = q_byID q" "q_store (sortLocked q) = q_store q" "q_stats (sortLocked q) = q_stats q"
  "set (q_tasks (sortLocked q)) = set (q_tasks q)" "length (q_tasks (sortLocked q)) = length (q_tasks q)"
  by (simp_all add: set_task_def add_pending_def sortLocked_def)

lemma task_key_simps [simp]:
  "task_key (t\<lparr>t_Status := s\<rparr>) = task_key t" "task_key (t\<lparr>t_Progress := p\<rparr>) = task_key t"
  "task_key (t\<lparr>t_RetryCount := n\<rparr>) = task_key t" "task_key (t\<lparr>t_ErrorMsg := m\<rparr>) = task_key t"
  "task_key (t\<lparr>t_StartedAt := u\<rparr>) = task_key t" "task_key (t\<lparr>t_FinishedAt := u\<rparr>) = task_key t"
  by (simp_all add: task_key_def)

lemma sorted_sortLocked: "sorted (q_keys (sortLocked q))"
  by (simp add: q_keys_def sortLocked_def)

lemma q_sortedI: "sorted (q_keys q) \<Longrightarrow> qs_Pending (q_stats q) = word_of_nat (length (q_tasks q)) \<Longrightarrow> q_sorted q"
  by (simp add: q_sorted_def)

lemma q_keys_frame [simp]:
  "q_keys (add_pending d q) = q_keys q" "q_keys (q\<lparr>q_stats := s\<rparr>) = q_keys q" "q_keys (q\<lparr>q_byID := m\<rparr>) = q_keys q"
  "q_keys (q\<lparr>q_logs := l\<rparr>) = q_keys q" "q_keys (q\<lparr>q_closed := c\<rparr>) = q_keys q"
  by (simp_all add: q_keys_def add_pending_def)

lemma popLocked_sorted:
  assumes "q_sorted q" "q_tasks q \<noteq> []"
  shows "q_sorted (fst (popLocked now q))"
proof (rule q_sortedI)
  let ?t = "(q_store q (hd (q_tasks q)))\<lparr>t_Status := StatusRunning, t_StartedAt := Some now\<rparr>"
  have "q_keys (fst (popLocked now q)) = q_keys (q\<lparr>q_tasks := tl (q_tasks q)\<rparr>)"
    by (simp add: popLocked_def Let_def set_task_keys)
  also have "\<dots> = tl (q_keys q)" by (simp add: q_keys_def map_tl)
  finally show "sorted (q_keys (fst (popLocked now q)))" using assms(1) by (simp add: q_sorted_def sorted_tl)
  show "qs_Pending (q_stats (fst (popLocked now q))) = word_of_nat (length (q_tasks (fst (popLocked now q))))"
    using assms by (cases "q_tasks q") (simp_all add: popLocked_def Let_def q_sorted_def)
qed

lemma dq_loop_sorted: "q_sorted q \<Longrightarrow> q_sorted (fst (dq_loop deadline now q))"
  using popLocked_sorted [of q now] by (auto simp: dq_loop_def dq_exit_def split: prod.splits)

lemma q_apply_sorted: "q_sorted q \<Longrightarrow> q_sorted (q_apply p q)"
proof (cases p)
  case (QEnqueue now a)
  assume "q_sorted q"
  then show ?thesis
    using QEnqueue by (auto simp: queue_Enqueue_def Let_def intro!: q_sortedI sorted_sortLocked)
      (simp_all add: q_sorted_def)
next
  case (QDequeue timeout now)
  assume "q_sorted q"
  then show ?thesis
    using QDequeue popLocked_sorted [of q now] dq_loop_sorted by (auto simp: dq_start_def split: prod.splits)
next
  case (QWoken fired ctx deadline now)
  assume "q_sorted q"
  then show ?thesis using QWoken dq_loop_sorted by (auto simp: dq_woken_def split: option.splits)
next
  case (QAck now i s m)
  assume "q_sorted q"
  then show ?thesis
    using QAck by (auto simp: queue_Ack_def Let_def q_sorted_def set_task_keys split: option.splits prod.splits if_splits)
next
  case (QRequeue i)
  assume "q_sorted q"
  then show ?thesis
    using QRequeue by (auto simp: queue_Requeue_def Let_def intro!: q_sortedI sorted_sortLocked split: option.splits)
      (simp add: q_sorted_def)
next
  case (QCancel now i)
  assume q: "q_sorted q"
  have sm: "sorted (map f (remove_first P xs))" if "sorted (map f xs)" for f :: "addr \<Rightarrow> int \<times> gotime" and P xs
    using that by (induction xs) (auto dest: subsetD [OF set_remove_first])
  have len: "word_of_nat (length (remove_first P xs)) = (word_of_nat (length xs) - 1 :: int64)" if "list_ex P xs" for P and xs :: "addr list"
    using length_remove_first [OF that] by (metis add_diff_cancel_left' of_nat_Suc)
  show ?thesis
  proof (cases "q_byID q i")
    case None
    then show ?thesis using q QCancel by (simp add: queue_Cancel_def)
  next
    case (Some a)
    let ?P = "\<lambda>b. t_ID (q_store q b) = i"
    define q1 where "q1 = (if list_ex ?P (q_tasks q) then add_pending (-1) (q\<lparr>q_tasks := remove_first ?P (q_tasks q)\<rparr>) else q)"
    have q1: "q_sorted q1"
      using q sm len by (auto simp: q1_def q_sorted_def q_keys_def)
    have "q_sorted (set_task a ((q_store q1 a)\<lparr>t_Status := StatusCanceled, t_FinishedAt := Some now\<rparr>) q1)"
      using q1 by (simp add: q_sorted_def set_task_keys)
    then have "q_sorted (fst (queue_Cancel now i q))"
      using Some by (simp add: queue_Cancel_def Let_def q1_def [symmetric] q_sorted_def)
    then show ?thesis using QCancel by simp
  qed
qed (auto simp: queue_UpdateProgress_def queue_AppendLog_def queue_Close_def Let_def q_sorted_def set_task_keys split: option.splits)

lemma q_run_sorted: "q_sorted (q_run name store ops)"
proof -
  have "q_sorted (fold q_apply ops q)" if "q_sorted q" for q
    using that by (induction ops arbitrary: q) (simp_all add: q_apply_sorted)
  moreover have "q_sorted (queue_New name store)" by (simp add: q_sorted_def queue_New_def q_keys_def)
  ultimately show ?thesis unfolding q_run_def by blast
qed

text \<open>A stable sort of a sorted list with one element more puts it behind its equals.\<close>

lemma sort_key_snoc:
  "sorted (map f xs) \<Longrightarrow> sort_key f (xs @ [a]) = takeWhile (\<lambda>x. f x \<le> f a) xs @ a # dropWhile (\<lambda>x. f x \<le> f a) xs"
proof (induction xs)
  case (Cons x xs)
  then have IH: "sort_key f (xs @ [a]) = takeWhile (\<lambda>x. f x \<le> f a) xs @ a # dropWhile (\<lambda>x. f x \<le> f a) xs"
    and le: "\<forall>y \<in> set xs. f x \<le> f y" by auto
  show ?case
  proof (cases "f x \<le> f a")
    case True
    have "\<forall>y \<in> set (takeWhile (\<lambda>x. f x \<le> f a) xs @ a # dropWhile (\<lambda>x. f x \<le> f a) xs). f x \<le> f y"
      using le True by (auto dest: set_takeWhileD set_dropWhileD)
    then have "insort_key f x (takeWhile (\<lambda>x. f x \<le> f a) xs @ a # dropWhile (\<lambda>x. f x \<le> f a) xs) =
        x # takeWhile (\<lambda>x. f x \<le> f a) xs @ a # dropWhile (\<lambda>x. f x \<le> f a) xs"
      by (intro insort_is_Cons) auto
    then show ?thesis using IH True by simp
  next
    case False
    then have gt: "\<not> f y \<le> f a" if "y \<in> set xs" for y using le that by (meson order_trans not_le_imp_less less_le_not_le)
    have "takeWhile (\<lambda>x. f x \<le> f a) xs = []" "dropWhile (\<lambda>x. f x \<le> f a) xs = xs"
      using gt by (cases xs; simp)+
    moreover have "insort_key f x xs = x # xs" using le by (intro insort_is_Cons) auto
    ultimately show ?thesis using IH False by simp
  qed
qed simp


section \<open>Each task in one place\<close>

text \<open>
  The calls of a well-behaved client: a pointer is enqueued when the queue does not know it, and
  only tasks that were dequeued are acknowledged (with another status than pending) or requeued.
\<close>

definition dispatched :: "Queue \<Rightarrow> string \<Rightarrow> bool" where
  "dispatched q i \<longleftrightarrow> (case q_byID q i of None \<Rightarrow> True | Some a \<Rightarrow> t_Status (q_store q a) \<noteq> StatusPending)"

fun q_legal :: "Queue \<Rightarrow> q_op \<Rightarrow> bool" where
  "q_legal q (QEnqueue now a) \<longleftrightarrow> q_byID q (t_ID (q_store q a)) \<noteq> Some a"
| "q_legal q (QAck now i s m) \<longleftrightarrow> dispatched q i \<and> s \<noteq> StatusPending"
| "q_legal q (QRequeue i) \<longleftrightarrow> dispatched q i"
| "q_legal q _ \<longleftrightarrow> True"

fun q_legal_run :: "Queue \<Rightarrow> q_op list \<Rightarrow> bool" where
  "q_legal_run q [] \<longleftrightarrow> True"
| "q_legal_run q (p # ps) \<longleftrightarrow> q_legal q p \<and> q_legal_run (q_apply p q) ps"

definition q_places :: "Queue \<Rightarrow> bool" where
  "q_places q \<longleftrightarrow> distinct (q_tasks q) \<and>
     (\<forall>i a. q_byID q i = Some a \<longrightarrow>
        t_ID (q_store q a) = i \<and> (a \<in> set (q_tasks q) \<longleftrightarrow> t_Status (q_store q a) = StatusPending)) \<and>
     (\<forall>a \<in> set (q_tasks q). q_byID q (t_ID (q_store q a)) = Some a)"

lemma distinct_sortLocked [simp]: "distinct (q_tasks (sortLocked q)) = distinct (q_tasks q)"
  by (simp add: sortLocked_def)

lemma q_places_pop:
  assumes "q_places q" "q_tasks q \<noteq> []"
  shows "q_places (fst (popLocked now q))"
proof -
  obtain a as where t: "q_tasks q = a # as" using assms(2) by (cases "q_tasks q") auto
  have "a \<notin> set as" using assms(1) t by (simp add: q_places_def)
  then show ?thesis
    using assms(1) t unfolding q_places_def popLocked_def Let_def
    by (auto simp: set_task_def add_pending_def)
qed

lemma dq_loop_places: "q_places q \<Longrightarrow> q_places (fst (dq_loop deadline now q))"
  using q_places_pop [of q now] by (auto simp: dq_loop_def dq_exit_def split: prod.splits)

lemma q_places_enqueue:
  assumes "q_places q" "q_byID q (t_ID (q_store q a)) \<noteq> Some a"
  shows "q_places (fst (queue_Enqueue now a q))"
proof (cases "q_closed q \<or> q_byID q (t_ID (q_store q a)) \<noteq> None")
  case True
  then have "fst (queue_Enqueue now a q) = q" by (elim disjE) (simp_all add: queue_Enqueue_def Let_def del: not_None_eq)
  then show ?thesis using assms(1) by simp
next
  case False
  then have new: "q_byID q (t_ID (q_store q a)) = None" by simp
  have kn: "q_byID q (t_ID (q_store q b)) = Some b" if "b \<in> set (q_tasks q)" for b
    using assms(1) that unfolding q_places_def by blast
  have id: "t_ID (q_store q b) = i" if "q_byID q i = Some b" for i b
    using assms(1) that unfolding q_places_def by blast
  have nt: "a \<notin> set (q_tasks q)" using kn [of a] new by fastforce
  have nk: "q_byID q i \<noteq> Some a" for i using id [of i a] new by fastforce
  define q' where "q' = fst (queue_Enqueue now a q)"
  define t where "t = (q_store q a)\<lparr>t_Status := StatusPending,
    t_SubmitTime := (if time_IsZero (t_SubmitTime (q_store q a)) then now else t_SubmitTime (q_store q a))\<rparr>"
  have t: "t_ID t = t_ID (q_store q a)" "t_Status t = StatusPending" "distinct (q_tasks q') \<longleftrightarrow> distinct (a # q_tasks q)"
    "set (q_tasks q') = insert a (set (q_tasks q))" "q_store q' = (q_store q)(a := t)"
    "q_byID q' = (q_byID q)(t_ID t \<mapsto> a)"
    using False by (auto simp: q'_def t_def queue_Enqueue_def Let_def sortLocked_def)
  have 1: "t_ID (q_store q' b) = j \<and> (b \<in> set (q_tasks q') \<longleftrightarrow> t_Status (q_store q' b) = StatusPending)"
    if "q_byID q' j = Some b" for j b
  proof (cases "j = t_ID t")
    case True
    then show ?thesis using that t by simp
  next
    case False
    then have "q_byID q j = Some b" using that t(6) by simp
    moreover from this have "b \<noteq> a" using nk by blast
    ultimately show ?thesis using assms(1) t(4,5) by (simp add: q_places_def)
  qed
  have 2: "q_byID q' (t_ID (q_store q' b)) = Some b" if "b \<in> set (q_tasks q')" for b
  proof (cases "b = a")
    case False
    then have "q_byID q (t_ID (q_store q b)) = Some b" using that t(4) assms(1) by (simp add: q_places_def)
    then show ?thesis using False new t by auto
  qed (simp add: t)
  have "distinct (q_tasks q')" using t(3) nt assms(1) by (simp add: q_places_def)
  then have "q_places q'" using 1 2 unfolding q_places_def by blast
  then show ?thesis by (simp add: q'_def)
qed

text \<open>One task changes: its record, its place in the list, and whether it is still known.\<close>

lemma q_places_update:
  assumes q: "q_places q" and a: "q_byID q i = Some a" and t: "t_ID t = i" and st: "q_store q' = (q_store q)(a := t)"
    and ts: "distinct (q_tasks q')" "set (q_tasks q') - {a} = set (q_tasks q) - {a}"
    and kw: "q_byID q' = (if known then q_byID q else (q_byID q)(i := None))"
    and pl: "a \<in> set (q_tasks q') \<longleftrightarrow> known \<and> t_Status t = StatusPending"
    and un: "known \<or> t_Status t \<noteq> StatusPending"
  shows "q_places q'"
proof -
  have id: "t_ID (q_store q b) = j" "b \<in> set (q_tasks q) \<longleftrightarrow> t_Status (q_store q b) = StatusPending" if "q_byID q j = Some b" for j b
    using q that by (auto simp: q_places_def)
  have kn: "q_byID q (t_ID (q_store q b)) = Some b" if "b \<in> set (q_tasks q)" for b using q that by (auto simp: q_places_def)
  have other: "b \<in> set (q_tasks q') \<longleftrightarrow> b \<in> set (q_tasks q)" if "b \<noteq> a" for b using ts(2) that by blast
  have mono: "q_byID q j = Some b \<and> (known \<or> j \<noteq> i)" if "q_byID q' j = Some b" for j b
    using that by (simp add: kw split: if_splits)
  have 1: "t_ID (q_store q' b) = j \<and> (b \<in> set (q_tasks q') \<longleftrightarrow> t_Status (q_store q' b) = StatusPending)"
    if "q_byID q' j = Some b" for j b
  proof (cases "b = a")
    case True
    have j: "j = i" using id(1) [of j a] id(1) [OF a] mono [OF that] True by simp
    then have known using mono [OF that] by simp
    then show ?thesis using True j t pl by (simp add: st)
  next
    case False
    have b: "q_byID q j = Some b" using mono [OF that] by simp
    show ?thesis using id [OF b] other [OF False] False by (simp add: st)
  qed
  have 2: "q_byID q' (t_ID (q_store q' b)) = Some b" if "b \<in> set (q_tasks q')" for b
  proof (cases "b = a")
    case True
    then have known using pl that by simp
    then show ?thesis using True t a by (simp add: st kw)
  next
    case False
    then have b: "q_byID q (t_ID (q_store q b)) = Some b" using other kn that by blast
    moreover have "t_ID (q_store q b) \<noteq> i" using b a False by auto
    ultimately show ?thesis using False by (simp add: st kw)
  qed
  show ?thesis using ts(1) 1 2 unfolding q_places_def by blast
qed

lemma q_places_ack:
  assumes q: "q_places q" "dispatched q i" "s \<noteq> StatusPending"
  shows "q_places (fst (queue_Ack now i s m q))"
proof (cases "q_byID q i")
  case None
  then show ?thesis using q by (simp add: queue_Ack_def)
next
  case (Some a)
  have a: "t_ID (q_store q a) = i" "a \<notin> set (q_tasks q)" using q Some by (auto simp: q_places_def dispatched_def)
  define t where "t = (if s = StatusSuccess
    then (q_store q a)\<lparr>t_Status := s, t_ErrorMsg := m, t_FinishedAt := Some now, t_Progress := 100\<rparr>
    else (q_store q a)\<lparr>t_Status := s, t_ErrorMsg := m, t_FinishedAt := Some now\<rparr>)"
  have t: "t_ID t = i" "t_Status t = s"
    "q_tasks (fst (queue_Ack now i s m q)) = q_tasks q" "q_store (fst (queue_Ack now i s m q)) = (q_store q)(a := t)"
    "q_byID (fst (queue_Ack now i s m q)) = (if IsTerminal s then (q_byID q)(i := None) else q_byID q)"
    using Some a by (simp_all add: queue_Ack_def Let_def t_def)
  show ?thesis
  proof (rule q_places_update [OF q(1) Some t(1) t(4), where known = "\<not> IsTerminal s"])
    show "distinct (q_tasks (fst (queue_Ack now i s m q)))" using q(1) t(3) by (simp add: q_places_def)
    show "a \<in> set (q_tasks (fst (queue_Ack now i s m q))) \<longleftrightarrow> \<not> IsTerminal s \<and> t_Status t = StatusPending"
      using a(2) q(3) t(2,3) by simp
    show "\<not> IsTerminal s \<or> t_Status t \<noteq> StatusPending" using q(3) t(2) by simp
  qed (simp_all add: t(3,5))
qed

lemma q_places_requeue:
  assumes q: "q_places q" "dispatched q i"
  shows "q_places (fst (queue_Requeue i q))"
proof (cases "q_byID q i")
  case None
  then show ?thesis using q by (simp add: queue_Requeue_def)
next
  case (Some a)
  have a: "t_ID (q_store q a) = i" "a \<notin> set (q_tasks q)" using q Some by (auto simp: q_places_def dispatched_def)
  let ?t = "(q_store q a)\<lparr>t_Status := StatusPending, t_RetryCount := t_RetryCount (q_store q a) + 1, t_StartedAt := None,
    t_FinishedAt := None, t_ErrorMsg := []\<rparr>"
  show ?thesis
  proof (rule q_places_update [OF q(1) Some, where t = ?t and known = True])
    show "distinct (q_tasks (fst (queue_Requeue i q)))"
      using Some a q(1) by (simp add: queue_Requeue_def Let_def sortLocked_def q_places_def)
  qed (use Some a in \<open>auto simp: queue_Requeue_def Let_def sortLocked_def\<close>)
qed

lemma remove_first_filter:
  "distinct xs \<Longrightarrow> \<forall>x \<in> set xs. \<forall>y \<in> set xs. P x \<and> P y \<longrightarrow> x = y \<Longrightarrow> remove_first P xs = filter (\<lambda>x. \<not> P x) xs"
proof (induction xs)
  case (Cons x xs)
  then have "filter (\<lambda>y. \<not> P y) xs = xs" if "P x" using that by (auto simp: filter_id_conv)
  with Cons show ?case by auto
qed simp

lemma q_places_cancel:
  assumes q: "q_places q"
  shows "q_places (fst (queue_Cancel now i q))"
proof (cases "q_byID q i")
  case None
  then show ?thesis using q by (simp add: queue_Cancel_def)
next
  case (Some a)
  let ?P = "\<lambda>b. t_ID (q_store q b) = i"
  have id: "t_ID (q_store q a) = i" using q Some by (simp add: q_places_def)
  have P: "b = a" if "b \<in> set (q_tasks q)" "?P b" for b
  proof -
    have "q_byID q (t_ID (q_store q b)) = Some b" using q that(1) by (simp add: q_places_def)
    then show ?thesis using Some that(2) by simp
  qed
  have rem: "remove_first ?P (q_tasks q) = filter (\<lambda>b. \<not> ?P b) (q_tasks q)"
  proof (rule remove_first_filter)
    show "distinct (q_tasks q)" using q by (simp add: q_places_def)
    show "\<forall>x \<in> set (q_tasks q). \<forall>y \<in> set (q_tasks q). ?P x \<and> ?P y \<longrightarrow> x = y" using P by blast
  qed
  define t where "t = (q_store q a)\<lparr>t_Status := StatusCanceled, t_FinishedAt := Some now\<rparr>"
  have none: "filter (\<lambda>b. \<not> ?P b) (q_tasks q) = q_tasks q" if "\<not> list_ex ?P (q_tasks q)"
    using that by (auto simp: filter_id_conv list_ex_iff)
  have t: "t_ID t = i"
    "q_tasks (fst (queue_Cancel now i q)) = filter (\<lambda>b. \<not> ?P b) (q_tasks q)"
    "q_store (fst (queue_Cancel now i q)) = (q_store q)(a := t)"
    "q_byID (fst (queue_Cancel now i q)) = (q_byID q)(i := None)" "t_Status t \<noteq> StatusPending"
    using Some rem none id by (simp_all add: queue_Cancel_def Let_def t_def)
  show ?thesis
  proof (rule q_places_update [OF q Some t(1) t(3), where known = False])
    show "distinct (q_tasks (fst (queue_Cancel now i q)))" using q t(2) by (simp add: q_places_def)
    show "set (q_tasks (fst (queue_Cancel now i q))) - {a} = set (q_tasks q) - {a}" using P t(2) by auto
    show "a \<in> set (q_tasks (fst (queue_Cancel now i q))) \<longleftrightarrow> False \<and> t_Status t = StatusPending" using t(2) id by simp
  qed (simp_all add: t(4,5))
qed

lemma q_places_frame:
  "q_places (q\<lparr>q_logs := l\<rparr>) = q_places q" "q_places (q\<lparr>q_closed := c\<rparr>) = q_places q"
  by (simp_all add: q_places_def)

lemma q_places_progress: "q_places q \<Longrightarrow> q_places (fst (queue_UpdateProgress i p q))"
  by (auto simp: queue_UpdateProgress_def Let_def q_places_def split: option.splits)

lemma q_apply_places: "q_places q \<Longrightarrow> q_legal q p \<Longrightarrow> q_places (q_apply p q)"
proof (cases p)
  case (QDequeue timeout now)
  assume "q_places q"
  then show ?thesis
    using QDequeue q_places_pop [of q now] dq_loop_places by (auto simp: dq_start_def split: prod.splits)
next
  case (QWoken fired ctx deadline now)
  assume "q_places q"
  then show ?thesis using QWoken dq_loop_places by (auto simp: dq_woken_def split: option.splits)
qed (simp_all add: q_places_enqueue q_places_ack q_places_requeue q_places_cancel q_places_progress
      queue_AppendLog_def queue_Close_def Let_def q_places_frame)

lemma q_run_places: "q_legal_run (queue_New name store) ops \<Longrightarrow> q_places (q_run name store ops)"
proof -
  have "q_legal_run q ops \<Longrightarrow> q_places q \<Longrightarrow> q_places (fold q_apply ops q)" for q
    by (induction ops arbitrary: q) (simp_all add: q_apply_places)
  moreover have "q_places (queue_New name store)" by (simp add: q_places_def queue_New_def)
  ultimately show "q_legal_run (queue_New name store) ops \<Longrightarrow> ?thesis" unfolding q_run_def by blast
qed

lemma dq_start_cases:
  "dq_start timeout now q =
     (if q_tasks q \<noteq> [] then (fst (popLocked now q), DqTask (hd (q_tasks q)))
      else (q, if q_closed q then DqErr ErrQueueClosed else if timeout \<le> 0 then DqErr ErrQueueEmpty
               else DqWait (now + timeout)))"
  by (auto simp: dq_start_def dq_loop_def popLocked_def Let_def split: prod.splits)

lemma popLocked_simps:
  "q_tasks (fst (popLocked now q)) = tl (q_tasks q)"
  "q_byID (fst (popLocked now q)) = q_byID q"
  "q_store (fst (popLocked now q)) =
     (q_store q)(hd (q_tasks q) := (q_store q (hd (q_tasks q)))\<lparr>t_Status := StatusRunning, t_StartedAt := Some now\<rparr>)"
  by (simp_all add: popLocked_def Let_def)

lemma dequeue_least:
  assumes "q_sorted q" "dq_start timeout now q = (q', DqTask a)"
  shows "q_tasks q = a # q_tasks q'" and "\<forall>b \<in> set (q_tasks q). task_key (q_store q a) \<le> task_key (q_store q b)"
proof -
  have ne: "q_tasks q \<noteq> []" and q': "q' = fst (popLocked now q)" "a = hd (q_tasks q)"
    using assms(2) by (auto simp: dq_start_cases split: if_splits)
  show 1: "q_tasks q = a # q_tasks q'" using ne q' by (simp add: popLocked_simps)
  have "sorted (map (\<lambda>b. task_key (q_store q b)) (a # q_tasks q'))"
    using assms(1) unfolding q_sorted_def q_keys_def 1 by blast
  then show "\<forall>b \<in> set (q_tasks q). task_key (q_store q a) \<le> task_key (q_store q b)" unfolding 1 by simp
qed

lemma enqueue_place:
  assumes q: "q_sorted q" and e: "queue_Enqueue now a q = (q', None)" and a: "a \<notin> set (q_tasks q)"
  shows "q_tasks q' = takeWhile (\<lambda>b. task_key (q_store q b) \<le> task_key (q_store q' a)) (q_tasks q) @
           a # dropWhile (\<lambda>b. task_key (q_store q b) \<le> task_key (q_store q' a)) (q_tasks q)"
proof -
  define t where "t = (q_store q a)\<lparr>t_Status := StatusPending,
    t_SubmitTime := (if time_IsZero (t_SubmitTime (q_store q a)) then now else t_SubmitTime (q_store q a))\<rparr>"
  have st: "q_store q' = (q_store q)(a := t)"
    and ts: "q_tasks q' = sort_key (\<lambda>b. task_key (q_store q' b)) (q_tasks q @ [a])"
    using e by (cases "q_closed q"; cases "q_byID q (t_ID (q_store q a)) = None";
      auto simp: t_def queue_Enqueue_def Let_def sortLocked_def add_pending_def set_task_def)+
  have key: "task_key (q_store q' b) = task_key (q_store q b)" if "b \<in> set (q_tasks q)" for b
    using a that st by auto
  have "sorted (map (\<lambda>b. task_key (q_store q' b)) (q_tasks q))"
    using q key by (simp add: q_sorted_def q_keys_def cong: map_cong)
  from sort_key_snoc [OF this, of a] show ?thesis
    unfolding ts using key by (simp cong: takeWhile_cong dropWhile_cong)
qed

lemma position_loop_at:
  "distinct xs \<Longrightarrow> \<forall>x \<in> set xs. \<forall>y \<in> set xs. t_ID (st x) = t_ID (st y) \<longrightarrow> x = y \<Longrightarrow> n < length xs \<Longrightarrow>
   position_loop st (t_ID (st (xs ! n))) xs i = i + int n"
proof (induction xs arbitrary: n i)
  case (Cons x xs)
  show ?case
  proof (cases n)
    case (Suc m)
    then have m: "m < length xs" using Cons.prems(3) by simp
    have "xs ! m \<noteq> x" using Cons.prems(1) nth_mem [OF m] by auto
    then have "t_ID (st x) \<noteq> t_ID (st (xs ! m))" using Cons.prems(2) nth_mem [OF m] by auto
    then show ?thesis using Suc Cons.IH [of m "i + 1"] Cons.prems m by simp
  qed simp
qed simp

lemma position_loop_none: "\<forall>x \<in> set xs. t_ID (st x) \<noteq> i \<Longrightarrow> position_loop st i xs n = - 1"
  by (induction xs arbitrary: n) auto

lemma q_places_inj: "q_places q \<Longrightarrow> a \<in> set (q_tasks q) \<Longrightarrow> b \<in> set (q_tasks q) \<Longrightarrow> t_ID (q_store q a) = t_ID (q_store q b) \<Longrightarrow> a = b"
  unfolding q_places_def by (metis option.inject)

section \<open>The properties of the queue\<close>

text \<open>
  C26. After any history of calls on a memory queue, the pending counter is the number of queued
  tasks (modulo 2^64); a Dequeue that returns a task returns and removes the first of the list,
  none of the queued tasks has a higher priority, and none of equal priority was submitted
  earlier; it fails or waits only when the list is empty and then changes nothing; and an Enqueue
  that succeeds puts a new task behind every task of the same or a better order and before all
  others, leaving their order, while one that fails changes nothing.
\<close>

theorem queue_dispatch_order:
  assumes "q = q_run name store ops" and "a \<notin> set (q_tasks q)"
  shows "qs_Pending (queue_Stats q) = word_of_nat (length (q_tasks q)) \<and>
    (case dq_start timeout now q of
       (q', DqTask b) \<Rightarrow> q_tasks q = b # q_tasks q' \<and>
         (\<forall>c \<in> set (q_tasks q). t_Priority (q_store q c) < t_Priority (q_store q b) \<or>
            t_Priority (q_store q c) = t_Priority (q_store q b) \<and> t_SubmitTime (q_store q b) \<le> t_SubmitTime (q_store q c))
     | (q', DqErr e) \<Rightarrow> q' = q \<and> q_tasks q = [] \<and> e = (if q_closed q then ErrQueueClosed else ErrQueueEmpty)
     | (q', DqWait d) \<Rightarrow> q' = q \<and> q_tasks q = [] \<and> \<not> q_closed q \<and> d = now + timeout) \<and>
    (case queue_Enqueue now a q of
       (q', None) \<Rightarrow>
         (let before = (\<lambda>b. task_key (q_store q b) \<le> task_key (q_store q' a))
          in q_tasks q' = takeWhile before (q_tasks q) @ a # dropWhile before (q_tasks q))
     | (q', Some e) \<Rightarrow> q' = q)"
proof (intro conjI)
  have s: "q_sorted q" unfolding assms(1) by (rule q_run_sorted)
  then show "qs_Pending (queue_Stats q) = word_of_nat (length (q_tasks q))" by (simp add: q_sorted_def queue_Stats_def)
  obtain q' r where d: "dq_start timeout now q = (q', r)" by fastforce
  show "case dq_start timeout now q of
       (q', DqTask b) \<Rightarrow> q_tasks q = b # q_tasks q' \<and>
         (\<forall>c \<in> set (q_tasks q). t_Priority (q_store q c) < t_Priority (q_store q b) \<or>
            t_Priority (q_store q c) = t_Priority (q_store q b) \<and> t_SubmitTime (q_store q b) \<le> t_SubmitTime (q_store q c))
     | (q', DqErr e) \<Rightarrow> q' = q \<and> q_tasks q = [] \<and> e = (if q_closed q then ErrQueueClosed else ErrQueueEmpty)
     | (q', DqWait d) \<Rightarrow> q' = q \<and> q_tasks q = [] \<and> \<not> q_closed q \<and> d = now + timeout"
  proof (cases r)
    case (DqTask b)
    with d have "dq_start timeout now q = (q', DqTask b)" by simp
    from dequeue_least [OF s this] show ?thesis
      unfolding d DqTask by (auto simp: task_key_def less_eq_prod_def)
  next
    case (DqErr e)
    with d show ?thesis by (auto simp: dq_start_cases split: if_splits)
  next
    case (DqWait t)
    with d show ?thesis by (auto simp: dq_start_cases split: if_splits)
  qed
  obtain q2 e where en: "queue_Enqueue now a q = (q2, e)" by fastforce
  show "case queue_Enqueue now a q of
       (q', None) \<Rightarrow>
         (let before = (\<lambda>b. task_key (q_store q b) \<le> task_key (q_store q' a))
          in q_tasks q' = takeWhile before (q_tasks q) @ a # dropWhile before (q_tasks q))
     | (q', Some e) \<Rightarrow> q' = q"
  proof (cases e)
    case None
    with en enqueue_place [OF s _ assms(2), of now q2] show ?thesis by (simp add: Let_def)
  next
    case (Some x)
    with en show ?thesis by (auto simp: queue_Enqueue_def Let_def split: if_splits)
  qed
qed

text \<open>Three tasks: the second is more urgent than the first, the third ties with the first.\<close>

definition tasks3 :: "addr \<Rightarrow> Task" where
  "tasks3 a = \<lparr>t_ID = (if a = 0 then ''a'' else if a = 1 then ''b'' else ''c''), t_JobID = [],
     t_Priority = (if a = 1 then 5 else 0), t_Weight = 0, t_Status = StatusPending, t_Progress = 0, t_RetryCount = 0,
     t_MaxRetries = 0, t_ErrorMsg = [], t_SubmitTime = int a + 1, t_StartedAt = None, t_FinishedAt = None,
     t_Preemptible = False\<rparr>"

definition queue3 :: Queue where
  "queue3 = q_run ''q'' tasks3 [QEnqueue 1 0, QEnqueue 2 1]"

lemma queue3:
  "queue3 =
     \<lparr>q_name = ''q'', q_store = (tasks3(0 := tasks3 0))(1 := tasks3 1), q_tasks = [1, 0],
      q_byID = [''a'' \<mapsto> 0, ''b'' \<mapsto> 1], q_logs = (\<lambda>_. []), q_closed = False,
      q_stats = \<lparr>qs_Queue = [], qs_Pending = 2, qs_Running = 0, qs_Completed = 0, qs_Failed = 0, qs_Total = 2\<rparr>\<rparr>"
  by (simp add: queue3_def q_run_def queue_New_def queue_Enqueue_def Let_def tasks3_def set_task_def sortLocked_def
      add_pending_def task_key_def)

theorem queue_dispatch_order_witness:
  "qs_Pending (queue_Stats queue3) = 2 \<and>
   (\<exists>q'. dq_start 0 9 queue3 = (q', DqTask 1) \<and> q_tasks q' = [0]) \<and>
   (\<exists>q'. queue_Enqueue 9 2 queue3 = (q', None) \<and> q_tasks q' = [1, 0, 2])"
proof -
  have run: "queue3 = q_run ''q'' tasks3 [QEnqueue 1 0, QEnqueue 2 1]" by (simp add: queue3_def)
  have new: "2 \<notin> set (q_tasks queue3)" by (simp add: queue3)
  have deq: "dq_start 0 9 queue3 = (fst (popLocked 9 queue3), DqTask 1)" by (simp add: dq_start_cases queue3)
  obtain q' where enq: "queue_Enqueue 9 2 queue3 = (q', None)" and key: "task_key (q_store q' 2) = (0, 3)"
    by (force simp: queue_Enqueue_def queue3 Let_def tasks3_def set_task_def sortLocked_def add_pending_def task_key_def)
  have ts: "q_tasks queue3 = [1, 0]" "task_key (q_store queue3 1) = (- 5, 2)" "task_key (q_store queue3 0) = (0, 1)"
    by (simp_all add: queue3 tasks3_def task_key_def)
  note P = queue_dispatch_order [OF run new, where timeout = 0 and now = 9, unfolded deq enq, simplified]
  have "qs_Pending (queue_Stats queue3) = 2" using P ts by simp
  moreover have "q_tasks (fst (popLocked 9 queue3)) = [0]" using P ts by simp
  moreover have "q_tasks q' = [1, 0, 2]" using P ts key by (simp add: Let_def)
  ultimately show ?thesis using deq enq by blast
qed

text \<open>
  C36. In a history whose client enqueues only tasks the queue does not hold and acknowledges or
  requeues only dequeued tasks, every task is in one place: the list has no duplicates, a known
  task is in the list exactly when its status is pending, and every listed task is known by its
  identifier. So a dequeued task was pending, is then running, known and not listed, and Position
  returns a listed task's index, and -1 exactly for the identifiers that are not listed.
\<close>

theorem queue_one_place:
  assumes "q_legal_run (queue_New name store) ops" and "q = q_run name store ops"
  shows "distinct (q_tasks q) \<and>
    (\<forall>i a. q_byID q i = Some a \<longrightarrow>
       t_ID (q_store q a) = i \<and> (a \<in> set (q_tasks q) \<longleftrightarrow> t_Status (q_store q a) = StatusPending)) \<and>
    (\<forall>a \<in> set (q_tasks q). q_byID q (t_ID (q_store q a)) = Some a) \<and>
    (case dq_start timeout now q of
       (q', DqTask a) \<Rightarrow> t_Status (q_store q a) = StatusPending \<and> t_Status (q_store q' a) = StatusRunning \<and>
         a \<notin> set (q_tasks q') \<and> queue_Get (t_ID (q_store q a)) q' = Inr (q_store q' a)
     | (q', _) \<Rightarrow> q' = q) \<and>
    (\<forall>n < length (q_tasks q). queue_Position (t_ID (q_store q (q_tasks q ! n))) q = int n) \<and>
    (\<forall>i. queue_Position i q = - 1 \<longleftrightarrow> i \<notin> (\<lambda>a. t_ID (q_store q a)) ` set (q_tasks q))"
proof (intro conjI)
  have p: "q_places q" using q_run_places assms by simp
  then show dist: "distinct (q_tasks q)"
    and st: "\<forall>i a. q_byID q i = Some a \<longrightarrow>
       t_ID (q_store q a) = i \<and> (a \<in> set (q_tasks q) \<longleftrightarrow> t_Status (q_store q a) = StatusPending)"
    and kn: "\<forall>a \<in> set (q_tasks q). q_byID q (t_ID (q_store q a)) = Some a"
    unfolding q_places_def by blast+
  show "case dq_start timeout now q of
       (q', DqTask a) \<Rightarrow> t_Status (q_store q a) = StatusPending \<and> t_Status (q_store q' a) = StatusRunning \<and>
         a \<notin> set (q_tasks q') \<and> queue_Get (t_ID (q_store q a)) q' = Inr (q_store q' a)
     | (q', _) \<Rightarrow> q' = q"
  proof (cases "q_tasks q")
    case (Cons a as)
    have "q_byID q (t_ID (q_store q a)) = Some a" "t_Status (q_store q a) = StatusPending" "a \<notin> set as"
      using kn st dist Cons by force+
    then show ?thesis using Cons by (simp add: dq_start_cases popLocked_simps queue_Get_def)
  qed (simp add: dq_start_cases)
  have inj: "\<forall>x \<in> set (q_tasks q). \<forall>y \<in> set (q_tasks q). t_ID (q_store q x) = t_ID (q_store q y) \<longrightarrow> x = y"
    using q_places_inj [OF p] by blast
  show at: "\<forall>n < length (q_tasks q). queue_Position (t_ID (q_store q (q_tasks q ! n))) q = int n"
    using position_loop_at [OF dist inj] by (simp add: queue_Position_def)
  have "queue_Position i q = - 1 \<longleftrightarrow> i \<notin> (\<lambda>a. t_ID (q_store q a)) ` set (q_tasks q)" for i
  proof (cases "i \<in> (\<lambda>a. t_ID (q_store q a)) ` set (q_tasks q)")
    case True
    then obtain n where "n < length (q_tasks q)" "i = t_ID (q_store q (q_tasks q ! n))"
      by (auto simp: in_set_conv_nth)
    then show ?thesis using at True by simp
  next
    case False
    then have "\<forall>x \<in> set (q_tasks q). t_ID (q_store q x) \<noteq> i" by blast
    from position_loop_none [OF this] False show ?thesis by (simp add: queue_Position_def)
  qed
  then show "\<forall>i. queue_Position i q = - 1 \<longleftrightarrow> i \<notin> (\<lambda>a. t_ID (q_store q a)) ` set (q_tasks q)" by blast
qed

theorem queue_one_place_witness:
  "queue_Position ''a'' queue3 = 1 \<and> queue_Position ''z'' queue3 = - 1 \<and>
   (\<exists>q'. dq_start 0 9 queue3 = (q', DqTask 1) \<and> queue_Get ''b'' q' = Inr (q_store q' 1))"
proof -
  have legal: "q_legal_run (queue_New ''q'' tasks3) [QEnqueue 1 0, QEnqueue 2 1]"
    by (simp add: queue_New_def queue_Enqueue_def Let_def tasks3_def set_task_def sortLocked_def add_pending_def)
  have run: "queue3 = q_run ''q'' tasks3 [QEnqueue 1 0, QEnqueue 2 1]" by (simp add: queue3_def)
  have deq: "dq_start 0 9 queue3 = (fst (popLocked 9 queue3), DqTask 1)" by (simp add: dq_start_cases queue3)
  have ts: "q_tasks queue3 = [1, 0]" "t_ID (q_store queue3 0) = ''a''" "t_ID (q_store queue3 1) = ''b''"
    by (simp_all add: queue3 tasks3_def)
  note P = queue_one_place [OF legal run, of 0 9, unfolded deq, simplified ts]
  from P have "\<forall>n < length [1, 0 :: addr]. queue_Position (t_ID (q_store queue3 ([1, 0] ! n))) queue3 = int n" by blast
  from this [rule_format, of 1] have "queue_Position ''a'' queue3 = 1" using ts by simp
  moreover have "queue_Position ''z'' queue3 = - 1" using P ts by simp
  ultimately show ?thesis using P deq ts by simp
qed

section \<open>What the queue does with other calls\<close>

text \<open>Requeue of a task that is still pending puts it into the list a second time.\<close>

lemma queue_requeue_duplicates: "q_tasks (fst (queue_Requeue ''a'' queue3)) = [1, 0, 0]"
  by (simp add: queue3 queue_Requeue_def Let_def sortLocked_def set_task_def add_pending_def tasks3_def task_key_def)

text \<open>A task acknowledged while it waits stays listed, and is handed out after its success.\<close>

lemma queue_ack_pending_dispatched:
  "let q = fst (queue_Ack 9 ''b'' StatusSuccess [] queue3)
   in t_Status (q_store q 1) = StatusSuccess \<and> queue_Get ''b'' q = Inl ErrTaskNotFound \<and>
      snd (dq_start 0 10 q) = DqTask 1"
  by (simp add: queue3 queue_Ack_def Let_def set_task_def IsTerminal_def queue_Get_def dq_start_cases)

text \<open>No call touches the counter of running tasks.\<close>

lemma queue_running_zero: "qs_Running (queue_Stats (q_run name store ops)) = 0"
proof -
  have pop: "qs_Running (q_stats (fst (popLocked now q))) = qs_Running (q_stats q)" for now q
    by (simp add: popLocked_def Let_def add_pending_def)
  have loop: "qs_Running (q_stats (fst (dq_loop d now q))) = qs_Running (q_stats q)" for d now q
    using pop [of now q] by (auto simp: dq_loop_def dq_exit_def split: prod.splits)
  have op: "qs_Running (q_stats (q_apply p q)) = qs_Running (q_stats q)" for p q
  proof (cases p)
    case (QDequeue timeout now)
    then show ?thesis using pop loop by (simp add: dq_start_cases)
  next
    case (QWoken fired ctx deadline now)
    then show ?thesis using loop by (auto simp: dq_woken_def split: option.splits)
  qed (auto simp: queue_Enqueue_def queue_Ack_def queue_Requeue_def queue_Cancel_def queue_UpdateProgress_def
      queue_AppendLog_def queue_Close_def Let_def add_pending_def split: option.splits)
  have "qs_Running (q_stats (fold q_apply ops q)) = qs_Running (q_stats q)" for q
    by (induction ops arbitrary: q) (simp_all add: op)
  then show ?thesis by (simp add: q_run_def queue_Stats_def queue_New_def)
qed

text \<open>At a close a call that waits fails although a later call still drains the list.\<close>

lemma queue_close_drain:
  "snd (dq_woken False None 20 9 (queue_Close queue3)) = DqErr ErrQueueClosed \<and>
   snd (dq_start 0 9 (queue_Close queue3)) = DqTask 1"
  by (simp add: queue3 queue_Close_def dq_woken_def dq_loop_def dq_exit_def dq_start_cases)

end
