(* ===== verification/QueueSched.thy ===== *)
theory QueueSched
  imports Queue Float64 "HOL-Library.AList"
begin

text \<open>
  The schedulers of \<open>common/queue\<close>: the order of strategies and the choice of victims (\<open>strategy.go\<close>),
  and the scheduler with a capacity (\<open>capacity_scheduler.go\<close>) over the memory queue of theory Queue.
  The goroutines of the latter (one that takes tasks from the queue, and the workers) and the
  clients of the queue interleave; a step is a critical section, an atomic counter's update or a
  call. A handler may return anything. Callbacks and the waiting on the condition variable are
  left out: a worker moves when its waiting condition is false.
\<close>

section \<open>Strategies\<close>

datatype SchedulingStrategy = StrategyFIFO | StrategyPriority | StrategyWeightedFair | StrategyPreemptive

abbreviation second :: duration where
  "second \<equiv> 1000000000"

definition effectivePriority :: "gotime \<Rightarrow> duration \<Rightarrow> Task \<Rightarrow> int" where
  "effectivePriority now agingThreshold t =
     (if agingThreshold \<le> 0 then t_Priority t
      else let wait = now - t_SubmitTime t in
           if wait \<le> agingThreshold then t_Priority t
           else t_Priority t + (wait - agingThreshold) sdiv agingThreshold)"

text \<open>\<open>Duration.Seconds\<close>: whole seconds and the rest, added as doubles.\<close>

definition Seconds :: "duration \<Rightarrow> float64" where
  "Seconds d = f64 (f64 (of_int (d sdiv second)) + f64 (of_int (d smod second) / of_int second))"

definition weightedFairScore :: "gotime \<Rightarrow> int \<Rightarrow> Task \<Rightarrow> float64" where
  "weightedFairScore now effPriority t =
     f64 (f64 (of_int (effPriority * effPriority)) + f64 (Seconds (now - t_SubmitTime t) * (1 / 2)))"

text \<open>The stable sort of a strategy puts a smaller rank first.\<close>

definition task_rank :: "SchedulingStrategy \<Rightarrow> gotime \<Rightarrow> duration \<Rightarrow> Task \<Rightarrow> float64 \<times> gotime" where
  "task_rank strategy now agingThreshold t =
     (case strategy of
        StrategyFIFO \<Rightarrow> (0, t_SubmitTime t)
      | StrategyPriority \<Rightarrow> (of_int (- effectivePriority now agingThreshold t), t_SubmitTime t)
      | StrategyPreemptive \<Rightarrow> (of_int (- effectivePriority now agingThreshold t), t_SubmitTime t)
      | StrategyWeightedFair \<Rightarrow> (- weightedFairScore now (effectivePriority now agingThreshold t) t, 0))"

definition sortTasks :: "SchedulingStrategy \<Rightarrow> gotime \<Rightarrow> duration \<Rightarrow> (addr \<Rightarrow> Task) \<Rightarrow> addr list \<Rightarrow> addr list" where
  "sortTasks strategy now agingThreshold store ts = sort_key (\<lambda>a. task_rank strategy now agingThreshold (store a)) ts"

definition canPreempt :: "Task \<Rightarrow> Task \<Rightarrow> bool" where
  "canPreempt pending running \<longleftrightarrow> t_Preemptible running \<and> t_Priority pending > t_Priority running"

definition taskWeight :: "Task \<Rightarrow> int" where
  "taskWeight t = (if t_Weight t \<le> 0 then 1 else t_Weight t)"

text \<open>Victims: the lowest priority first, then the latest start; a running task has a start time.\<close>

definition victim_key :: "Task \<Rightarrow> int \<times> gotime" where
  "victim_key t = (t_Priority t, case t_StartedAt t of Some u \<Rightarrow> - u | None \<Rightarrow> 0)"

fun take_victims :: "int \<Rightarrow> int \<Rightarrow> (addr \<Rightarrow> Task) \<Rightarrow> addr list \<Rightarrow> addr list \<times> int" where
  "take_victims needed freed store [] = ([], freed)"
| "take_victims needed freed store (a # as) =
     (if freed \<ge> needed then ([], freed)
      else case take_victims needed (freed + taskWeight (store a)) store as of (vs, f) \<Rightarrow> (a # vs, f))"

definition selectPreemptionVictims :: "(addr \<Rightarrow> Task) \<Rightarrow> Task \<Rightarrow> addr list \<Rightarrow> int \<Rightarrow> addr list \<times> int" where
  "selectPreemptionVictims store pending running neededCapacity =
     (let candidates = sort_key (\<lambda>a. victim_key (store a))
            (filter (\<lambda>a. t_Preemptible (store a) \<and> t_Priority (store a) < t_Priority pending) running)
      in case take_victims neededCapacity 0 store candidates of
           (victims, freed) \<Rightarrow> if freed < neededCapacity then ([], 0) else (victims, freed))"

section \<open>The scheduler's state\<close>

record CapacitySchedulerConfig =
  sc_Capacity :: int
  sc_WorkerCount :: int
  sc_Strategy :: SchedulingStrategy
  sc_AgingThreshold :: duration
  sc_DequeueTimeout :: duration
  sc_EnablePreemption :: bool

record CapacitySchedulerMetrics =
  sm_Dispatched :: nat
  sm_Succeeded :: nat
  sm_Failed :: nat
  sm_Retried :: nat
  sm_Preempted :: nat
  sm_Recovered :: nat
  sm_CapacityFull :: nat

datatype handler_result = HandlerOk | HandlerCanceled string | HandlerErr string

text \<open>
  A worker waits for a task, has marked one as running, runs the handler, has its result, has given
  the weight back, has removed the task from the running ones, or has returned.
\<close>

datatype sched_worker =
    SwLoop | SwStart addr | SwHandler addr | SwDone addr handler_result | SwClean addr handler_result
  | SwResult addr handler_result | SwExit

text \<open>A running task is the pointer and whether its cancel function is set.\<close>

record CapacityScheduler =
  sch_queue :: Queue
  sch_pending :: "addr list"
  sch_running :: "(string \<times> addr \<times> bool) list"
  sch_usedWeight :: int
  sch_activeJobs :: "string set"
  sch_workers :: "sched_worker list"
  sch_stopped :: bool
  sch_crashed :: bool
  sch_metrics :: CapacitySchedulerMetrics

abbreviation sch_task :: "CapacityScheduler \<Rightarrow> addr \<Rightarrow> Task" where
  "sch_task s a \<equiv> q_store (sch_queue s) a"

definition sc_defaults :: "int \<Rightarrow> CapacitySchedulerConfig \<Rightarrow> CapacitySchedulerConfig" where
  "sc_defaults numCPU cfg =
     (let cfg = (if sc_WorkerCount cfg \<le> 0 then cfg\<lparr>sc_WorkerCount := numCPU\<rparr> else cfg);
          cfg = (if sc_AgingThreshold cfg = 0 then cfg\<lparr>sc_AgingThreshold := 30 * second\<rparr> else cfg)
      in if sc_DequeueTimeout cfg \<le> 0 then cfg\<lparr>sc_DequeueTimeout := 500 * 1000000\<rparr> else cfg)"

definition sch_sort :: "CapacitySchedulerConfig \<Rightarrow> gotime \<Rightarrow> CapacityScheduler \<Rightarrow> CapacityScheduler" where
  "sch_sort cfg now s =
     s\<lparr>sch_pending := sortTasks (sc_Strategy cfg) now (sc_AgingThreshold cfg) (q_store (sch_queue s)) (sch_pending s)\<rparr>"

text \<open>\<open>Start\<close>, with the tasks that the backend recovers (the memory queue has none).\<close>

definition sch_Start :: "CapacitySchedulerConfig \<Rightarrow> gotime \<Rightarrow> addr list \<Rightarrow> Queue \<Rightarrow> CapacityScheduler" where
  "sch_Start cfg now recovered q =
     sch_sort cfg now
       \<lparr>sch_queue = q, sch_pending = recovered, sch_running = [], sch_usedWeight = 0, sch_activeJobs = {},
        sch_workers = replicate (nat (sc_WorkerCount cfg)) SwLoop, sch_stopped = False, sch_crashed = False,
        sch_metrics = \<lparr>sm_Dispatched = 0, sm_Succeeded = 0, sm_Failed = 0, sm_Retried = 0, sm_Preempted = 0,
          sm_Recovered = length recovered, sm_CapacityFull = 0\<rparr>\<rparr>"

section \<open>Dispatching\<close>

definition canDispatchLocked :: "CapacitySchedulerConfig \<Rightarrow> CapacityScheduler \<Rightarrow> addr \<Rightarrow> bool" where
  "canDispatchLocked cfg s a \<longleftrightarrow>
     (let t = sch_task s a in
      \<not> (t_JobID t \<noteq> [] \<and> t_JobID t \<in> sch_activeJobs s) \<and>
      (sc_Capacity cfg > 0 \<longrightarrow> sch_usedWeight s + taskWeight t \<le> sc_Capacity cfg))"

definition hasDispatchableLocked :: "CapacitySchedulerConfig \<Rightarrow> CapacityScheduler \<Rightarrow> bool" where
  "hasDispatchableLocked cfg s \<longleftrightarrow> list_ex (canDispatchLocked cfg s) (sch_pending s)"

definition preemptive :: "CapacitySchedulerConfig \<Rightarrow> bool" where
  "preemptive cfg \<longleftrightarrow> sc_EnablePreemption cfg \<and> sc_Strategy cfg = StrategyPreemptive"

definition hasPreemptionOpportunityLocked :: "CapacitySchedulerConfig \<Rightarrow> CapacityScheduler \<Rightarrow> bool" where
  "hasPreemptionOpportunityLocked cfg s \<longleftrightarrow>
     preemptive cfg \<and> sch_pending s \<noteq> [] \<and> sch_running s \<noteq> [] \<and>
     list_ex (\<lambda>t. list_ex (\<lambda>(_, r, _). canPreempt (sch_task s t) (sch_task s r)) (sch_running s)) (sch_pending s)"

definition clear_job :: "addr \<Rightarrow> CapacityScheduler \<Rightarrow> CapacityScheduler" where
  "clear_job a s =
     (if t_JobID (sch_task s a) \<noteq> [] then s\<lparr>sch_activeJobs := sch_activeJobs s - {t_JobID (sch_task s a)}\<rparr> else s)"

definition count_metric :: "(CapacitySchedulerMetrics \<Rightarrow> CapacitySchedulerMetrics) \<Rightarrow> CapacityScheduler \<Rightarrow> CapacityScheduler" where
  "count_metric f s = s\<lparr>sch_metrics := f (sch_metrics s)\<rparr>"

text \<open>One victim; a cancel function that is not set yet makes the call panic.\<close>

definition preempt_victim :: "addr \<Rightarrow> CapacityScheduler \<Rightarrow> CapacityScheduler" where
  "preempt_victim v s =
     (case map_of (sch_running s) (t_ID (sch_task s v)) of
        None \<Rightarrow> s
      | Some (_, cancel) \<Rightarrow>
          if \<not> cancel then s\<lparr>sch_crashed := True\<rparr>
          else (let s = s\<lparr>sch_running := AList.delete (t_ID (sch_task s v)) (sch_running s)\<rparr>;
                    s = clear_job v s;
                    s = s\<lparr>sch_usedWeight := sch_usedWeight s - taskWeight (sch_task s v)\<rparr>;
                    s = count_metric (\<lambda>m. m\<lparr>sm_Preempted := sm_Preempted m + 1\<rparr>) s;
                    t = (sch_task s v)\<lparr>t_Status := StatusPending, t_StartedAt := None\<rparr>
                in s\<lparr>sch_queue := set_task v t (sch_queue s), sch_pending := sch_pending s @ [v]\<rparr>))"

fun preempt_victims :: "addr list \<Rightarrow> CapacityScheduler \<Rightarrow> CapacityScheduler" where
  "preempt_victims [] s = s"
| "preempt_victims (v # vs) s =
     (let s = preempt_victim v s in if sch_crashed s then s else preempt_victims vs s)"

text \<open>\<open>runningList\<close> lists the running tasks in the order in which the code's map yields them.\<close>

definition tryPreemptLocked ::
    "CapacitySchedulerConfig \<Rightarrow> gotime \<Rightarrow> gotime \<Rightarrow> addr list \<Rightarrow> CapacityScheduler \<Rightarrow> CapacityScheduler \<times> addr option" where
  "tryPreemptLocked cfg now now' runningList s =
     (if sch_pending s = [] \<or> sch_running s = [] then (s, None)
      else let s = sch_sort cfg now s; pending = hd (sch_pending s) in
           if canDispatchLocked cfg s pending then (s, None)
           else let needed = taskWeight (sch_task s pending) - (sc_Capacity cfg - sch_usedWeight s) in
                if needed \<le> 0 then (s, None)
                else let victims = fst (selectPreemptionVictims (q_store (sch_queue s)) (sch_task s pending) runningList needed) in
                     if victims = [] then (s, None)
                     else let s = preempt_victims victims s in
                          if sch_crashed s then (s, None)
                          else let s = sch_sort cfg now' s in
                               if canDispatchLocked cfg s pending
                               then (s\<lparr>sch_pending := remove_first (\<lambda>a. t_ID (sch_task s a) = t_ID (sch_task s pending)) (sch_pending s)\<rparr>,
                                     Some pending)
                               else (s, None))"

definition pickDispatchableLocked ::
    "CapacitySchedulerConfig \<Rightarrow> gotime \<Rightarrow> gotime \<Rightarrow> addr list \<Rightarrow> CapacityScheduler \<Rightarrow> CapacityScheduler \<times> addr option" where
  "pickDispatchableLocked cfg now now' runningList s =
     (case find (canDispatchLocked cfg s) (sch_pending s) of
        Some a \<Rightarrow> (s\<lparr>sch_pending := remove_first (canDispatchLocked cfg s) (sch_pending s)\<rparr>, Some a)
      | None \<Rightarrow>
          if preemptive cfg then tryPreemptLocked cfg now now' runningList s
          else (count_metric (\<lambda>m. m\<lparr>sm_CapacityFull := sm_CapacityFull m + 1\<rparr>) s, None))"

definition mark_running :: "gotime \<Rightarrow> addr \<Rightarrow> CapacityScheduler \<Rightarrow> CapacityScheduler" where
  "mark_running now a s =
     (let t = sch_task s a;
          s = s\<lparr>sch_usedWeight := sch_usedWeight s + taskWeight t\<rparr>;
          s = (if t_JobID t \<noteq> [] then s\<lparr>sch_activeJobs := insert (t_JobID t) (sch_activeJobs s)\<rparr> else s);
          s = s\<lparr>sch_queue := set_task a (t\<lparr>t_Status := StatusRunning, t_StartedAt := Some now\<rparr>) (sch_queue s)\<rparr>;
          s = s\<lparr>sch_running := AList.update (t_ID t) (a, False) (sch_running s)\<rparr>
      in count_metric (\<lambda>m. m\<lparr>sm_Dispatched := sm_Dispatched m + 1\<rparr>) s)"

definition set_worker :: "nat \<Rightarrow> sched_worker \<Rightarrow> CapacityScheduler \<Rightarrow> CapacityScheduler" where
  "set_worker i w s = s\<lparr>sch_workers := (sch_workers s)[i := w]\<rparr>"

text \<open>The critical section of \<open>workerLoop\<close>.\<close>

definition worker_pick ::
    "CapacitySchedulerConfig \<Rightarrow> gotime \<Rightarrow> gotime \<Rightarrow> addr list \<Rightarrow> nat \<Rightarrow> CapacityScheduler \<Rightarrow> CapacityScheduler" where
  "worker_pick cfg now now' runningList i s =
     (case pickDispatchableLocked cfg now now' runningList s of
        (s, None) \<Rightarrow> s
      | (s, Some a) \<Rightarrow> set_worker i (SwStart a) (mark_running now' a s))"

section \<open>Executing\<close>

text \<open>\<open>executeTask\<close> in its steps: set the cancel function, give the weight back, clean up, report.\<close>

definition register_cancel :: "addr \<Rightarrow> CapacityScheduler \<Rightarrow> CapacityScheduler" where
  "register_cancel a s =
     (case map_of (sch_running s) (t_ID (sch_task s a)) of
        None \<Rightarrow> s
      | Some (b, _) \<Rightarrow> s\<lparr>sch_running := AList.update (t_ID (sch_task s a)) (b, True) (sch_running s)\<rparr>)"

definition give_weight_back :: "addr \<Rightarrow> CapacityScheduler \<Rightarrow> CapacityScheduler" where
  "give_weight_back a s = s\<lparr>sch_usedWeight := sch_usedWeight s - taskWeight (sch_task s a)\<rparr>"

definition clean_up :: "addr \<Rightarrow> CapacityScheduler \<Rightarrow> CapacityScheduler" where
  "clean_up a s = clear_job a (s\<lparr>sch_running := AList.delete (t_ID (sch_task s a)) (sch_running s)\<rparr>)"

definition handle_result :: "gotime \<Rightarrow> addr \<Rightarrow> handler_result \<Rightarrow> CapacityScheduler \<Rightarrow> CapacityScheduler" where
  "handle_result now a r s =
     (let t = sch_task s a in
      case r of
        HandlerOk \<Rightarrow>
          count_metric (\<lambda>m. m\<lparr>sm_Succeeded := sm_Succeeded m + 1\<rparr>)
            (s\<lparr>sch_queue := fst (queue_Ack now (t_ID t) StatusSuccess [] (sch_queue s))\<rparr>)
      | HandlerCanceled _ \<Rightarrow> s
      | HandlerErr msg \<Rightarrow>
          if sint (t_RetryCount t) < sint (t_MaxRetries t)
          then count_metric (\<lambda>m. m\<lparr>sm_Retried := sm_Retried m + 1\<rparr>)
                 (s\<lparr>sch_queue := fst (queue_Requeue (t_ID t) (sch_queue s))\<rparr>)
          else count_metric (\<lambda>m. m\<lparr>sm_Failed := sm_Failed m + 1\<rparr>)
                 (s\<lparr>sch_queue := fst (queue_Ack now (t_ID t) StatusFailed msg (sch_queue s))\<rparr>))"

text \<open>A task that \<open>ingestLoop\<close> has taken from the queue.\<close>

definition ingest :: "CapacitySchedulerConfig \<Rightarrow> gotime \<Rightarrow> addr \<Rightarrow> CapacityScheduler \<Rightarrow> CapacityScheduler" where
  "ingest cfg now a s = sch_sort cfg now (s\<lparr>sch_pending := sch_pending s @ [a]\<rparr>)"

definition sch_Stop :: "CapacityScheduler \<Rightarrow> CapacityScheduler" where
  "sch_Stop s = s\<lparr>sch_stopped := True\<rparr>"

fun sch_position_loop :: "(addr \<Rightarrow> Task) \<Rightarrow> string \<Rightarrow> addr list \<Rightarrow> int \<Rightarrow> int option" where
  "sch_position_loop store taskID [] i = None"
| "sch_position_loop store taskID (a # as) i =
     (if t_ID (store a) = taskID then Some i else sch_position_loop store taskID as (i + 1))"

definition sch_Position :: "string \<Rightarrow> CapacityScheduler \<Rightarrow> int" where
  "sch_Position taskID s =
     (case sch_position_loop (q_store (sch_queue s)) taskID (sch_pending s) 0 of
        Some i \<Rightarrow> i | None \<Rightarrow> queue_Position taskID (sch_queue s))"

section \<open>Steps\<close>

text \<open>
  The arguments say which calls the clients of the queue make and what handlers return. A \<open>Dequeue\<close>
  of the ingesting goroutine returns a task at once or after a wait; an empty one changes nothing.
\<close>

inductive sched_step ::
    "CapacitySchedulerConfig \<Rightarrow> (CapacityScheduler \<Rightarrow> q_op \<Rightarrow> bool) \<Rightarrow> (handler_result \<Rightarrow> bool) \<Rightarrow>
     CapacityScheduler \<Rightarrow> CapacityScheduler \<Rightarrow> bool" for cfg client handler where
  sched_client: "\<not> sch_crashed s \<Longrightarrow> client s p \<Longrightarrow>
    sched_step cfg client handler s (s\<lparr>sch_queue := q_apply p (sch_queue s)\<rparr>)"
| sched_ingest: "\<not> sch_crashed s \<Longrightarrow>
    dq_start (sc_DequeueTimeout cfg) now (sch_queue s) = (q, DqTask a) \<or> dq_woken fired None deadline now (sch_queue s) = (q, DqTask a) \<Longrightarrow>
    sched_step cfg client handler s (ingest cfg now' a (s\<lparr>sch_queue := q\<rparr>))"
| sched_pick: "\<not> sch_crashed s \<Longrightarrow> i < length (sch_workers s) \<Longrightarrow> sch_workers s ! i = SwLoop \<Longrightarrow> \<not> sch_stopped s \<Longrightarrow>
    hasDispatchableLocked cfg s \<or> hasPreemptionOpportunityLocked cfg s \<Longrightarrow>
    mset runningList = mset (map (\<lambda>(_, a, _). a) (sch_running s)) \<Longrightarrow>
    sched_step cfg client handler s (worker_pick cfg now now' runningList i s)"
| sched_exit: "\<not> sch_crashed s \<Longrightarrow> i < length (sch_workers s) \<Longrightarrow> sch_workers s ! i = SwLoop \<Longrightarrow> sch_stopped s \<Longrightarrow>
    sched_step cfg client handler s (set_worker i SwExit s)"
| sched_start: "\<not> sch_crashed s \<Longrightarrow> i < length (sch_workers s) \<Longrightarrow> sch_workers s ! i = SwStart a \<Longrightarrow>
    sched_step cfg client handler s (set_worker i (SwHandler a) (register_cancel a s))"
| sched_return: "\<not> sch_crashed s \<Longrightarrow> i < length (sch_workers s) \<Longrightarrow> sch_workers s ! i = SwHandler a \<Longrightarrow> handler r \<Longrightarrow>
    sched_step cfg client handler s (set_worker i (SwDone a r) s)"
| sched_weight: "\<not> sch_crashed s \<Longrightarrow> i < length (sch_workers s) \<Longrightarrow> sch_workers s ! i = SwDone a r \<Longrightarrow>
    sched_step cfg client handler s (set_worker i (SwClean a r) (give_weight_back a s))"
| sched_clean: "\<not> sch_crashed s \<Longrightarrow> i < length (sch_workers s) \<Longrightarrow> sch_workers s ! i = SwClean a r \<Longrightarrow>
    sched_step cfg client handler s (set_worker i (SwResult a r) (clean_up a s))"
| sched_result: "\<not> sch_crashed s \<Longrightarrow> i < length (sch_workers s) \<Longrightarrow> sch_workers s ! i = SwResult a r \<Longrightarrow>
    sched_step cfg client handler s (set_worker i SwLoop (handle_result now a r s))"
| sched_stop: "\<not> sch_crashed s \<Longrightarrow> sched_step cfg client handler s (sch_Stop s)"

inductive sched_reach ::
    "CapacitySchedulerConfig \<Rightarrow> (CapacityScheduler \<Rightarrow> q_op \<Rightarrow> bool) \<Rightarrow> (handler_result \<Rightarrow> bool) \<Rightarrow>
     CapacityScheduler \<Rightarrow> CapacityScheduler \<Rightarrow> bool" for cfg client handler s0 where
  sched_refl: "sched_reach cfg client handler s0 s0"
| sched_next: "sched_reach cfg client handler s0 s \<Longrightarrow> sched_step cfg client handler s s' \<Longrightarrow> sched_reach cfg client handler s0 s'"

section \<open>The simple scheduler\<close>

text \<open>
  \<open>scheduler.go\<close>: workers that dequeue a task and execute it, and in the adaptive mode a monitor
  that changes their number. What counts for it are the number it stores and the goroutines there are.
\<close>

datatype SchedulingMode = ModeFixedPool | ModeCPUAdaptive

record SchedulerConfig =
  sd_WorkerCount :: int
  sd_Mode :: SchedulingMode
  sd_MinWorkers :: int
  sd_MaxWorkers :: int
  sd_CPUHighThreshold :: float64
  sd_CPULowThreshold :: float64
  sd_CPUCheckInterval :: duration
  sd_DequeueTimeout :: duration

definition sd_defaults :: "int \<Rightarrow> SchedulerConfig \<Rightarrow> SchedulerConfig" where
  "sd_defaults numCPU cfg =
     (let cfg = (if sd_WorkerCount cfg \<le> 0 then cfg\<lparr>sd_WorkerCount := numCPU\<rparr> else cfg);
          cfg = (if sd_Mode cfg = ModeCPUAdaptive
                 then cfg\<lparr>sd_MinWorkers := (if sd_MinWorkers cfg \<le> 0 then 1 else sd_MinWorkers cfg),
                          sd_MaxWorkers := (if sd_MaxWorkers cfg \<le> 0 then sd_WorkerCount cfg * 4 else sd_MaxWorkers cfg),
                          sd_CPUHighThreshold := (if sd_CPUHighThreshold cfg \<le> 0 then 80 else sd_CPUHighThreshold cfg),
                          sd_CPULowThreshold := (if sd_CPULowThreshold cfg \<le> 0 then 30 else sd_CPULowThreshold cfg),
                          sd_CPUCheckInterval := (if sd_CPUCheckInterval cfg \<le> 0 then 5 * second else sd_CPUCheckInterval cfg)\<rparr>
                 else cfg)
      in if sd_DequeueTimeout cfg \<le> 0 then cfg\<lparr>sd_DequeueTimeout := second\<rparr> else cfg)"

record SchedulerPool =
  sp_workers :: int
  sp_goroutines :: int

definition sp_Start :: "SchedulerConfig \<Rightarrow> SchedulerPool" where
  "sp_Start cfg = \<lparr>sp_workers = sd_WorkerCount cfg, sp_goroutines = sd_WorkerCount cfg\<rparr>"

definition adjustWorkers :: "SchedulerConfig \<Rightarrow> float64 \<Rightarrow> SchedulerPool \<Rightarrow> SchedulerPool" where
  "adjustWorkers cfg cpuPct s =
     (let current = sp_workers s;
          target = (if cpuPct \<ge> sd_CPUHighThreshold cfg then max (current - 1) (sd_MinWorkers cfg)
                    else if cpuPct \<le> sd_CPULowThreshold cfg then min (current + 1) (sd_MaxWorkers cfg)
                    else current)
      in if target = current then s
         else if target > current then s\<lparr>sp_goroutines := sp_goroutines s + (target - current), sp_workers := target\<rparr>
         else s\<lparr>sp_workers := target\<rparr>)"

text \<open>\<open>executeTask\<close>: what the end of a task does to the queue.\<close>

definition simple_executeTask :: "gotime \<Rightarrow> addr \<Rightarrow> handler_result \<Rightarrow> Queue \<Rightarrow> Queue" where
  "simple_executeTask now a r q =
     (let t = q_store q a in
      case r of
        HandlerOk \<Rightarrow> fst (queue_Ack now (t_ID t) StatusSuccess [] q)
      | HandlerCanceled msg \<Rightarrow> fst (queue_Ack now (t_ID t) StatusCanceled msg q)
      | HandlerErr msg \<Rightarrow>
          if sint (t_RetryCount t) < sint (t_MaxRetries t) then fst (queue_Requeue (t_ID t) q)
          else fst (queue_Ack now (t_ID t) StatusFailed msg q))"

end
