(* ===== verification/QueueSchedInv.thy ===== *)
theory QueueSchedInv
  imports QueueSched
begin

text \<open>
  The invariants of the scheduler with a capacity: weights and jobs, one place for every task, and
  the map of running tasks; the choice of victims; and runs, given as lists of moves, in which
  preemption or a cancelled handler break what holds without them.
\<close>

section \<open>What never changes of a task\<close>

definition t_static :: "Task \<Rightarrow> string \<times> string \<times> int \<times> int \<times> bool \<times> int64" where
  "t_static t = (t_ID t, t_JobID t, t_Weight t, t_Priority t, t_Preemptible t, t_MaxRetries t)"

lemma t_static_simps [simp]:
  "t_static (t\<lparr>t_Status := x1\<rparr>) = t_static t" "t_static (t\<lparr>t_Progress := x2\<rparr>) = t_static t"
  "t_static (t\<lparr>t_RetryCount := x3\<rparr>) = t_static t" "t_static (t\<lparr>t_ErrorMsg := x4\<rparr>) = t_static t"
  "t_static (t\<lparr>t_SubmitTime := x5\<rparr>) = t_static t" "t_static (t\<lparr>t_StartedAt := x6\<rparr>) = t_static t"
  "t_static (t\<lparr>t_FinishedAt := x7\<rparr>) = t_static t"
  by (simp_all add: t_static_def)

definition q_static :: "Queue \<Rightarrow> addr \<Rightarrow> string \<times> string \<times> int \<times> int \<times> bool \<times> int64" where
  "q_static q a = t_static (q_store q a)"

lemma q_static_frame [simp]:
  "q_static (add_pending d q) = q_static q" "q_static (sortLocked q) = q_static q" "q_static (q\<lparr>q_stats := st\<rparr>) = q_static q"
  "q_static (q\<lparr>q_byID := m\<rparr>) = q_static q" "q_static (q\<lparr>q_tasks := ts\<rparr>) = q_static q" "q_static (q\<lparr>q_closed := c\<rparr>) = q_static q"
  "q_static (q\<lparr>q_logs := l\<rparr>) = q_static q"
  by (simp_all add: q_static_def fun_eq_iff)

lemma q_static_set_task [simp]: "t_static t = q_static q a \<Longrightarrow> q_static (set_task a t q) = q_static q"
  by (simp add: q_static_def fun_eq_iff)

lemma q_static_pop [simp]: "q_static (fst (popLocked now q)) = q_static q"
  by (simp add: popLocked_def Let_def q_static_def fun_eq_iff)

lemma q_static_dq_exit [simp]: "q_static (fst (dq_exit now q)) = q_static q"
  by (simp add: dq_exit_def case_prod_unfold)

lemma q_static_dq_loop [simp]: "q_static (fst (dq_loop deadline now q)) = q_static q"
  by (simp add: dq_loop_def)

lemma q_static_dq [simp]:
  "q_static (fst (dq_start timeout now q)) = q_static q" "q_static (fst (dq_woken fired c deadline now q)) = q_static q"
  by (simp_all add: dq_start_def dq_woken_def case_prod_unfold split: option.splits)

lemma q_static_ack [simp]: "q_static (fst (queue_Ack now i st m q)) = q_static q"
  by (simp add: queue_Ack_def Let_def q_static_def fun_eq_iff split: option.splits)

lemma q_static_requeue [simp]: "q_static (fst (queue_Requeue i q)) = q_static q"
  by (simp add: queue_Requeue_def Let_def q_static_def fun_eq_iff split: option.splits)

lemma q_static_apply [simp]: "q_static (q_apply p q) = q_static q"
  by (cases p) (simp_all add: queue_Enqueue_def queue_Cancel_def queue_UpdateProgress_def queue_AppendLog_def queue_Close_def
      Let_def q_static_def fun_eq_iff split: option.splits)

lemma q_staticD:
  "q_static q' = q_static q \<Longrightarrow> t_ID (q_store q' a) = t_ID (q_store q a) \<and> t_JobID (q_store q' a) = t_JobID (q_store q a) \<and>
     taskWeight (q_store q' a) = taskWeight (q_store q a)"
  by (drule fun_cong [where x = a]) (simp add: q_static_def t_static_def taskWeight_def)

section \<open>Capacity and jobs\<close>

text \<open>The task a worker counts the weight of, the one whose job it occupies, and the one it holds.\<close>

fun w_weighs :: "sched_worker \<Rightarrow> addr list" where
  "w_weighs (SwStart a) = [a]"
| "w_weighs (SwHandler a) = [a]"
| "w_weighs (SwDone a _) = [a]"
| "w_weighs _ = []"

fun w_active :: "sched_worker \<Rightarrow> addr list" where
  "w_active (SwClean a _) = [a]"
| "w_active w = w_weighs w"

fun w_held :: "sched_worker \<Rightarrow> addr list" where
  "w_held (SwResult a _) = [a]"
| "w_held w = w_active w"

definition sch_weighs :: "CapacityScheduler \<Rightarrow> addr list" where
  "sch_weighs s = concat (map w_weighs (sch_workers s))"

definition sch_active :: "CapacityScheduler \<Rightarrow> addr list" where
  "sch_active s = concat (map w_active (sch_workers s))"

definition sch_held :: "CapacityScheduler \<Rightarrow> addr list" where
  "sch_held s = concat (map w_held (sch_workers s))"

definition job_of :: "CapacityScheduler \<Rightarrow> addr \<Rightarrow> string" where
  "job_of s a = t_JobID (sch_task s a)"

definition sch_jobs :: "CapacityScheduler \<Rightarrow> string list" where
  "sch_jobs s = filter (\<lambda>j. j \<noteq> []) (map (job_of s) (sch_active s))"

definition capacity_inv :: "CapacitySchedulerConfig \<Rightarrow> CapacityScheduler \<Rightarrow> bool" where
  "capacity_inv cfg s \<longleftrightarrow>
     sch_usedWeight s = (\<Sum>a\<leftarrow>sch_weighs s. taskWeight (sch_task s a)) \<and>
     (sc_Capacity cfg > 0 \<longrightarrow> sch_usedWeight s \<le> sc_Capacity cfg) \<and>
     distinct (sch_jobs s) \<and> set (sch_jobs s) = sch_activeJobs s"

lemma worker_split:
  assumes "i < length ws" "ws ! i = w"
  obtains us vs where "ws = us @ w # vs" "\<And>w'. ws[i := w'] = us @ w' # vs"
proof -
  have "ws = take i ws @ w # drop (Suc i) ws" using assms id_take_nth_drop by metis
  moreover have "ws[i := w'] = take i ws @ w' # drop (Suc i) ws" for w' using assms(1) by (rule upd_conv_take_nth_drop)
  ultimately show thesis by (rule that)
qed

text \<open>Two states in which tasks have the same weights and jobs.\<close>

definition same_tasks :: "CapacityScheduler \<Rightarrow> CapacityScheduler \<Rightarrow> bool" where
  "same_tasks s s' \<longleftrightarrow> q_static (sch_queue s') = q_static (sch_queue s)"

lemma same_tasksD:
  assumes "same_tasks s s'"
  shows "taskWeight (sch_task s' a) = taskWeight (sch_task s a)" "job_of s' a = job_of s a" "t_ID (sch_task s' a) = t_ID (sch_task s a)"
  using q_staticD [OF assms [unfolded same_tasks_def], of a] by (simp_all add: job_of_def)

lemma capacity_frame:
  assumes "capacity_inv cfg s" "same_tasks s s'" "sch_workers s' = sch_workers s" "sch_usedWeight s' = sch_usedWeight s"
    "sch_activeJobs s' = sch_activeJobs s"
  shows "capacity_inv cfg s'"
proof -
  have "sch_jobs s' = sch_jobs s"
    using assms(3) same_tasksD(2) [OF assms(2)] by (simp add: sch_jobs_def sch_active_def cong: map_cong)
  then show ?thesis
    using assms(1,3-5) same_tasksD(1) [OF assms(2)] unfolding capacity_inv_def sch_weighs_def by auto
qed

lemma find_pending:
  assumes "find P xs = Some a"
  shows "P a" "a \<in> set xs"
  using assms by (auto simp: find_Some_iff)

lemma capacity_dispatch:
  assumes inv: "capacity_inv cfg s" and i: "i < length (sch_workers s)" "sch_workers s ! i = SwLoop" and can: "canDispatchLocked cfg s a"
  shows "capacity_inv cfg (set_worker i (SwStart a) (mark_running now a (s\<lparr>sch_pending := ps\<rparr>)))"
proof -
  obtain us vs where w: "sch_workers s = us @ SwLoop # vs" "\<And>w'. (sch_workers s)[i := w'] = us @ w' # vs"
    by (rule worker_split [OF i]) blast
  define s1 where "s1 = set_worker i (SwStart a) (mark_running now a (s\<lparr>sch_pending := ps\<rparr>))"
  have st: "same_tasks s s1"
    by (simp add: s1_def same_tasks_def set_worker_def mark_running_def Let_def count_metric_def q_static_def [symmetric])
  have f: "sch_workers s1 = us @ SwStart a # vs" "sch_usedWeight s1 = sch_usedWeight s + taskWeight (sch_task s a)"
    "sch_activeJobs s1 = (if job_of s a \<noteq> [] then insert (job_of s a) (sch_activeJobs s) else sch_activeJobs s)"
    by (simp_all add: s1_def set_worker_def mark_running_def Let_def count_metric_def w(2) job_of_def)
  have wt: "sch_weighs s1 = concat (map w_weighs us) @ a # concat (map w_weighs vs)"
    "sch_active s1 = concat (map w_active us) @ a # concat (map w_active vs)" by (simp_all add: sch_weighs_def sch_active_def f)
  have ws: "sch_weighs s = concat (map w_weighs us) @ concat (map w_weighs vs)"
    "sch_active s = concat (map w_active us) @ concat (map w_active vs)" by (simp_all add: sch_weighs_def sch_active_def w(1))
  have new: "job_of s a \<noteq> [] \<Longrightarrow> job_of s a \<notin> set (sch_jobs s)"
    using inv can by (simp add: capacity_inv_def canDispatchLocked_def Let_def job_of_def)
  have jb: "job_of s1 = job_of s" using same_tasksD(2) [OF st] by (simp add: fun_eq_iff)
  define xs ys where "xs = filter (\<lambda>j. j \<noteq> []) (map (job_of s) (concat (map w_active us)))"
    and "ys = filter (\<lambda>j. j \<noteq> []) (map (job_of s) (concat (map w_active vs)))"
  have jobs: "sch_jobs s = xs @ ys" "sch_jobs s1 = xs @ (if job_of s a = [] then [] else [job_of s a]) @ ys"
    by (simp_all add: sch_jobs_def wt ws jb xs_def ys_def)
  have "distinct (xs @ ys)" "set (xs @ ys) = sch_activeJobs s" using inv jobs(1) by (simp_all add: capacity_inv_def)
  then have "distinct (sch_jobs s1) \<and> set (sch_jobs s1) = sch_activeJobs s1"
    using new unfolding jobs f by auto
  moreover have "sch_usedWeight s1 = (\<Sum>a\<leftarrow>sch_weighs s1. taskWeight (sch_task s1 a))"
    using inv same_tasksD(1) [OF st] unfolding capacity_inv_def wt ws f by simp
  moreover have "sc_Capacity cfg > 0 \<longrightarrow> sch_usedWeight s1 \<le> sc_Capacity cfg"
    using can unfolding f canDispatchLocked_def Let_def by blast
  ultimately show ?thesis by (simp add: capacity_inv_def s1_def [symmetric])
qed

text \<open>A worker goes on without a change of its task's weight and job.\<close>

lemma capacity_move:
  assumes inv: "capacity_inv cfg s" and i: "i < length (sch_workers s)" "sch_workers s ! i = w"
    and w: "w_weighs w' = w_weighs w" "w_active w' = w_active w"
  shows "capacity_inv cfg (set_worker i w' s)"
proof -
  obtain us vs where ws: "sch_workers s = us @ w # vs" "\<And>w'. (sch_workers s)[i := w'] = us @ w' # vs"
    by (rule worker_split [OF i]) blast
  have n: "sch_workers (set_worker i w' s) = us @ w' # vs" by (simp add: set_worker_def ws(2))
  have "sch_weighs (set_worker i w' s) = sch_weighs s" "sch_active (set_worker i w' s) = sch_active s"
    unfolding sch_weighs_def sch_active_def n ws(1) by (simp_all add: w)
  moreover have "job_of (set_worker i w' s) = job_of s" by (simp add: job_of_def set_worker_def fun_eq_iff)
  moreover have "sch_usedWeight (set_worker i w' s) = sch_usedWeight s" "sch_activeJobs (set_worker i w' s) = sch_activeJobs s"
    "sch_queue (set_worker i w' s) = sch_queue s" by (simp_all add: set_worker_def)
  ultimately show ?thesis using inv unfolding capacity_inv_def sch_jobs_def by auto
qed

lemma taskWeight_pos: "0 < taskWeight t"
  by (simp add: taskWeight_def)

lemma capacity_weight_back:
  assumes inv: "capacity_inv cfg s" and i: "i < length (sch_workers s)" "sch_workers s ! i = SwDone a r"
  shows "capacity_inv cfg (set_worker i (SwClean a r) (give_weight_back a s))"
proof -
  obtain us vs where ws: "sch_workers s = us @ SwDone a r # vs" "\<And>w'. (sch_workers s)[i := w'] = us @ w' # vs"
    by (rule worker_split [OF i]) blast
  have n: "sch_workers (set_worker i (SwClean a r) (give_weight_back a s)) = us @ SwClean a r # vs"
    by (simp add: set_worker_def give_weight_back_def ws(2))
  have "sch_active (set_worker i (SwClean a r) (give_weight_back a s)) = sch_active s"
    unfolding sch_active_def n ws(1) by simp
  moreover have "sch_weighs s = concat (map w_weighs us) @ a # concat (map w_weighs vs)"
    "sch_weighs (set_worker i (SwClean a r) (give_weight_back a s)) = concat (map w_weighs us) @ concat (map w_weighs vs)"
    unfolding sch_weighs_def n ws(1) by simp_all
  moreover have "job_of (set_worker i (SwClean a r) (give_weight_back a s)) = job_of s"
    by (simp add: job_of_def set_worker_def give_weight_back_def fun_eq_iff)
  moreover have "sch_usedWeight (set_worker i (SwClean a r) (give_weight_back a s)) = sch_usedWeight s - taskWeight (sch_task s a)"
    "sch_activeJobs (set_worker i (SwClean a r) (give_weight_back a s)) = sch_activeJobs s"
    "sch_queue (set_worker i (SwClean a r) (give_weight_back a s)) = sch_queue s"
    by (simp_all add: set_worker_def give_weight_back_def)
  ultimately show ?thesis
    using inv taskWeight_pos [of "sch_task s a"] unfolding capacity_inv_def sch_jobs_def by auto
qed

lemma capacity_clean_up:
  assumes inv: "capacity_inv cfg s" and i: "i < length (sch_workers s)" "sch_workers s ! i = SwClean a r"
  shows "capacity_inv cfg (set_worker i (SwResult a r) (clean_up a s))"
proof -
  let ?s = "set_worker i (SwResult a r) (clean_up a s)"
  obtain us vs where ws: "sch_workers s = us @ SwClean a r # vs" "\<And>w'. (sch_workers s)[i := w'] = us @ w' # vs"
    by (rule worker_split [OF i]) blast
  have f: "sch_workers ?s = us @ SwResult a r # vs" "sch_usedWeight ?s = sch_usedWeight s" "sch_queue ?s = sch_queue s"
    "sch_activeJobs ?s = (if job_of s a \<noteq> [] then sch_activeJobs s - {job_of s a} else sch_activeJobs s)"
    by (simp_all add: set_worker_def clean_up_def clear_job_def job_of_def ws(2))
  have wt: "sch_weighs ?s = sch_weighs s" unfolding sch_weighs_def f ws(1) by simp
  have ac: "sch_active s = concat (map w_active us) @ a # concat (map w_active vs)"
    "sch_active ?s = concat (map w_active us) @ concat (map w_active vs)" unfolding sch_active_def f ws(1) by simp_all
  have jb: "job_of ?s = job_of s" by (simp add: job_of_def f fun_eq_iff)
  have "distinct (sch_jobs ?s) \<and> set (sch_jobs ?s) = sch_activeJobs ?s"
  proof (cases "job_of s a = []")
    case True
    then have "sch_jobs ?s = sch_jobs s" by (simp add: sch_jobs_def ac jb)
    then show ?thesis using inv f True by (simp add: capacity_inv_def)
  next
    case False
    define xs ys where "xs = filter (\<lambda>j. j \<noteq> []) (map (job_of s) (concat (map w_active us)))"
      and "ys = filter (\<lambda>j. j \<noteq> []) (map (job_of s) (concat (map w_active vs)))"
    have "sch_jobs s = xs @ job_of s a # ys" "sch_jobs ?s = xs @ ys"
      using False by (simp_all add: sch_jobs_def ac jb xs_def ys_def)
    then show ?thesis using inv False by (auto simp: capacity_inv_def f)
  qed
  then show ?thesis using inv unfolding capacity_inv_def f wt by auto
qed

lemma same_tasks_result: "same_tasks s (handle_result now a r s)"
  by (auto simp: same_tasks_def handle_result_def count_metric_def Let_def split: handler_result.splits)

lemma handle_result_frame [simp]:
  "sch_workers (handle_result now a r s) = sch_workers s" "sch_usedWeight (handle_result now a r s) = sch_usedWeight s"
  "sch_activeJobs (handle_result now a r s) = sch_activeJobs s" "sch_pending (handle_result now a r s) = sch_pending s"
  "sch_running (handle_result now a r s) = sch_running s" "sch_crashed (handle_result now a r s) = sch_crashed s"
  by (auto simp: handle_result_def count_metric_def Let_def split: handler_result.splits)

lemma register_cancel_frame [simp]:
  "sch_workers (register_cancel a s) = sch_workers s" "sch_usedWeight (register_cancel a s) = sch_usedWeight s"
  "sch_activeJobs (register_cancel a s) = sch_activeJobs s" "sch_pending (register_cancel a s) = sch_pending s"
  "sch_queue (register_cancel a s) = sch_queue s" "sch_crashed (register_cancel a s) = sch_crashed s"
  by (auto simp: register_cancel_def split: option.splits)

lemma capacity_step:
  assumes "sched_step cfg client handler s s'" "capacity_inv cfg s" "\<not> preemptive cfg"
  shows "capacity_inv cfg s'"
  using assms
proof cases
  case (sched_ingest now q a fired deadline now')
  then have "q_static q = q_static (sch_queue s)"
    using q_static_dq(1) [of "sc_DequeueTimeout cfg" now "sch_queue s"] q_static_dq(2) [of fired None deadline now "sch_queue s"]
    by (metis fst_conv)
  then show ?thesis
    using assms(2) sched_ingest(1)
    by (auto intro!: capacity_frame [of cfg s] simp: ingest_def sch_sort_def same_tasks_def)
next
  case (sched_pick i runningList now now')
  show ?thesis
  proof (cases "find (canDispatchLocked cfg s) (sch_pending s)")
    case None
    then show ?thesis
      using sched_pick(1) assms(2,3)
      by (auto intro!: capacity_frame [of cfg s] simp: worker_pick_def pickDispatchableLocked_def count_metric_def same_tasks_def)
  next
    case (Some a)
    then show ?thesis
      using sched_pick capacity_dispatch [OF assms(2) _ _ find_pending(1) [OF Some]]
      by (simp add: worker_pick_def pickDispatchableLocked_def)
  qed
next
  case (sched_start i a)
  have "capacity_inv cfg (register_cancel a s)"
    by (rule capacity_frame [OF assms(2)]) (simp_all add: same_tasks_def)
  then show ?thesis using sched_start by (auto intro!: capacity_move)
next
  case (sched_result i a r now)
  have "capacity_inv cfg (handle_result now a r s)"
    by (rule capacity_frame [OF assms(2) same_tasks_result]) simp_all
  then show ?thesis using sched_result by (auto intro!: capacity_move)
next
  case (sched_exit i)
  then show ?thesis using capacity_move [OF assms(2) sched_exit(3,4), of SwExit] by simp
next
  case (sched_return i a r)
  then show ?thesis using capacity_move [OF assms(2) sched_return(3,4), of "SwDone a r"] by simp
next
  case (sched_weight i a r)
  then show ?thesis using capacity_weight_back [OF assms(2)] by simp
next
  case (sched_clean i a r)
  then show ?thesis using capacity_clean_up [OF assms(2)] by simp
qed (auto intro!: capacity_frame [OF assms(2)] simp: sch_Stop_def same_tasks_def)

lemma capacity_start: "capacity_inv cfg (sch_Start cfg now recovered q)"
  by (simp add: capacity_inv_def sch_Start_def sch_sort_def sch_weighs_def sch_jobs_def sch_active_def)

text \<open>The number of workers never changes; without preemption no cancel function is called.\<close>

definition workers_inv :: "CapacitySchedulerConfig \<Rightarrow> CapacityScheduler \<Rightarrow> bool" where
  "workers_inv cfg s \<longleftrightarrow> length (sch_workers s) = nat (sc_WorkerCount cfg) \<and> \<not> sch_crashed s"

lemma workers_step:
  assumes "sched_step cfg client handler s s'" "workers_inv cfg s" "\<not> preemptive cfg"
  shows "workers_inv cfg s'"
  using assms
proof cases
  case (sched_pick i runningList now now')
  then show ?thesis
    using assms(2,3) by (auto simp: workers_inv_def worker_pick_def pickDispatchableLocked_def count_metric_def set_worker_def
        mark_running_def Let_def split: option.splits)
qed (auto simp: workers_inv_def ingest_def sch_sort_def set_worker_def give_weight_back_def clean_up_def clear_job_def sch_Stop_def)

section \<open>One place for each task\<close>

text \<open>\<open>xs\<close> are the tasks that were dequeued from q and not given back; the others are listed or unknown.\<close>

definition place_on :: "Queue \<Rightarrow> addr list \<Rightarrow> bool" where
  "place_on q xs \<longleftrightarrow> q_places q \<and> distinct xs \<and>
     (\<forall>a \<in> set xs. q_byID q (t_ID (q_store q a)) = Some a \<and> t_Status (q_store q a) \<noteq> StatusPending) \<and>
     (\<forall>i a. q_byID q i = Some a \<longrightarrow> a \<in> set (q_tasks q) \<union> set xs)"

lemma place_on_perm: "mset xs = mset ys \<Longrightarrow> place_on q xs = place_on q ys"
  unfolding place_on_def by (metis mset_eq_imp_distinct_iff set_mset_mset)

lemma place_onD:
  assumes "place_on q xs" "a \<in> set xs"
  shows "q_byID q (t_ID (q_store q a)) = Some a" "t_Status (q_store q a) \<noteq> StatusPending" "a \<notin> set (q_tasks q)"
proof -
  show 1: "q_byID q (t_ID (q_store q a)) = Some a" "t_Status (q_store q a) \<noteq> StatusPending"
    using assms unfolding place_on_def by blast+
  show "a \<notin> set (q_tasks q)" using assms(1) 1 unfolding place_on_def q_places_def by blast
qed

lemma place_on_inj: "place_on q xs \<Longrightarrow> a \<in> set xs \<Longrightarrow> b \<in> set xs \<Longrightarrow> t_ID (q_store q a) = t_ID (q_store q b) \<Longrightarrow> a = b"
  using place_onD(1) by (metis option.inject)

text \<open>The clients enqueue new tasks, read and write progress and logs, and leave the rest to the scheduler.\<close>

fun submitting :: "CapacityScheduler \<Rightarrow> q_op \<Rightarrow> bool" where
  "submitting s (QEnqueue now a) \<longleftrightarrow> q_byID (sch_queue s) (t_ID (sch_task s a)) \<noteq> Some a"
| "submitting s (QProgress i p) \<longleftrightarrow> True"
| "submitting s (QLog now e) \<longleftrightarrow> True"
| "submitting s QClose \<longleftrightarrow> True"
| "submitting s _ \<longleftrightarrow> False"

lemma enqueue_effect:
  assumes "queue_Enqueue now a q = (q', e)"
  shows "q' = q \<or> (q_byID q (t_ID (q_store q a)) = None \<and> q_byID q' = (q_byID q)(t_ID (q_store q a) \<mapsto> a) \<and>
    set (q_tasks q') = insert a (set (q_tasks q)) \<and> (\<forall>b. b \<noteq> a \<longrightarrow> q_store q' b = q_store q b))"
  using assms by (auto simp: queue_Enqueue_def Let_def split: if_splits)

lemma place_on_enqueue:
  assumes p: "place_on q xs" and new: "q_byID q (t_ID (q_store q a)) \<noteq> Some a"
  shows "place_on (fst (queue_Enqueue now a q)) xs"
proof -
  obtain q' e where e: "queue_Enqueue now a q = (q', e)" by fastforce
  have qp: "q_places q'" using q_places_enqueue [OF _ new, of now] p e by (simp add: place_on_def)
  from enqueue_effect [OF e] have "place_on q' xs"
  proof
    assume eff: "q_byID q (t_ID (q_store q a)) = None \<and> q_byID q' = (q_byID q)(t_ID (q_store q a) \<mapsto> a) \<and>
      set (q_tasks q') = insert a (set (q_tasks q)) \<and> (\<forall>b. b \<noteq> a \<longrightarrow> q_store q' b = q_store q b)"
    have "b \<noteq> a \<and> t_ID (q_store q b) \<noteq> t_ID (q_store q a)" if "b \<in> set xs" for b
      using place_onD(1) [OF p that] new eff by (metis option.distinct(1))
    then show ?thesis using p qp eff unfolding place_on_def by auto
  qed (use p in simp)
  then show ?thesis by (simp add: e)
qed

lemma place_on_client:
  assumes p: "place_on (sch_queue s) xs" and c: "submitting s c"
  shows "place_on (q_apply c (sch_queue s)) xs"
proof (cases c)
  case (QEnqueue now a)
  then show ?thesis using place_on_enqueue [OF p] c by simp
next
  case (QProgress i x)
  have "q_places (q_apply c (sch_queue s))" using q_places_progress p QProgress by (simp add: place_on_def)
  then show ?thesis
    using p QProgress unfolding place_on_def
    by (auto simp: queue_UpdateProgress_def Let_def split: option.splits)
qed (use p c in \<open>auto simp: place_on_def queue_AppendLog_def queue_Close_def Let_def q_places_frame\<close>)

lemma dq_task:
  assumes "dq_start timeout now q = (q', DqTask a) \<or> dq_woken fired None deadline now q = (q', DqTask a)"
  shows "q_tasks q \<noteq> []" "q' = fst (popLocked now q)" "a = hd (q_tasks q)"
  using assms by (auto simp: dq_start_def dq_woken_def dq_loop_def dq_exit_def popLocked_def Let_def split: if_splits)

lemma place_on_pop:
  assumes p: "place_on q xs" and q: "q_tasks q \<noteq> []"
  shows "place_on (fst (popLocked now q)) (xs @ [hd (q_tasks q)])"
proof -
  obtain a ts where ts: "q_tasks q = a # ts" using q by (cases "q_tasks q") auto
  have a: "q_byID q (t_ID (q_store q a)) = Some a" "a \<notin> set xs"
    using p ts place_onD(3) [OF p, of a] by (auto simp: place_on_def q_places_def)
  have "q_places (fst (popLocked now q))" using q_places_pop [OF _ q] p by (simp add: place_on_def)
  moreover have "distinct (xs @ [a])" using p a(2) by (simp add: place_on_def)
  moreover have "\<forall>b \<in> set xs. q_store (fst (popLocked now q)) b = q_store q b"
    using a(2) by (auto simp: popLocked_simps ts)
  moreover have "t_Status (q_store (fst (popLocked now q)) a) = StatusRunning" "t_ID (q_store (fst (popLocked now q)) a) = t_ID (q_store q a)"
    by (simp_all add: popLocked_simps ts)
  ultimately show ?thesis
    using p a unfolding place_on_def popLocked_simps(1,2) ts by (auto split: if_splits)
qed

lemma place_on_mark:
  assumes p: "place_on q xs" and a: "a \<in> set xs" and t: "t_ID t = t_ID (q_store q a)" "t_Status t \<noteq> StatusPending"
  shows "place_on (set_task a t q) xs"
proof -
  note d = place_onD [OF p a]
  have qp: "q_places q" and dt: "distinct (q_tasks q)" using p by (simp_all add: place_on_def q_places_def)
  have "q_places (set_task a t q)"
    by (rule q_places_update [OF qp d(1), where t = t and known = True]) (use d t dt in simp_all)
  moreover have "t_ID (q_store (set_task a t q) b) = t_ID (q_store q b)" for b using t(1) by simp
  moreover have "t_Status (q_store (set_task a t q) b) \<noteq> StatusPending" if "b \<in> set xs" for b
    using t(2) place_onD(2) [OF p that] by simp
  ultimately show ?thesis using p unfolding place_on_def by (simp only: q_simps) blast
qed

text \<open>The end of a task: it goes back to the list or is forgotten.\<close>

lemma place_on_leave:
  assumes p: "place_on q (us @ a # vs)" and qp: "q_places q'"
    and oth: "\<forall>b. b \<noteq> a \<longrightarrow> q_store q' b = q_store q b"
    and kn: "q_byID q' = (q_byID q)(t_ID (q_store q a) := None) \<and> set (q_tasks q') = set (q_tasks q) \<or>
      q_byID q' = q_byID q \<and> set (q_tasks q') = insert a (set (q_tasks q))"
  shows "place_on q' (us @ vs)"
proof -
  have na: "a \<notin> set (us @ vs)" and d: "distinct (us @ vs)" using p by (auto simp: place_on_def)
  have 1: "q_byID q' (t_ID (q_store q' b)) = Some b \<and> t_Status (q_store q' b) \<noteq> StatusPending" if "b \<in> set (us @ vs)" for b
  proof -
    have b: "b \<noteq> a" "b \<in> set (us @ a # vs)" using na that by auto
    then have "t_ID (q_store q b) \<noteq> t_ID (q_store q a)" using place_on_inj [OF p, of b a] by auto
    then show ?thesis using place_onD(1,2) [OF p b(2)] oth b(1) kn by auto
  qed
  have 2: "b \<in> set (q_tasks q') \<union> set (us @ vs)" if "q_byID q' j = Some b" for j b
  proof -
    have j: "q_byID q j = Some b" using that kn by (auto split: if_splits)
    then have "b \<in> set (q_tasks q) \<union> set (us @ a # vs)" "j = t_ID (q_store q b)"
      using p unfolding place_on_def q_places_def by blast+
    then show ?thesis using kn that by auto
  qed
  show ?thesis using qp d 1 2 unfolding place_on_def by blast
qed

lemma place_on_ack:
  assumes p: "place_on q (us @ a # vs)" and st: "IsTerminal st"
  shows "place_on (fst (queue_Ack now (t_ID (q_store q a)) st m q)) (us @ vs)"
proof (rule place_on_leave [OF p])
  note d = place_onD [OF p, of a, simplified]
  have "dispatched q (t_ID (q_store q a))" using d by (simp add: dispatched_def)
  moreover have "st \<noteq> StatusPending" using st by (auto simp: IsTerminal_def)
  ultimately show "q_places (fst (queue_Ack now (t_ID (q_store q a)) st m q))"
    using q_places_ack p unfolding place_on_def by blast
qed (use place_onD [OF p, of a] st in \<open>simp_all add: queue_Ack_def Let_def\<close>)

lemma place_on_requeue:
  assumes p: "place_on q (us @ a # vs)"
  shows "place_on (fst (queue_Requeue (t_ID (q_store q a)) q)) (us @ vs)"
proof (rule place_on_leave [OF p])
  note d = place_onD [OF p, of a, simplified]
  have "dispatched q (t_ID (q_store q a))" using d by (simp add: dispatched_def)
  then show "q_places (fst (queue_Requeue (t_ID (q_store q a)) q))"
    using q_places_requeue p unfolding place_on_def by blast
qed (use place_onD [OF p, of a] in \<open>auto simp: queue_Requeue_def Let_def\<close>)

text \<open>The simple scheduler gives every task it has dequeued back or ends it, whatever its handler returns.\<close>

lemma simple_executeTask_leaves:
  "place_on q (us @ a # vs) \<Longrightarrow> place_on (simple_executeTask now a r q) (us @ vs)"
  using place_on_ack place_on_requeue
  by (auto simp: simple_executeTask_def Let_def IsTerminal_def split: handler_result.split)

text \<open>What the scheduler has taken from the queue: its pending list, and what its workers hold.\<close>

definition sch_taken :: "CapacityScheduler \<Rightarrow> addr list" where
  "sch_taken s = sch_pending s @ sch_held s"

definition place_inv :: "CapacityScheduler \<Rightarrow> bool" where
  "place_inv s \<longleftrightarrow> place_on (sch_queue s) (sch_taken s)"

lemma find_remove_first:
  assumes "find P xs = Some a"
  obtains us vs where "xs = us @ a # vs" "remove_first P xs = us @ vs"
  using assms
proof (induction xs arbitrary: thesis)
  case (Cons x xs)
  show ?case
  proof (cases "P x")
    case True
    then show ?thesis using Cons.prems(1) [of "[]" xs] Cons.prems(2) by simp
  next
    case False
    then obtain us vs where "xs = us @ a # vs" "remove_first P xs = us @ vs" using Cons.IH Cons.prems(2) by auto
    then show ?thesis using Cons.prems(1) [of "x # us" vs] False by simp
  qed
qed simp

lemma place_move:
  assumes inv: "place_inv s" and i: "i < length (sch_workers s)" "sch_workers s ! i = w" and w: "w_held w' = w_held w"
    and s': "sch_queue s' = sch_queue s" "sch_pending s' = sch_pending s" "sch_workers s' = sch_workers s"
  shows "place_inv (set_worker i w' s')"
proof -
  obtain us vs where ws: "sch_workers s = us @ w # vs" "\<And>w'. (sch_workers s)[i := w'] = us @ w' # vs"
    by (rule worker_split [OF i]) blast
  have n: "sch_workers (set_worker i w' s') = us @ w' # vs" by (simp add: set_worker_def s' ws(2))
  have "sch_held (set_worker i w' s') = sch_held s" unfolding sch_held_def n ws(1) by (simp add: w)
  then show ?thesis using inv s' by (simp add: place_inv_def sch_taken_def set_worker_def)
qed

lemma place_pick:
  assumes inv: "place_inv s" and i: "i < length (sch_workers s)" "sch_workers s ! i = SwLoop" and np: "\<not> preemptive cfg"
  shows "place_inv (worker_pick cfg now now' rl i s)"
proof (cases "find (canDispatchLocked cfg s) (sch_pending s)")
  case None
  then show ?thesis
    using inv np by (simp add: worker_pick_def pickDispatchableLocked_def count_metric_def place_inv_def sch_taken_def sch_held_def)
next
  case (Some a)
  obtain us vs where p: "sch_pending s = us @ a # vs" "remove_first (canDispatchLocked cfg s) (sch_pending s) = us @ vs"
    by (rule find_remove_first [OF Some]) blast
  obtain us' vs' where w: "sch_workers s = us' @ SwLoop # vs'" "\<And>w'. (sch_workers s)[i := w'] = us' @ w' # vs'"
    by (rule worker_split [OF i]) blast
  define s1 where "s1 = worker_pick cfg now now' rl i s"
  have f: "sch_pending s1 = us @ vs" "sch_workers s1 = us' @ SwStart a # vs'"
    "sch_queue s1 = set_task a ((sch_task s a)\<lparr>t_Status := StatusRunning, t_StartedAt := Some now'\<rparr>) (sch_queue s)"
    by (simp_all add: s1_def worker_pick_def pickDispatchableLocked_def Some p(2) set_worker_def mark_running_def Let_def count_metric_def w(2))
  have "mset (sch_taken s1) = mset (sch_taken s)"
    unfolding sch_taken_def sch_held_def f w(1) p(1) by simp
  moreover have "place_on (sch_queue s1) (sch_taken s)"
    unfolding f by (rule place_on_mark) (use inv in \<open>simp_all add: place_inv_def sch_taken_def p(1)\<close>)
  ultimately show ?thesis unfolding s1_def [symmetric] place_inv_def using place_on_perm by blast
qed

definition no_cancel :: "handler_result \<Rightarrow> bool" where
  "no_cancel r \<longleftrightarrow> (case r of HandlerCanceled _ \<Rightarrow> False | _ \<Rightarrow> True)"

lemma place_result:
  assumes inv: "place_inv s" and i: "i < length (sch_workers s)" "sch_workers s ! i = SwResult a r" and r: "no_cancel r"
  shows "place_inv (set_worker i SwLoop (handle_result now a r s))"
proof -
  obtain us vs where ws: "sch_workers s = us @ SwResult a r # vs" "\<And>w'. (sch_workers s)[i := w'] = us @ w' # vs"
    by (rule worker_split [OF i]) blast
  define s1 where "s1 = set_worker i SwLoop (handle_result now a r s)"
  define xs ys where "xs = sch_pending s @ concat (map w_held us)" and "ys = concat (map w_held vs)"
  have "sch_taken s = xs @ a # ys" by (simp add: sch_taken_def sch_held_def ws(1) xs_def ys_def)
  with inv have p: "place_on (sch_queue s) (xs @ a # ys)" by (simp add: place_inv_def)
  have "sch_workers s1 = us @ SwLoop # vs" "sch_pending s1 = sch_pending s" "sch_queue s1 = sch_queue (handle_result now a r s)"
    by (simp_all add: s1_def set_worker_def ws(2))
  then have t: "sch_taken s1 = xs @ ys" "sch_queue s1 = sch_queue (handle_result now a r s)"
    by (simp_all add: sch_taken_def sch_held_def xs_def ys_def)
  have "IsTerminal StatusSuccess" "IsTerminal StatusFailed" by (simp_all add: IsTerminal_def)
  then have "place_on (sch_queue (handle_result now a r s)) (xs @ ys)"
    using place_on_ack [OF p] place_on_requeue [OF p] r
    by (cases r) (simp_all add: no_cancel_def handle_result_def Let_def count_metric_def)
  then show ?thesis by (simp add: s1_def [symmetric] place_inv_def t)
qed

text \<open>Results are those of handlers.\<close>

fun w_result :: "sched_worker \<Rightarrow> handler_result option" where
  "w_result (SwDone a r) = Some r"
| "w_result (SwClean a r) = Some r"
| "w_result (SwResult a r) = Some r"
| "w_result _ = None"

definition results_inv :: "(handler_result \<Rightarrow> bool) \<Rightarrow> CapacityScheduler \<Rightarrow> bool" where
  "results_inv handler s \<longleftrightarrow> list_all (\<lambda>w. \<forall>r. w_result w = Some r \<longrightarrow> handler r) (sch_workers s)"

lemma results_set:
  "results_inv handler s \<Longrightarrow> sch_workers s' = sch_workers s \<Longrightarrow> (\<And>r. w_result w = Some r \<Longrightarrow> handler r) \<Longrightarrow>
   results_inv handler (set_worker i w s')"
  by (simp add: results_inv_def set_worker_def list_all_update)

lemma results_at: "results_inv handler s \<Longrightarrow> i < length (sch_workers s) \<Longrightarrow> w_result (sch_workers s ! i) = Some r \<Longrightarrow> handler r"
  by (auto simp: results_inv_def list_all_length)

lemma results_step:
  assumes "sched_step cfg client handler s s'" "results_inv handler s" "\<not> preemptive cfg"
  shows "results_inv handler s'"
  using assms(1)
proof cases
  case (sched_pick i runningList now now')
  then show ?thesis
    using assms(2,3) results_set [of handler s]
    by (auto simp: worker_pick_def pickDispatchableLocked_def count_metric_def mark_running_def Let_def results_inv_def split: option.splits)
      (auto simp: set_worker_def results_inv_def intro!: list_all_update)
next
  case (sched_weight i a r)
  then show ?thesis using results_at [OF assms(2), of i r] by (auto intro!: results_set [OF assms(2)] simp: give_weight_back_def)
next
  case (sched_clean i a r)
  then show ?thesis using results_at [OF assms(2), of i r] by (auto intro!: results_set [OF assms(2)] simp: clean_up_def clear_job_def)
next
  case (sched_return i a r)
  then show ?thesis by (auto intro!: results_set [OF assms(2)])
next
  case (sched_start i a)
  then show ?thesis by (auto intro!: results_set [OF assms(2)])
next
  case (sched_exit i)
  then show ?thesis by (auto intro!: results_set [OF assms(2)])
next
  case (sched_result i a r now)
  then show ?thesis by (auto intro!: results_set [OF assms(2)])
qed (use assms(2) in \<open>simp_all add: results_inv_def ingest_def sch_sort_def sch_Stop_def\<close>)

lemma place_step:
  assumes "sched_step cfg submitting no_cancel s s'" "place_inv s" "results_inv no_cancel s" "\<not> preemptive cfg"
  shows "place_inv s'"
  using assms(1)
proof cases
  case (sched_client p)
  then show ?thesis using place_on_client [of s "sch_taken s" p] assms(2) by (simp add: place_inv_def sch_taken_def sch_held_def)
next
  case (sched_ingest now q a fired deadline now')
  note d = dq_task [OF sched_ingest(3)]
  have "place_on q (sch_taken s @ [a])" using place_on_pop [of "sch_queue s" "sch_taken s"] assms(2) d by (auto simp: place_inv_def)
  moreover have "mset (sch_taken (ingest cfg now' a (s\<lparr>sch_queue := q\<rparr>))) = mset (sch_taken s @ [a])"
    by (simp add: sch_taken_def ingest_def sch_sort_def sortTasks_def sch_held_def)
  moreover have "sch_queue (ingest cfg now' a (s\<lparr>sch_queue := q\<rparr>)) = q" by (simp add: ingest_def sch_sort_def)
  ultimately show ?thesis using sched_ingest(1) place_on_perm [of "sch_taken s'" "sch_taken s @ [a]" q] unfolding place_inv_def by simp
next
  case (sched_pick i runningList now now')
  then show ?thesis using place_pick assms(2,4) by simp
next
  case (sched_exit i)
  then show ?thesis using place_move [OF assms(2) sched_exit(3,4), of SwExit s] by simp
next
  case (sched_start i a)
  then show ?thesis using place_move [OF assms(2) sched_start(3,4), of "SwHandler a" "register_cancel a s"] by simp
next
  case (sched_return i a r)
  then show ?thesis using place_move [OF assms(2) sched_return(3,4), of "SwDone a r" s] by simp
next
  case (sched_weight i a r)
  then show ?thesis using place_move [OF assms(2) sched_weight(3,4), of "SwClean a r" "give_weight_back a s"] by (simp add: give_weight_back_def)
next
  case (sched_clean i a r)
  then show ?thesis using place_move [OF assms(2) sched_clean(3,4), of "SwResult a r" "clean_up a s"] by (simp add: clean_up_def clear_job_def)
next
  case (sched_result i a r now)
  have "no_cancel r" using results_at [OF assms(3), of i r] sched_result(3,4) by simp
  then show ?thesis using place_result [OF assms(2) sched_result(3,4)] sched_result(1) by simp
next
  case sched_stop
  then show ?thesis using assms(2) by (simp add: place_inv_def sch_taken_def sch_held_def sch_Stop_def)
qed

text \<open>The map of running tasks has exactly the tasks whose weight or job a worker still occupies.\<close>

definition running_inv :: "CapacityScheduler \<Rightarrow> bool" where
  "running_inv s \<longleftrightarrow>
     (\<forall>i a. map_option fst (map_of (sch_running s) i) = Some a \<longleftrightarrow> a \<in> set (sch_active s) \<and> t_ID (sch_task s a) = i)"

lemma running_frame:
  assumes "running_inv s" "same_tasks s s'" "set (sch_active s') = set (sch_active s)"
    "\<And>i. map_option fst (map_of (sch_running s') i) = map_option fst (map_of (sch_running s) i)"
  shows "running_inv s'"
  using assms(1,3,4) same_tasksD(3) [OF assms(2)] by (simp add: running_inv_def)

lemma running_move:
  assumes inv: "running_inv s" and i: "i < length (sch_workers s)" "sch_workers s ! i = w" and w: "w_active w' = w_active w"
    and s': "sch_queue s' = sch_queue s" "sch_workers s' = sch_workers s"
      "\<And>i. map_option fst (map_of (sch_running s') i) = map_option fst (map_of (sch_running s) i)"
  shows "running_inv (set_worker i w' s')"
proof -
  obtain us vs where ws: "sch_workers s = us @ w # vs" "\<And>w'. (sch_workers s)[i := w'] = us @ w' # vs"
    by (rule worker_split [OF i]) blast
  have n: "sch_workers (set_worker i w' s') = us @ w' # vs" by (simp add: set_worker_def s' ws(2))
  have "sch_active (set_worker i w' s') = sch_active s" unfolding sch_active_def n ws(1) by (simp add: w)
  moreover have "same_tasks s (set_worker i w' s')" by (simp add: same_tasks_def set_worker_def s')
  ultimately show ?thesis using running_frame [OF inv] s'(3) by (simp add: set_worker_def)
qed

lemma register_cancel_running:
  "map_option fst (map_of (sch_running (register_cancel a s)) i) = map_option fst (map_of (sch_running s) i)"
  by (auto simp: register_cancel_def update_conv' split: option.splits)

lemma active_held: "set (w_active w) \<subseteq> set (w_held w)"
  by (cases w) auto

lemma active_taken: "set (sch_active s) \<subseteq> set (sch_taken s)"
  using active_held by (fastforce simp: sch_active_def sch_taken_def sch_held_def)

lemma running_pick:
  assumes inv: "running_inv s" "place_inv s" and i: "i < length (sch_workers s)" "sch_workers s ! i = SwLoop" and np: "\<not> preemptive cfg"
  shows "running_inv (worker_pick cfg now now' rl i s)"
proof (cases "find (canDispatchLocked cfg s) (sch_pending s)")
  case None
  then show ?thesis
    using inv(1) np by (auto intro!: running_frame [of s] simp: worker_pick_def pickDispatchableLocked_def count_metric_def sch_active_def same_tasks_def)
next
  case (Some a)
  obtain us vs where ws: "sch_workers s = us @ SwLoop # vs" "\<And>w'. (sch_workers s)[i := w'] = us @ w' # vs"
    by (rule worker_split [OF i]) blast
  define s1 where "s1 = worker_pick cfg now now' rl i s"
  have f: "sch_workers s1 = us @ SwStart a # vs" "sch_running s1 = AList.update (t_ID (sch_task s a)) (a, False) (sch_running s)"
    by (simp_all add: s1_def worker_pick_def pickDispatchableLocked_def Some set_worker_def mark_running_def Let_def count_metric_def ws(2))
  have st: "same_tasks s s1"
    by (simp add: s1_def worker_pick_def pickDispatchableLocked_def Some set_worker_def mark_running_def Let_def count_metric_def
        same_tasks_def q_static_def [symmetric])
  have ac: "set (sch_active s1) = insert a (set (sch_active s))" unfolding sch_active_def f ws(1) by auto
  have a: "a \<in> set (sch_taken s)" using find_pending(2) [OF Some] by (simp add: sch_taken_def)
  have other: "b = a" if "b \<in> set (sch_active s)" "t_ID (sch_task s b) = t_ID (sch_task s a)" for b
    using place_on_inj [of "sch_queue s" "sch_taken s" b a] inv(2) a that active_taken by (auto simp: place_inv_def)
  have "map_option fst (map_of (sch_running s1) j) = Some b \<longleftrightarrow> b \<in> set (sch_active s1) \<and> t_ID (sch_task s1 b) = j" for j b
    using inv(1) other unfolding running_inv_def ac f(2) same_tasksD(3) [OF st]
    by (cases "j = t_ID (sch_task s a)") (auto simp: update_conv')
  then show ?thesis by (simp add: running_inv_def s1_def)
qed

lemma running_clean:
  assumes inv: "running_inv s" "place_inv s" and i: "i < length (sch_workers s)" "sch_workers s ! i = SwClean a r"
  shows "running_inv (set_worker i (SwResult a r) (clean_up a s))"
proof -
  obtain us vs where ws: "sch_workers s = us @ SwClean a r # vs" "\<And>w'. (sch_workers s)[i := w'] = us @ w' # vs"
    by (rule worker_split [OF i]) blast
  define s1 where "s1 = set_worker i (SwResult a r) (clean_up a s)"
  have f: "sch_workers s1 = us @ SwResult a r # vs" "sch_running s1 = AList.delete (t_ID (sch_task s a)) (sch_running s)"
    "sch_queue s1 = sch_queue s"
    by (simp_all add: s1_def set_worker_def clean_up_def clear_job_def ws(2))
  have p: "place_on (sch_queue s) (sch_taken s)" using inv(2) by (simp add: place_inv_def)
  have "distinct (sch_held s)" using p by (simp add: place_on_def sch_taken_def)
  then have "a \<notin> set (concat (map w_held us))" "a \<notin> set (concat (map w_held vs))" by (simp_all add: sch_held_def ws(1))
  moreover have "set (concat (map w_active xs)) \<subseteq> set (concat (map w_held xs))" for xs using active_held by fastforce
  ultimately have "a \<notin> set (concat (map w_active us))" "a \<notin> set (concat (map w_active vs))" by blast+
  then have ac: "set (sch_active s) = insert a (set (sch_active s1))" "a \<notin> set (sch_active s1)"
    unfolding sch_active_def f(1) ws(1) by simp_all
  have other: "t_ID (sch_task s b) \<noteq> t_ID (sch_task s a)" if "b \<in> set (sch_active s1)" for b
    using place_on_inj [OF p, of b a] active_taken [of s] that ac by auto
  have "map_option fst (map_of (sch_running s1) j) = Some b \<longleftrightarrow> b \<in> set (sch_active s1) \<and> t_ID (sch_task s1 b) = j" for j b
    using inv(1) other ac unfolding running_inv_def f(2,3)
    by (cases "j = t_ID (sch_task s a)") (auto simp: delete_conv')
  then show ?thesis by (simp add: running_inv_def s1_def)
qed

lemma running_step:
  assumes "sched_step cfg client handler s s'" "running_inv s" "place_inv s" "\<not> preemptive cfg"
  shows "running_inv s'"
  using assms(1)
proof cases
  case (sched_client p)
  then show ?thesis by (auto intro!: running_frame [OF assms(2)] simp: same_tasks_def sch_active_def)
next
  case (sched_ingest now q a fired deadline now')
  then have "q_static q = q_static (sch_queue s)"
    using q_static_dq(1) [of "sc_DequeueTimeout cfg" now "sch_queue s"] q_static_dq(2) [of fired None deadline now "sch_queue s"]
    by (metis fst_conv)
  then show ?thesis
    using sched_ingest(1) by (auto intro!: running_frame [OF assms(2)] simp: ingest_def sch_sort_def same_tasks_def sch_active_def)
next
  case (sched_pick i runningList now now')
  then show ?thesis using running_pick assms(2-4) by simp
next
  case (sched_exit i)
  then show ?thesis using running_move [OF assms(2) sched_exit(3,4), of SwExit s] by simp
next
  case (sched_start i a)
  then show ?thesis
    using running_move [OF assms(2) sched_start(3,4), of "SwHandler a" "register_cancel a s"] register_cancel_running by simp
next
  case (sched_return i a r)
  then show ?thesis using running_move [OF assms(2) sched_return(3,4), of "SwDone a r" s] by simp
next
  case (sched_weight i a r)
  then show ?thesis
    using running_move [OF assms(2) sched_weight(3,4), of "SwClean a r" "give_weight_back a s"] by (simp add: give_weight_back_def)
next
  case (sched_clean i a r)
  then show ?thesis using running_clean assms(2,3) by simp
next
  case (sched_result i a r now)
  have "running_inv (handle_result now a r s)"
    by (rule running_frame [OF assms(2) same_tasks_result]) (simp_all add: sch_active_def)
  from running_move [OF this, of i "SwResult a r" SwLoop "handle_result now a r s"] sched_result show ?thesis by simp
next
  case sched_stop
  then show ?thesis by (auto intro!: running_frame [OF assms(2)] simp: sch_Stop_def same_tasks_def sch_active_def)
qed

lemma place_reach:
  assumes "sched_reach cfg submitting no_cancel s0 s" "\<not> preemptive cfg" "place_inv s0" "running_inv s0" "results_inv no_cancel s0"
  shows "place_inv s \<and> running_inv s"
proof -
  have "place_inv s \<and> running_inv s \<and> results_inv no_cancel s"
    using assms by induction (use place_step running_step results_step in blast)+
  then show ?thesis by blast
qed

section \<open>Victims\<close>

lemma take_victims_prefix:
  assumes "take_victims needed freed store as = (vs, f)"
  shows "\<exists>rest. as = vs @ rest \<and> f = freed + (\<Sum>a\<leftarrow>vs. taskWeight (store a)) \<and> (rest \<noteq> [] \<longrightarrow> needed \<le> f) \<and>
    (vs \<noteq> [] \<longrightarrow> f - taskWeight (store (last vs)) < needed)"
  using assms
proof (induction needed freed store as arbitrary: vs f rule: take_victims.induct)
  case (2 needed freed store a as)
  show ?case
  proof (cases "freed \<ge> needed")
    case False
    obtain vs' f' where r: "take_victims needed (freed + taskWeight (store a)) store as = (vs', f')" by fastforce
    then have v: "vs = a # vs'" "f = f'" using "2.prems" False by simp_all
    from "2.IH" [OF False r] obtain rest where "as = vs' @ rest" "f' = freed + taskWeight (store a) + (\<Sum>a\<leftarrow>vs'. taskWeight (store a))"
      "rest \<noteq> [] \<longrightarrow> needed \<le> f'" "vs' \<noteq> [] \<longrightarrow> f' - taskWeight (store (last vs')) < needed" by blast
    then show ?thesis using False v by (intro exI [of _ rest]) auto
  qed (use "2.prems" in auto)
qed auto

section \<open>Runs\<close>

text \<open>A run as a list of moves; a move that is not possible has no result.\<close>

datatype sched_move =
    MClient q_op | MIngest gotime | MPick nat gotime | MStart nat | MReturn nat handler_result | MWeight nat | MClean nat | MResult nat gotime

definition worker_at :: "nat \<Rightarrow> CapacityScheduler \<Rightarrow> sched_worker" where
  "worker_at i s = (if i < length (sch_workers s) then sch_workers s ! i else SwExit)"

fun make_move :: "CapacitySchedulerConfig \<Rightarrow> sched_move \<Rightarrow> CapacityScheduler \<Rightarrow> CapacityScheduler option" where
  "make_move cfg (MClient p) s = Some (s\<lparr>sch_queue := q_apply p (sch_queue s)\<rparr>)"
| "make_move cfg (MIngest now) s =
     (case dq_start (sc_DequeueTimeout cfg) now (sch_queue s) of
        (q, DqTask a) \<Rightarrow> Some (ingest cfg now a (s\<lparr>sch_queue := q\<rparr>)) | _ \<Rightarrow> None)"
| "make_move cfg (MPick i now) s =
     (if worker_at i s = SwLoop \<and> \<not> sch_stopped s \<and> (hasDispatchableLocked cfg s \<or> hasPreemptionOpportunityLocked cfg s)
      then Some (worker_pick cfg now now (map (\<lambda>(_, a, _). a) (sch_running s)) i s) else None)"
| "make_move cfg (MStart i) s =
     (case worker_at i s of SwStart a \<Rightarrow> Some (set_worker i (SwHandler a) (register_cancel a s)) | _ \<Rightarrow> None)"
| "make_move cfg (MReturn i r) s = (case worker_at i s of SwHandler a \<Rightarrow> Some (set_worker i (SwDone a r) s) | _ \<Rightarrow> None)"
| "make_move cfg (MWeight i) s =
     (case worker_at i s of SwDone a r \<Rightarrow> Some (set_worker i (SwClean a r) (give_weight_back a s)) | _ \<Rightarrow> None)"
| "make_move cfg (MClean i) s =
     (case worker_at i s of SwClean a r \<Rightarrow> Some (set_worker i (SwResult a r) (clean_up a s)) | _ \<Rightarrow> None)"
| "make_move cfg (MResult i now) s =
     (case worker_at i s of SwResult a r \<Rightarrow> Some (set_worker i SwLoop (handle_result now a r s)) | _ \<Rightarrow> None)"

fun sched_exec :: "CapacitySchedulerConfig \<Rightarrow> sched_move list \<Rightarrow> CapacityScheduler \<Rightarrow> CapacityScheduler option" where
  "sched_exec cfg [] s = Some s"
| "sched_exec cfg (m # ms) s =
     (if sch_crashed s then None else case make_move cfg m s of None \<Rightarrow> None | Some s \<Rightarrow> sched_exec cfg ms s)"

text \<open>The flag says that clients may call anything.\<close>

fun move_ok :: "bool \<Rightarrow> (handler_result \<Rightarrow> bool) \<Rightarrow> sched_move \<Rightarrow> bool" where
  "move_ok free handler (MClient p) \<longleftrightarrow> free"
| "move_ok free handler (MReturn i r) \<longleftrightarrow> handler r"
| "move_ok free handler _ \<longleftrightarrow> True"

lemma worker_atD: "worker_at i s = w \<Longrightarrow> w \<noteq> SwExit \<Longrightarrow> i < length (sch_workers s) \<and> sch_workers s ! i = w"
  by (auto simp: worker_at_def split: if_splits)

lemma make_move_step:
  assumes "make_move cfg m s = Some s'" "move_ok free handler m" "\<not> sch_crashed s" "free \<Longrightarrow> client = (\<lambda>_ _. True)"
  shows "sched_step cfg client handler s s'"
proof (cases m)
  case (MClient p)
  then show ?thesis using assms sched_client [OF assms(3), of client p cfg handler] by auto
next
  case (MIngest now)
  then show ?thesis
    using assms(1) sched_ingest [OF assms(3), OF disjI1] by (auto split: prod.splits dq_result.splits)
next
  case (MPick i now)
  then show ?thesis using assms(1) sched_pick [OF assms(3)] worker_atD [of i s SwLoop] by (auto split: if_splits)
next
  case (MStart i)
  then show ?thesis using assms(1) sched_start [OF assms(3)] worker_atD [of i s] by (auto split: sched_worker.splits)
next
  case (MReturn i r)
  then show ?thesis using assms(1,2) sched_return [OF assms(3)] worker_atD [of i s] by (auto split: sched_worker.splits)
next
  case (MWeight i)
  then show ?thesis using assms(1) sched_weight [OF assms(3)] worker_atD [of i s] by (auto split: sched_worker.splits)
next
  case (MClean i)
  then show ?thesis using assms(1) sched_clean [OF assms(3)] worker_atD [of i s] by (auto split: sched_worker.splits)
next
  case (MResult i now)
  then show ?thesis using assms(1) sched_result [OF assms(3)] worker_atD [of i s] by (auto split: sched_worker.splits)
qed

lemma sched_exec_reach:
  assumes "free \<Longrightarrow> client = (\<lambda>_ _. True)"
  shows "sched_exec cfg ms s = Some s' \<Longrightarrow> list_all (move_ok free handler) ms \<Longrightarrow> sched_reach cfg client handler s0 s \<Longrightarrow>
   sched_reach cfg client handler s0 s'"
proof (induction ms arbitrary: s)
  case (Cons m ms)
  then obtain s1 where "make_move cfg m s = Some s1" "sched_exec cfg ms s1 = Some s'" "\<not> sch_crashed s" "move_ok free handler m"
    by (auto split: if_splits option.splits)
  then show ?case using Cons.IH Cons.prems make_move_step [OF _ _ _ assms] sched_next by simp
qed simp

section \<open>The properties of the scheduler\<close>




section \<open>Small runs\<close>

text \<open>
  Task v has a low priority and may be preempted, h is urgent and may not; x and y belong to the same
  job. The run starts with the tasks of a list in the queue, and has three workers.
\<close>

definition sched_task :: "string \<Rightarrow> string \<Rightarrow> int \<Rightarrow> int \<Rightarrow> bool \<Rightarrow> Task" where
  "sched_task i job prio w pre =
     \<lparr>t_ID = i, t_JobID = job, t_Priority = prio, t_Weight = w, t_Status = StatusPending, t_Progress = 0, t_RetryCount = 0,
      t_MaxRetries = 0, t_ErrorMsg = [], t_SubmitTime = 1, t_StartedAt = None, t_FinishedAt = None, t_Preemptible = pre\<rparr>"

definition sched_store :: "addr \<Rightarrow> Task" where
  "sched_store a =
     (if a = 0 then sched_task ''v'' [] 0 1 True else if a = 1 then sched_task ''h'' [] 5 1 False
      else if a = 2 then sched_task ''x'' ''job'' 9 1 False else sched_task ''y'' ''job'' 7 1 False)"

definition sched_cfg :: "int \<Rightarrow> bool \<Rightarrow> CapacitySchedulerConfig" where
  "sched_cfg capacity preempt =
     sc_defaults 3 \<lparr>sc_Capacity = capacity, sc_WorkerCount = 3, sc_Strategy = StrategyPreemptive, sc_AgingThreshold = - 1,
       sc_DequeueTimeout = 0, sc_EnablePreemption = preempt\<rparr>"

definition demo_queue :: "addr list \<Rightarrow> Queue" where
  "demo_queue as = q_run ''q'' sched_store (map (QEnqueue 1) as)"

definition sched_demo :: "int \<Rightarrow> bool \<Rightarrow> addr list \<Rightarrow> sched_move list \<Rightarrow> CapacityScheduler option" where
  "sched_demo capacity preempt as ms =
     sched_exec (sched_cfg capacity preempt) ms (sch_Start (sched_cfg capacity preempt) 2 [] (demo_queue as))"

definition demo_view :: "CapacityScheduler option \<Rightarrow> (sched_worker list \<times> addr list \<times> int \<times> bool) option" where
  "demo_view = map_option (\<lambda>s. (sch_workers s, sch_pending s, sch_usedWeight s, sch_crashed s))"

text \<open>Two urgent tasks of one job and another task: the second of the job has to wait.\<close>

definition demo_moves :: "sched_move list" where
  "demo_moves = [MIngest 3, MIngest 3, MIngest 3, MPick 0 4, MPick 1 5]"

lemma demo_reach:
  assumes "sched_demo capacity preempt as ms = Some s" "list_all (move_ok False handler) ms"
  shows "sched_reach (sched_cfg capacity preempt) client handler (sch_Start (sched_cfg capacity preempt) 2 [] (demo_queue as)) s"
  using sched_exec_reach [OF _ assms(1) [unfolded sched_demo_def] assms(2) sched_refl] by simp

lemma demo_free_reach:
  assumes "sched_demo capacity preempt as ms = Some s"
  shows "sched_reach (sched_cfg capacity preempt) (\<lambda>_ _. True) (\<lambda>_. True) (sch_Start (sched_cfg capacity preempt) 2 [] (demo_queue as)) s"
proof -
  have "list_all (move_ok True (\<lambda>_. True)) ms" by (simp add: list_all_iff) (metis move_ok.simps sched_move.exhaust)
  from sched_exec_reach [OF _ assms [unfolded sched_demo_def] this sched_refl] show ?thesis by simp
qed

lemma demo_run:
  obtains s where "sched_demo 2 False [2, 3, 0] demo_moves = Some s" "sch_workers s = [SwStart 2, SwStart 0, SwLoop]"
    "sch_pending s = [3]" "sch_usedWeight s = 2"
proof -
  have "demo_view (sched_demo 2 False [2, 3, 0] demo_moves) = Some ([SwStart 2, SwStart 0, SwLoop], [3], 2, False)"
    by code_simp
  then show thesis using that by (auto simp: demo_view_def)
qed

lemma no_preemption: "\<not> preemptive (sched_cfg capacity False)"
  by (simp add: preemptive_def sched_cfg_def sc_defaults_def Let_def)




section \<open>What preemption breaks\<close>

text \<open>
  The weight of a preempted task is given back twice: when it is preempted and when its handler
  returns. Here h and v then run together although each of them fills the capacity of one.
\<close>

lemma sched_preemption_exceeds_capacity:
  "\<exists>s. sched_reach (sched_cfg 1 True) (\<lambda>_ _. True) (\<lambda>_. True) (sch_Start (sched_cfg 1 True) 2 [] (demo_queue [0])) s \<and>
     sch_workers s = [SwClean 0 (HandlerCanceled []), SwHandler 1, SwHandler 0] \<and> sch_usedWeight s = 1"
proof -
  let ?d = "sched_demo 1 True [0] [MIngest 3, MPick 0 4, MStart 0, MClient (QEnqueue 5 1), MIngest 5, MPick 1 6, MStart 1,
    MReturn 0 (HandlerCanceled []), MWeight 0, MPick 2 7, MStart 2]"
  have "demo_view ?d = Some ([SwClean 0 (HandlerCanceled []), SwHandler 1, SwHandler 0], [], 1, False)" by code_simp
  then obtain s where "?d = Some s" "sch_workers s = [SwClean 0 (HandlerCanceled []), SwHandler 1, SwHandler 0]" "sch_usedWeight s = 1"
    by (auto simp: demo_view_def)
  with demo_free_reach show ?thesis by blast
qed

text \<open>A preempted task waits for dispatch again while its handler still runs: it can run twice at once.\<close>

lemma sched_preempted_runs_twice:
  "\<exists>s. sched_reach (sched_cfg 1 True) (\<lambda>_ _. True) (\<lambda>_. True) (sch_Start (sched_cfg 1 True) 2 [] (demo_queue [0])) s \<and>
     sch_workers s = [SwHandler 0, SwClean 1 HandlerOk, SwHandler 0]"
proof -
  let ?d = "sched_demo 1 True [0] [MIngest 3, MPick 0 4, MStart 0, MClient (QEnqueue 5 1), MIngest 5, MPick 1 6, MStart 1,
    MReturn 1 HandlerOk, MWeight 1, MPick 2 7, MStart 2]"
  have "demo_view ?d = Some ([SwHandler 0, SwClean 1 HandlerOk, SwHandler 0], [], 1, False)" by code_simp
  then obtain s where "?d = Some s" "sch_workers s = [SwHandler 0, SwClean 1 HandlerOk, SwHandler 0]"
    by (auto simp: demo_view_def)
  with demo_free_reach show ?thesis by blast
qed

text \<open>A task that is preempted before its worker has set the cancel function: the call of nil panics.\<close>

lemma sched_preemption_panics:
  "\<exists>s. sched_reach (sched_cfg 1 True) (\<lambda>_ _. True) (\<lambda>_. True) (sch_Start (sched_cfg 1 True) 2 [] (demo_queue [0])) s \<and> sch_crashed s"
proof -
  let ?d = "sched_demo 1 True [0] [MIngest 3, MPick 0 4, MClient (QEnqueue 5 1), MIngest 5, MPick 1 6]"
  have "map_option sch_crashed ?d = Some True" by code_simp
  then obtain s where "?d = Some s" "sch_crashed s" by auto
  with demo_free_reach show ?thesis by blast
qed

text \<open>
  Task y has to wait for x of its job, but could preempt v: the waiting condition of the workers is
  false, and a worker picks nothing and tries again at once.
\<close>

lemma sched_opportunity_spins:
  "demo_view (sched_demo 3 True [2, 0] [MIngest 3, MIngest 3, MPick 0 4, MPick 1 5, MClient (QEnqueue 6 3), MIngest 6]) =
     Some ([SwStart 2, SwStart 0, SwLoop], [3], 2, False) \<and>
   demo_view (sched_demo 3 True [2, 0] [MIngest 3, MIngest 3, MPick 0 4, MPick 1 5, MClient (QEnqueue 6 3), MIngest 6, MPick 2 7]) =
     Some ([SwStart 2, SwStart 0, SwLoop], [3], 2, False)"
  by code_simp

text \<open>With a full capacity it preempts v in vain: its own job still runs.\<close>

lemma sched_preempts_in_vain:
  "demo_view (sched_demo 2 True [2, 0] [MIngest 3, MIngest 3, MPick 0 4, MPick 1 5, MStart 0, MStart 1, MClient (QEnqueue 6 3), MIngest 6, MPick 2 7]) =
     Some ([SwHandler 2, SwHandler 0, SwLoop], [3, 0], 1, False)"
  by code_simp

section \<open>Other surprises\<close>

text \<open>A handler that returns a cancellation of its own: the task stays known and running for ever.\<close>

lemma sched_cancelled_task_lost:
  "map_option (\<lambda>s. (sch_workers s, sch_pending s, q_tasks (sch_queue s), q_byID (sch_queue s) ''v'', t_Status (sch_task s 0)))
     (sched_demo 1 False [0] [MIngest 3, MPick 0 4, MStart 0, MReturn 0 (HandlerCanceled ''x''), MWeight 0, MClean 0, MResult 0 5]) =
   Some ([SwLoop, SwLoop, SwLoop], [], [], Some 0, StatusRunning)"
  by code_simp

text \<open>A threshold of zero, which should turn aging off, is replaced by thirty seconds.\<close>

lemma sched_aging_not_disabled: "sc_AgingThreshold cfg = 0 \<Longrightarrow> sc_AgingThreshold (sc_defaults n cfg) = 30 * second"
  by (simp add: sc_defaults_def Let_def)

text \<open>The weighted-fair score squares the priority, so a negative priority goes before zero.\<close>

lemma sched_negative_priority_first:
  "let t = (\<lambda>p. sched_task [] [] p 1 False)
   in task_rank StrategyWeightedFair 1 0 (t (- 3)) < task_rank StrategyWeightedFair 1 0 (t 0) \<and>
      task_rank StrategyPriority 1 0 (t 0) < task_rank StrategyPriority 1 0 (t (- 3))"
  by code_simp

text \<open>
  Scaling down stores a smaller number but stops no worker, so each time the load falls and rises
  again there is one goroutine more, beyond any maximum.
\<close>

lemma sched_scaling_leaks:
  assumes "sd_MinWorkers cfg < sp_workers s" "sp_workers s \<le> sd_MaxWorkers cfg" "sd_CPUHighThreshold cfg \<le> high"
    "low \<le> sd_CPULowThreshold cfg" "low < sd_CPUHighThreshold cfg"
  shows "((\<lambda>s. adjustWorkers cfg low (adjustWorkers cfg high s)) ^^ n) s = s\<lparr>sp_goroutines := sp_goroutines s + int n\<rparr>"
proof (induction n)
  case (Suc n)
  then show ?case using assms by (simp add: adjustWorkers_def Let_def)
qed simp

lemma sched_workers_bounds:
  assumes "sd_MinWorkers cfg \<le> sp_workers s" "sp_workers s \<le> sd_MaxWorkers cfg"
  shows "sd_MinWorkers cfg \<le> sp_workers (adjustWorkers cfg c s) \<and> sp_workers (adjustWorkers cfg c s) \<le> sd_MaxWorkers cfg"
  using assms by (auto simp: adjustWorkers_def Let_def)

end
