(* ===== verification/GraphChannel.thy ===== *)
theory GraphChannel
  imports GoPrelude "HOL-Library.AList" "HOL-Library.List_Lexorder" "HOL-Library.Char_ord"
begin

text \<open>
  The package \<open>agentkit/graph/internal/channel\<close> (file \<open>channel.go\<close>): the channels through which
  the nodes of a graph trigger one another, and their manager. A channel is shared by pointer; the
  manager owns it, so an update of a channel is an update of the manager's entry. A method is one
  step, as it holds the channel's mutex. A value of type \<open>any\<close> is nil, a string (the only dynamic
  type the package asks for) or something else.
\<close>

section \<open>Channels\<close>

datatype 'a any = AnyNil | AnyString string | AnyValue 'a

datatype Behavior = BehaviorLastValue | BehaviorTopic | BehaviorEphemeral | BehaviorBarrier

definition StepUnmarked :: int where
  "StepUnmarked = - 1"

text \<open>\<open>BarrierSet\<close> is a map whose values are all true: a set.\<close>

record 'a Channel =
  ch_Name :: string
  ch_Behavior :: Behavior
  ch_Value :: "'a any"
  ch_Values :: "'a any list"
  ch_Subscribers :: "string list"
  ch_BarrierSet :: "string set"
  ch_BarrierExpected :: "string list"
  ch_Version :: int64
  ch_Available :: bool
  ch_LastUpdatedStep :: int

definition NewChannel :: "string \<Rightarrow> Behavior \<Rightarrow> 'a Channel" where
  "NewChannel name b =
     \<lparr>ch_Name = name, ch_Behavior = b, ch_Value = AnyNil, ch_Values = [], ch_Subscribers = [], ch_BarrierSet = {},
      ch_BarrierExpected = [], ch_Version = 0, ch_Available = False, ch_LastUpdatedStep = StepUnmarked\<rparr>"

text \<open>The loop of \<open>dedupeSortedStrings\<close> after its first element, with the last one kept.\<close>

fun dedupe_loop :: "string \<Rightarrow> string list \<Rightarrow> string list" where
  "dedupe_loop prev [] = []"
| "dedupe_loop prev (s # ss) = (if s \<noteq> prev then s # dedupe_loop s ss else dedupe_loop prev ss)"

fun dedupeSortedStrings :: "string list \<Rightarrow> string list" where
  "dedupeSortedStrings [] = []"
| "dedupeSortedStrings (s # ss) = s # dedupe_loop s ss"

definition ch_SetBarrierExpected :: "string list \<Rightarrow> 'a Channel \<Rightarrow> 'a Channel" where
  "ch_SetBarrierExpected expected c = c\<lparr>ch_BarrierExpected := dedupeSortedStrings (sort expected)\<rparr>"

definition isBarrierSatisfiedLocked :: "'a Channel \<Rightarrow> bool" where
  "isBarrierSatisfiedLocked c \<longleftrightarrow> list_all (\<lambda>name. name \<in> ch_BarrierSet c) (ch_BarrierExpected c)"

definition ch_SetBarrierSeen :: "string list \<Rightarrow> 'a Channel \<Rightarrow> 'a Channel" where
  "ch_SetBarrierSeen seen c =
     (let c = c\<lparr>ch_BarrierSet := set (filter (\<lambda>name. name \<noteq> []) seen)\<rparr>
      in c\<lparr>ch_Available := isBarrierSatisfiedLocked c\<rparr>)"

definition ch_BarrierSeenSnapshot :: "'a Channel \<Rightarrow> string list" where
  "ch_BarrierSeenSnapshot c = sorted_list_of_set (ch_BarrierSet c)"

fun any_strings :: "'a any list \<Rightarrow> string list" where
  "any_strings [] = []"
| "any_strings (AnyString s # vs) = s # any_strings vs"
| "any_strings (_ # vs) = any_strings vs"

definition ch_Update :: "'a any list \<Rightarrow> int \<Rightarrow> 'a Channel \<Rightarrow> 'a Channel \<times> bool" where
  "ch_Update values step c =
     (case ch_Behavior c of
        BehaviorLastValue \<Rightarrow>
          if values \<noteq> []
          then (c\<lparr>ch_Value := last values, ch_Version := ch_Version c + 1, ch_Available := True, ch_LastUpdatedStep := step\<rparr>, True)
          else (c, False)
      | BehaviorTopic \<Rightarrow>
          (c\<lparr>ch_Values := ch_Values c @ values, ch_Version := ch_Version c + 1, ch_Available := True, ch_LastUpdatedStep := step\<rparr>, True)
      | BehaviorEphemeral \<Rightarrow>
          if values \<noteq> []
          then (c\<lparr>ch_Value := hd values, ch_Version := ch_Version c + 1, ch_Available := True, ch_LastUpdatedStep := step\<rparr>, True)
          else (c, False)
      | BehaviorBarrier \<Rightarrow>
          (let c = c\<lparr>ch_BarrierSet := ch_BarrierSet c \<union> set (any_strings values)\<rparr>
           in (c\<lparr>ch_Version := ch_Version c + 1, ch_Available := isBarrierSatisfiedLocked c, ch_LastUpdatedStep := step\<rparr>, True)))"

datatype 'a ch_got = GotValue "'a any" | GotValues "'a any list" | GotSenders "string set"

definition ch_Get :: "'a Channel \<Rightarrow> 'a ch_got" where
  "ch_Get c =
     (case ch_Behavior c of
        BehaviorLastValue \<Rightarrow> GotValue (ch_Value c)
      | BehaviorEphemeral \<Rightarrow> GotValue (ch_Value c)
      | BehaviorTopic \<Rightarrow> GotValues (ch_Values c)
      | BehaviorBarrier \<Rightarrow> GotSenders (ch_BarrierSet c))"

definition ch_Consume :: "'a Channel \<Rightarrow> 'a Channel \<times> bool" where
  "ch_Consume c =
     (if ch_Behavior c = BehaviorEphemeral then (c\<lparr>ch_Value := AnyNil, ch_Available := False\<rparr>, True) else (c, False))"

definition ch_IsUpdatedInStep :: "int \<Rightarrow> 'a Channel \<Rightarrow> bool" where
  "ch_IsUpdatedInStep step c \<longleftrightarrow> ch_LastUpdatedStep c = step"

definition ch_ClearStepMark :: "'a Channel \<Rightarrow> 'a Channel" where
  "ch_ClearStepMark c = c\<lparr>ch_LastUpdatedStep := StepUnmarked\<rparr>"

definition ch_Finish :: "'a Channel \<Rightarrow> 'a Channel \<times> bool" where
  "ch_Finish c = (c\<lparr>ch_Available := False\<rparr>, True)"

definition ch_Acknowledge :: "'a Channel \<Rightarrow> 'a Channel" where
  "ch_Acknowledge c =
     (let c = c\<lparr>ch_Available := False\<rparr>
      in if ch_Behavior c = BehaviorBarrier then c\<lparr>ch_BarrierSet := {}\<rparr> else c)"

definition ch_ConsumeIfAvailable :: "'a Channel \<Rightarrow> 'a Channel \<times> bool" where
  "ch_ConsumeIfAvailable c =
     (if \<not> ch_Available c then (c, False)
      else let c = c\<lparr>ch_Available := False\<rparr>
           in (if ch_Behavior c = BehaviorBarrier then c\<lparr>ch_BarrierSet := {}\<rparr> else c, True))"

section \<open>The manager\<close>

type_synonym 'a Manager = "(string \<times> 'a Channel) list"

definition NewChannelManager :: "'a Manager" where
  "NewChannelManager = []"

definition AddChannel :: "string \<Rightarrow> Behavior \<Rightarrow> 'a Manager \<Rightarrow> 'a Manager" where
  "AddChannel name b m = (if map_of m name \<noteq> None then m else AList.update name (NewChannel name b) m)"

definition GetChannel :: "string \<Rightarrow> 'a Manager \<Rightarrow> 'a Channel option" where
  "GetChannel name m = map_of m name"

definition GetAllChannels :: "'a Manager \<Rightarrow> string \<rightharpoonup> 'a Channel" where
  "GetAllChannels m = map_of m"

text \<open>A call through the pointer that \<open>GetChannel\<close> returns.\<close>

definition on_channel :: "string \<Rightarrow> ('a Channel \<Rightarrow> 'a Channel) \<Rightarrow> 'a Manager \<Rightarrow> 'a Manager" where
  "on_channel name f m = AList.map_entry name f m"

lemma manager_simps [simp]:
  "GetChannel name NewChannelManager = None"
  "GetChannel n (AddChannel name b m) =
     (if n = name then (case GetChannel name m of None \<Rightarrow> Some (NewChannel name b) | Some c \<Rightarrow> Some c) else GetChannel n m)"
  "GetChannel n (on_channel name f m) = (if n = name then map_option f (GetChannel n m) else GetChannel n m)"
  by (auto simp: GetChannel_def NewChannelManager_def AddChannel_def on_channel_def update_conv' map_of_map_entry
      split: option.splits)

section \<open>What a channel has received\<close>

lemma set_any_strings: "set (any_strings vs) = {s. AnyString s \<in> set vs}"
  by (induction vs rule: any_strings.induct) auto

lemma satisfied_iff: "isBarrierSatisfiedLocked c \<longleftrightarrow> set (ch_BarrierExpected c) \<subseteq> ch_BarrierSet c"
  by (auto simp: isBarrierSatisfiedLocked_def list_all_iff)

lemma dedupe_loop_eq: "dedupe_loop p ss = (case remdups_adj (p # ss) of [] \<Rightarrow> [] | _ # ts \<Rightarrow> ts)"
  by (induction ss arbitrary: p) (auto simp: remdups_adj_Cons split: list.splits)

lemma dedupeSortedStrings_eq: "dedupeSortedStrings ss = remdups_adj ss"
proof (cases ss)
  case (Cons s ts)
  have "remdups_adj (s # ts) = s # dedupe_loop s ts"
    by (cases "remdups_adj (s # ts)") (auto simp: dedupe_loop_eq remdups_adj_Cons split: list.splits if_splits)
  then show ?thesis using Cons by simp
qed simp

lemma set_BarrierExpected [simp]: "set (ch_BarrierExpected (ch_SetBarrierExpected ex c)) = set ex"
  by (simp add: ch_SetBarrierExpected_def dedupeSortedStrings_eq)

definition ch_updates :: "('a any list \<times> int) list \<Rightarrow> 'a Channel \<Rightarrow> 'a Channel" where
  "ch_updates us c = fold (\<lambda>(vs, step) c. fst (ch_Update vs step c)) us c"

lemma ch_updates_simps [simp]:
  "ch_updates [] c = c" "ch_updates (us @ [(vs, step)]) c = fst (ch_Update vs step (ch_updates us c))"
  by (simp_all add: ch_updates_def)

lemma ch_Update_frame [simp]:
  "ch_Behavior (fst (ch_Update vs step c)) = ch_Behavior c"
  "ch_BarrierExpected (fst (ch_Update vs step c)) = ch_BarrierExpected c"
  by (simp_all add: ch_Update_def Let_def split: Behavior.splits)

lemma ch_updates_frame [simp]:
  "ch_Behavior (ch_updates us c) = ch_Behavior c" "ch_BarrierExpected (ch_updates us c) = ch_BarrierExpected c"
  by (induction us rule: rev_induct; force)+

lemma ch_Acknowledge_frame [simp]:
  "ch_Behavior (ch_Acknowledge c) = ch_Behavior c" "ch_BarrierExpected (ch_Acknowledge c) = ch_BarrierExpected c"
  "ch_Version (ch_Acknowledge c) = ch_Version c" "ch_Value (ch_Acknowledge c) = ch_Value c"
  "ch_Values (ch_Acknowledge c) = ch_Values c" "\<not> ch_Available (ch_Acknowledge c)"
  "ch_BarrierSet (ch_Acknowledge c) = (if ch_Behavior c = BehaviorBarrier then {} else ch_BarrierSet c)"
  by (simp_all add: ch_Acknowledge_def Let_def)

lemma ConsumeIfAvailable_eq:
  "ch_ConsumeIfAvailable c = (if ch_Available c then (ch_Acknowledge c, True) else (c, False))"
  by (simp add: ch_ConsumeIfAvailable_def ch_Acknowledge_def Let_def)

text \<open>The updates that count: all of them, or those with a value.\<close>

definition effective :: "Behavior \<Rightarrow> ('a any list \<times> int) list \<Rightarrow> ('a any list \<times> int) list" where
  "effective b us = (if b = BehaviorLastValue \<or> b = BehaviorEphemeral then filter (\<lambda>(vs, _). vs \<noteq> []) us else us)"

definition senders :: "('a any list \<times> int) list \<Rightarrow> string set" where
  "senders us = {s. \<exists>(vs, _) \<in> set us. AnyString s \<in> set vs}"

lemma effective_snoc:
  "effective b (us @ [(vs, step)]) =
     effective b us @ (if vs = [] \<and> (b = BehaviorLastValue \<or> b = BehaviorEphemeral) then [] else [(vs, step)])"
  by (simp add: effective_def)

lemma senders_snoc: "senders (us @ [(vs, step)]) = senders us \<union> {s. AnyString s \<in> set vs}"
  by (auto simp: senders_def)

lemma updates_available:
  "ch_Available (ch_updates us (ch_Acknowledge c)) \<longleftrightarrow> effective (ch_Behavior c) us \<noteq> [] \<and>
     (ch_Behavior c = BehaviorBarrier \<longrightarrow> set (ch_BarrierExpected c) \<subseteq> senders us)"
  and updates_barrier:
  "ch_Behavior c = BehaviorBarrier \<Longrightarrow> ch_BarrierSet (ch_updates us (ch_Acknowledge c)) = senders us"
proof (induction us rule: rev_induct)
  case Nil
  { case 1 then show ?case by (simp add: effective_def) }
  { case 2 then show ?case by (simp add: senders_def) }
next
  case (snoc u us)
  obtain vs step where u: "u = (vs, step)" by fastforce
  { case 2
    then show ?case using snoc.IH(2) by (simp add: u ch_Update_def Let_def senders_snoc set_any_strings) }
  { case 1
    show ?case
      using snoc.IH by (cases "ch_Behavior c")
        (auto simp: u ch_Update_def Let_def senders_snoc set_any_strings satisfied_iff effective_snoc) }
qed

lemma updates_get:
  "ch_Get (ch_updates us (ch_Acknowledge c)) =
     (let es = effective (ch_Behavior c) us in
      case ch_Behavior c of
        BehaviorLastValue \<Rightarrow> GotValue (if es = [] then ch_Value c else last (fst (last es)))
      | BehaviorEphemeral \<Rightarrow> GotValue (if es = [] then ch_Value c else hd (fst (last es)))
      | BehaviorTopic \<Rightarrow> GotValues (ch_Values c @ concat (map fst us))
      | BehaviorBarrier \<Rightarrow> GotSenders (senders us))"
proof (induction us rule: rev_induct)
  case Nil
  show ?case by (cases "ch_Behavior c") (simp_all add: ch_Get_def effective_def senders_def)
next
  case (snoc u us)
  obtain vs step where u: "u = (vs, step)" by fastforce
  show ?case
    using snoc.IH by (cases "ch_Behavior c")
      (simp_all add: u ch_Get_def ch_Update_def Let_def effective_snoc senders_snoc set_any_strings)
qed

lemma updates_version:
  "ch_Version (ch_updates us (ch_Acknowledge c)) = ch_Version c + of_nat (length (effective (ch_Behavior c) us))"
proof (induction us rule: rev_induct)
  case Nil
  show ?case by (simp add: effective_def)
next
  case (snoc u us)
  obtain vs step where u: "u = (vs, step)" by fastforce
  show ?case
    using snoc.IH by (cases "ch_Behavior c") (simp_all add: u ch_Update_def Let_def effective_snoc)
qed

section \<open>The property of channels\<close>

text \<open>
  C20. What a channel says after it was acknowledged and then updated any number of times: a
  last-value or ephemeral channel is available exactly if some update had a value, and holds the
  last value of the last such update, or its first; a topic is available after any update and
  accumulates; a barrier is available exactly when something arrived and every expected sender is
  among the senders since the acknowledgement. The version counts the effective updates, and
  consuming takes the availability once: an unavailable channel is left as it is.
\<close>

theorem graph_channel_semantics:
  "ch_Available (ch_updates us (ch_Acknowledge c)) =
     (effective (ch_Behavior c) us \<noteq> [] \<and>
      (if ch_Behavior c = BehaviorBarrier then set (ch_BarrierExpected c) \<subseteq> senders us else True)) \<and>
   ch_Get (ch_updates us (ch_Acknowledge c)) =
     (let es = effective (ch_Behavior c) us in
      case ch_Behavior c of
        BehaviorLastValue \<Rightarrow> GotValue (if es = [] then ch_Value c else last (fst (last es)))
      | BehaviorEphemeral \<Rightarrow> GotValue (if es = [] then ch_Value c else hd (fst (last es)))
      | BehaviorTopic \<Rightarrow> GotValues (ch_Values c @ concat (map fst us))
      | BehaviorBarrier \<Rightarrow> GotSenders (senders us)) \<and>
   ch_Version (ch_updates us (ch_Acknowledge c)) = ch_Version c + of_nat (length (effective (ch_Behavior c) us)) \<and>
   (let c' = ch_updates us (ch_Acknowledge c)
    in ch_ConsumeIfAvailable c' = (if ch_Available c' then (ch_Acknowledge c', True) else (c', False)))"
  by (simp add: updates_available updates_get updates_version ConsumeIfAvailable_eq Let_def)

end
