(* ===== verification/Graph.thy ===== *)
theory Graph
  imports GraphChannel
begin

text \<open>
  The graph of \<open>agentkit/graph\<close> and its builder (files \<open>graph.go\<close>, \<open>state_graph.go\<close>, and from
  \<open>state.go\<close> the schema and the merging of updates): nodes, edges, the channels and triggers the
  builder derives from them, and \<open>Compile\<close>. The maps a method ranges over are association lists.
  A node keeps the fields that routing reads; its function is a function of the state.
\<close>

section \<open>State\<close>

type_synonym 'a State = "string \<rightharpoonup> 'a any"

text \<open>
  The reflected type of a field is the set of values assignable to it (nil included where its kind
  has a nil); a nil type is None. \<open>Default\<close> is the value its function returns.
\<close>

record 'a StateField =
  sf_Type :: "('a any \<Rightarrow> bool) option"
  sf_Reducer :: "('a any \<Rightarrow> 'a any \<Rightarrow> 'a any) option"
  sf_Default :: "'a any option"
  sf_Required :: bool
  sf_DisableDeepCopy :: bool

type_synonym 'a StateSchema = "(string \<times> 'a StateField) list"

definition NewStateSchema :: "'a StateSchema" where
  "NewStateSchema = []"

definition DefaultReducer :: "'a any \<Rightarrow> 'a any \<Rightarrow> 'a any" where
  "DefaultReducer existing update = update"

definition AddField :: "string \<Rightarrow> 'a StateField \<Rightarrow> 'a StateSchema \<Rightarrow> 'a StateSchema" where
  "AddField name f s =
     AList.update name (if sf_Reducer f = None then f\<lparr>sf_Reducer := Some DefaultReducer\<rparr> else f) s"

datatype schema_error = FieldNilType string | FieldNilReducer string | FieldDefault string

fun validateSchema :: "'a StateSchema \<Rightarrow> schema_error option" where
  "validateSchema [] = None"
| "validateSchema ((name, f) # s) =
     (case sf_Type f of
        None \<Rightarrow> Some (FieldNilType name)
      | Some assignable \<Rightarrow>
          if sf_Reducer f = None then Some (FieldNilReducer name)
          else case sf_Default f of
                 Some d \<Rightarrow> if assignable d then validateSchema s else Some (FieldDefault name)
               | None \<Rightarrow> validateSchema s)"

definition isInternalStateKey :: "string \<Rightarrow> bool" where
  "isInternalStateKey key \<longleftrightarrow> List.member
     [''exec_context'', ''parent_agent'', ''node_callbacks'', ''tool_callbacks'', ''model_callbacks'', ''agent_callbacks'',
      ''current_node_id'', ''__current_trace_step_id__'', ''session'', ''__graph_interrupt_inputs__'',
      ''_node_metadata'', ''_pregel_metadata'', ''_channel_metadata'', ''_state_metadata'', ''_completion_metadata'',
      ''_node_custom_metadata'', ''_node_emitter'', ''__completed_tool_messages__''] key"

text \<open>
  \<open>ApplyUpdate\<close>, key by key. \<open>oneShot\<close> stands for \<open>OneShotMessagesByNodeReducer\<close>, which decodes
  messages from JSON. Deep copies are the identity on values.
\<close>

definition ApplyUpdate ::
    "('a any \<Rightarrow> 'a any \<Rightarrow> 'a any) \<Rightarrow> 'a StateSchema \<Rightarrow> 'a State \<Rightarrow> 'a State \<Rightarrow> 'a State" where
  "ApplyUpdate oneShot s current update =
     (\<lambda>key. case update key of
        None \<Rightarrow> current key
      | Some u \<Rightarrow>
          (case map_of s key of
             None \<Rightarrow>
               if isInternalStateKey key then current key
               else if key = ''one_shot_messages_by_node''
                    then Some (oneShot (case current key of Some v \<Rightarrow> v | None \<Rightarrow> AnyNil) u)
                    else Some u
           | Some f \<Rightarrow>
               (let currentValue = (case current key of
                                      Some v \<Rightarrow> v
                                    | None \<Rightarrow> (case sf_Default f of Some d \<Rightarrow> d | None \<Rightarrow> AnyNil))
                in case sf_Reducer f of
                     Some r \<Rightarrow> Some (r currentValue u)
                   | None \<Rightarrow> current key)))"

section \<open>Nodes and edges\<close>

definition Start :: string where "Start = ''__start__''"
definition End :: string where "End = ''__end__''"

record 'a Command =
  cmd_Update :: "'a State option"
  cmd_GoTo :: string

text \<open>What a node returns: nothing, a state, a command, commands to fan out, or a value of another type.\<close>

datatype 'a NodeResult =
    ResNil | ResState "'a State" | ResCommand "'a Command option" | ResCommands "'a Command option list" | ResOther

record 'a channelWriteEntry =
  we_Channel :: string
  we_Value :: "'a any"

record ('a, 'e) Node =
  nd_ID :: string
  nd_Function :: "'a State \<Rightarrow> 'e + 'a NodeResult"
  nd_triggers :: "string list"
  nd_channels :: "string list"
  nd_writers :: "'a channelWriteEntry list"
  nd_destinations :: "(string \<times> string) list"
  nd_ends :: "(string \<times> string) list"
  nd_interruptBefore :: bool
  nd_interruptAfter :: bool

record Edge =
  e_From :: string
  e_To :: string

record ('a, 'e) ConditionalEdge =
  c_From :: string
  c_Condition :: "('a State \<Rightarrow> 'e + string list) option"
  c_PathMap :: "(string \<times> string) list"

record ('a, 'e) Graph =
  g_schema :: "'a StateSchema"
  g_nodes :: "(string \<times> ('a, 'e) Node) list"
  g_edges :: "string \<Rightarrow> Edge list"
  g_conditionalEdges :: "string \<rightharpoonup> ('a, 'e) ConditionalEdge"
  g_entryPoint :: string
  g_channels :: "'a Manager"
  g_triggerToNodes :: "(string \<times> string list) list"

definition graph_New :: "'a StateSchema option \<Rightarrow> ('a, 'e) Graph" where
  "graph_New schema =
     \<lparr>g_schema = (case schema of None \<Rightarrow> NewStateSchema | Some s \<Rightarrow> s), g_nodes = [], g_edges = (\<lambda>_. []),
      g_conditionalEdges = Map.empty, g_entryPoint = [], g_channels = NewChannelManager, g_triggerToNodes = []\<rparr>"

definition graph_Node :: "string \<Rightarrow> ('a, 'e) Graph \<Rightarrow> ('a, 'e) Node option" where
  "graph_Node i g = map_of (g_nodes g) i"

definition graph_has :: "string \<Rightarrow> ('a, 'e) Graph \<Rightarrow> bool" where
  "graph_has i g \<longleftrightarrow> graph_Node i g \<noteq> None"

definition EndTargets :: "('a, 'e) Node \<Rightarrow> string list" where
  "EndTargets n = sort (remdups (filter (\<lambda>t. t \<noteq> [] \<and> t \<noteq> End) (map snd (nd_ends n))))"

datatype build_error =
    ErrNodeIDEmpty | ErrNodeExists string | ErrEdgeEmpty | ErrSourceMissing string | ErrTargetMissing string
  | ErrCondFromEmpty | ErrCondNil | ErrEntryMissing string | ErrNoEntry | ErrDestination string string
  | ErrEndTarget string string | ErrNodeNotFound string | ErrSchema schema_error | ErrJoined "build_error list"

definition graph_addNode :: "('a, 'e) Node \<Rightarrow> ('a, 'e) Graph \<Rightarrow> build_error + ('a, 'e) Graph" where
  "graph_addNode n g =
     (if nd_ID n = [] then Inl ErrNodeIDEmpty
      else if graph_has (nd_ID n) g then Inl (ErrNodeExists (nd_ID n))
      else Inr (g\<lparr>g_nodes := AList.update (nd_ID n) n (g_nodes g)\<rparr>))"

definition graph_addEdge :: "Edge \<Rightarrow> ('a, 'e) Graph \<Rightarrow> build_error + ('a, 'e) Graph" where
  "graph_addEdge e g =
     (if e_From e = [] \<or> e_To e = [] then Inl ErrEdgeEmpty
      else if e_From e \<noteq> Start \<and> \<not> graph_has (e_From e) g then Inl (ErrSourceMissing (e_From e))
      else if e_To e \<noteq> End \<and> \<not> graph_has (e_To e) g then Inl (ErrTargetMissing (e_To e))
      else Inr (g\<lparr>g_edges := (g_edges g)(e_From e := g_edges g (e_From e) @ [e])\<rparr>))"

fun path_error :: "(string \<times> string) list \<Rightarrow> ('a, 'e) Graph \<Rightarrow> build_error option" where
  "path_error [] g = None"
| "path_error ((_, to) # ps) g = (if to \<noteq> End \<and> \<not> graph_has to g then Some (ErrTargetMissing to) else path_error ps g)"

definition graph_addConditionalEdge :: "('a, 'e) ConditionalEdge \<Rightarrow> ('a, 'e) Graph \<Rightarrow> build_error + ('a, 'e) Graph" where
  "graph_addConditionalEdge c g =
     (if c_From c = [] then Inl ErrCondFromEmpty
      else if c_Condition c = None then Inl ErrCondNil
      else if c_From c \<noteq> Start \<and> \<not> graph_has (c_From c) g then Inl (ErrSourceMissing (c_From c))
      else case path_error (c_PathMap c) g of
             Some e \<Rightarrow> Inl e
           | None \<Rightarrow> Inr (g\<lparr>g_conditionalEdges := (g_conditionalEdges g)(c_From c \<mapsto> c)\<rparr>))"

definition graph_setEntryPoint :: "string \<Rightarrow> ('a, 'e) Graph \<Rightarrow> build_error + ('a, 'e) Graph" where
  "graph_setEntryPoint i g =
     (if i \<noteq> [] \<and> \<not> graph_has i g then Inl (ErrEntryMissing i) else Inr (g\<lparr>g_entryPoint := i\<rparr>))"

definition graph_addChannel :: "string \<Rightarrow> Behavior \<Rightarrow> ('a, 'e) Graph \<Rightarrow> ('a, 'e) Graph" where
  "graph_addChannel name b g = g\<lparr>g_channels := AddChannel name b (g_channels g)\<rparr>"

definition graph_triggers :: "string \<Rightarrow> ('a, 'e) Graph \<Rightarrow> string list" where
  "graph_triggers ch g = (case map_of (g_triggerToNodes g) ch of None \<Rightarrow> [] | Some ns \<Rightarrow> ns)"

definition graph_addNodeTrigger :: "string \<Rightarrow> string \<Rightarrow> ('a, 'e) Graph \<Rightarrow> ('a, 'e) Graph" where
  "graph_addNodeTrigger ch i g =
     (let existing = graph_triggers ch g
      in if List.member existing i then g
         else g\<lparr>g_triggerToNodes := AList.update ch (existing @ [i]) (g_triggerToNodes g)\<rparr>)"

definition on_node :: "string \<Rightarrow> (('a, 'e) Node \<Rightarrow> ('a, 'e) Node) \<Rightarrow> ('a, 'e) Graph \<Rightarrow> ('a, 'e) Graph" where
  "on_node i f g = g\<lparr>g_nodes := AList.map_entry i f (g_nodes g)\<rparr>"

definition graph_addNodeWriter :: "string \<Rightarrow> 'a channelWriteEntry \<Rightarrow> ('a, 'e) Graph \<Rightarrow> ('a, 'e) Graph" where
  "graph_addNodeWriter i w g = on_node i (\<lambda>n. n\<lparr>nd_writers := nd_writers n @ [w]\<rparr>) g"

definition graph_addNodeTriggerChannel :: "string \<Rightarrow> string \<Rightarrow> ('a, 'e) Graph \<Rightarrow> ('a, 'e) Graph" where
  "graph_addNodeTriggerChannel i ch g = on_node i (\<lambda>n. n\<lparr>nd_triggers := nd_triggers n @ [ch]\<rparr>) g"

definition graph_addNodeChannel :: "string \<Rightarrow> string \<Rightarrow> ('a, 'e) Graph \<Rightarrow> ('a, 'e) Graph" where
  "graph_addNodeChannel i ch g = on_node i (\<lambda>n. n\<lparr>nd_channels := nd_channels n @ [ch]\<rparr>) g"

text \<open>The declared destinations and ends of a node must exist.\<close>

fun targets_error :: "(string \<Rightarrow> build_error) \<Rightarrow> string list \<Rightarrow> ('a, 'e) Graph \<Rightarrow> build_error option" where
  "targets_error err [] g = None"
| "targets_error err (to # ts) g =
     (if to = End then targets_error err ts g
      else if \<not> graph_has to g then Some (err to)
      else targets_error err ts g)"

fun nodes_error :: "(string \<times> ('a, 'e) Node) list \<Rightarrow> ('a, 'e) Graph \<Rightarrow> build_error option" where
  "nodes_error [] g = None"
| "nodes_error ((_, n) # ns) g =
     (case targets_error (ErrDestination (nd_ID n)) (map fst (nd_destinations n)) g of
        Some e \<Rightarrow> Some e
      | None \<Rightarrow>
          (case targets_error (ErrEndTarget (nd_ID n)) (map snd (nd_ends n)) g of
             Some e \<Rightarrow> Some e
           | None \<Rightarrow> nodes_error ns g))"

definition graph_validate :: "('a, 'e) Graph \<Rightarrow> build_error option" where
  "graph_validate g =
     (if g_entryPoint g = [] then Some ErrNoEntry
      else if \<not> graph_has (g_entryPoint g) g then Some (ErrEntryMissing (g_entryPoint g))
      else case nodes_error (g_nodes g) g of
             Some e \<Rightarrow> Some e
           | None \<Rightarrow> map_option ErrSchema (validateSchema (g_schema g)))"

section \<open>The builder\<close>

text \<open>The options that set a field the model keeps.\<close>

datatype Option =
    WithDestinations "(string \<times> string) list" | WithEndsMap "(string \<times> string) list" | WithEnds "string list"
  | WithInterruptBefore | WithInterruptAfter

fun apply_Option :: "Option \<Rightarrow> ('a, 'e) Node \<Rightarrow> ('a, 'e) Node" where
  "apply_Option (WithDestinations ds) n = n\<lparr>nd_destinations := fold (\<lambda>(k, v). AList.update k v) ds (nd_destinations n)\<rparr>"
| "apply_Option (WithEndsMap es) n = n\<lparr>nd_ends := fold (\<lambda>(k, v). AList.update k v) es (nd_ends n)\<rparr>"
| "apply_Option (WithEnds names) n = n\<lparr>nd_ends := fold (\<lambda>k. AList.update k k) names (nd_ends n)\<rparr>"
| "apply_Option WithInterruptBefore n = n\<lparr>nd_interruptBefore := True\<rparr>"
| "apply_Option WithInterruptAfter n = n\<lparr>nd_interruptAfter := True\<rparr>"

record ('a, 'e) StateGraph =
  sg_graph :: "('a, 'e) Graph"
  sg_errs :: "build_error list"

definition NewStateGraph :: "'a StateSchema option \<Rightarrow> ('a, 'e) StateGraph" where
  "NewStateGraph schema = \<lparr>sg_graph = graph_New schema, sg_errs = []\<rparr>"

definition addBuildError :: "build_error \<Rightarrow> ('a, 'e) StateGraph \<Rightarrow> ('a, 'e) StateGraph" where
  "addBuildError e sg = sg\<lparr>sg_errs := sg_errs sg @ [e]\<rparr>"

definition ChannelTriggerPrefix :: string where "ChannelTriggerPrefix = ''trigger:''"
definition ChannelBranchPrefix :: string where "ChannelBranchPrefix = ''branch:to:''"
definition ChannelJoinPrefix :: string where "ChannelJoinPrefix = ''join:to:''"

definition triggerChannel :: "string \<Rightarrow> string" where
  "triggerChannel i = ChannelTriggerPrefix @ i"

definition branchChannel :: "string \<Rightarrow> string" where
  "branchChannel to = ChannelBranchPrefix @ to"

definition channelUpdateMarker :: "'a any" where
  "channelUpdateMarker = AnyString ''update''"

definition sg_AddNode ::
    "string \<Rightarrow> ('a State \<Rightarrow> 'e + 'a NodeResult) \<Rightarrow> Option list \<Rightarrow> ('a, 'e) StateGraph \<Rightarrow> ('a, 'e) StateGraph" where
  "sg_AddNode i f opts sg =
     (let n = fold apply_Option opts
                \<lparr>nd_ID = i, nd_Function = f, nd_triggers = [], nd_channels = [], nd_writers = [], nd_destinations = [],
                 nd_ends = [], nd_interruptBefore = False, nd_interruptAfter = False\<rparr>
      in case graph_addNode n (sg_graph sg) of
           Inl e \<Rightarrow> addBuildError e sg
         | Inr g \<Rightarrow>
             (let channelName = triggerChannel i;
                  g = graph_addChannel channelName BehaviorLastValue g;
                  g = graph_addNodeTriggerChannel i channelName g
              in sg\<lparr>sg_graph := g\<rparr>))"

fun sg_setStaticInterruptNodes :: "string list \<Rightarrow> bool \<Rightarrow> ('a, 'e) StateGraph \<Rightarrow> ('a, 'e) StateGraph" where
  "sg_setStaticInterruptNodes [] early sg = sg"
| "sg_setStaticInterruptNodes (i # is) early sg =
     (let sg = (if graph_has i (sg_graph sg)
                then sg\<lparr>sg_graph := on_node i (\<lambda>n. if early then n\<lparr>nd_interruptBefore := True\<rparr>
                                                      else n\<lparr>nd_interruptAfter := True\<rparr>) (sg_graph sg)\<rparr>
                else addBuildError (ErrNodeNotFound i) sg)
      in sg_setStaticInterruptNodes is early sg)"

definition sg_AddEdge :: "string \<Rightarrow> string \<Rightarrow> ('a, 'e) StateGraph \<Rightarrow> ('a, 'e) StateGraph" where
  "sg_AddEdge from to sg =
     (case graph_addEdge \<lparr>e_From = from, e_To = to\<rparr> (sg_graph sg) of
        Inl e \<Rightarrow> addBuildError e sg
      | Inr g \<Rightarrow>
          (let channelName = branchChannel to;
               g = graph_addChannel channelName BehaviorLastValue g;
               g = graph_addNodeTriggerChannel to channelName g;
               g = graph_addNodeTrigger channelName to g;
               g = graph_addNodeWriter from \<lparr>we_Channel = channelName, we_Value = channelUpdateMarker\<rparr> g
           in sg\<lparr>sg_graph := g\<rparr>))"

definition normalizeJoinStarts :: "string list \<Rightarrow> string list" where
  "normalizeJoinStarts fromNodes =
     sort (rev (remdups (rev (filter (\<lambda>f. f \<noteq> [] \<and> f \<noteq> Start \<and> f \<noteq> End) fromNodes))))"

text \<open>
  The key of a join: the starts, each behind its length in eight bytes, hashed (\<open>sha\<close> stands for
  SHA-256 as it is printed in hexadecimal).
\<close>

definition bigEndian64 :: "nat \<Rightarrow> string" where
  "bigEndian64 n = map (\<lambda>i. char_of (n div 256 ^ (7 - i))) [0..<8]"

lemma bigEndian64_code [code]: "bigEndian64 n = map (\<lambda>i. char_of (int n div 256 ^ (7 - i))) [0..<8]"
proof -
  have "char_of (int k) = (char_of k :: char)" for k
    by (simp add: char_of_def bit_simps)
  then have "char_of (int n div 256 ^ j) = (char_of (n div 256 ^ j) :: char)" for j
    by (metis of_nat_div of_nat_numeral of_nat_power)
  then show ?thesis by (simp add: bigEndian64_def)
qed

definition joinEncoding :: "string list \<Rightarrow> string" where
  "joinEncoding starts = concat (map (\<lambda>s. bigEndian64 (length s) @ s) starts)"

definition joinChannelName :: "(string \<Rightarrow> string) \<Rightarrow> string \<Rightarrow> string list \<Rightarrow> string" where
  "joinChannelName sha to starts = ChannelJoinPrefix @ to @ '':from:'' @ sha (joinEncoding starts)"

text \<open>The loop that adds the edges of a join; it stops at the first error.\<close>

fun join_edges :: "string list \<Rightarrow> string \<Rightarrow> ('a, 'e) StateGraph \<Rightarrow> bool \<times> ('a, 'e) StateGraph" where
  "join_edges [] to sg = (True, sg)"
| "join_edges (from # fs) to sg =
     (case graph_addEdge \<lparr>e_From = from, e_To = to\<rparr> (sg_graph sg) of
        Inl e \<Rightarrow> (False, addBuildError e sg)
      | Inr g \<Rightarrow> join_edges fs to (sg\<lparr>sg_graph := g\<rparr>))"

definition sg_AddJoinEdge ::
    "(string \<Rightarrow> string) \<Rightarrow> string list \<Rightarrow> string \<Rightarrow> ('a, 'e) StateGraph \<Rightarrow> ('a, 'e) StateGraph" where
  "sg_AddJoinEdge sha fromNodes to sg =
     (let starts = normalizeJoinStarts fromNodes in
      if to = [] \<or> to = Start \<or> starts = [] then sg
      else if to \<noteq> End \<and> \<not> graph_has to (sg_graph sg) then addBuildError (ErrTargetMissing to) sg
      else case find (\<lambda>f. \<not> graph_has f (sg_graph sg)) starts of
             Some f \<Rightarrow> addBuildError (ErrSourceMissing f) sg
           | None \<Rightarrow>
               (case join_edges starts to sg of
                  (False, sg) \<Rightarrow> sg
                | (True, sg) \<Rightarrow>
                    (let channelName = joinChannelName sha to starts;
                         g = graph_addChannel channelName BehaviorBarrier (sg_graph sg);
                         g = g\<lparr>g_channels := on_channel channelName (ch_SetBarrierExpected starts) (g_channels g)\<rparr>;
                         g = graph_addNodeTriggerChannel to channelName g;
                         g = graph_addNodeTrigger channelName to g;
                         g = fold (\<lambda>from. graph_addNodeWriter from \<lparr>we_Channel = channelName, we_Value = AnyString from\<rparr>)
                               starts g
                     in sg\<lparr>sg_graph := g\<rparr>)))"

definition sg_AddConditionalEdges ::
    "string \<Rightarrow> ('a State \<Rightarrow> 'e + string list) \<Rightarrow> (string \<times> string) list \<Rightarrow> ('a, 'e) StateGraph \<Rightarrow> ('a, 'e) StateGraph" where
  "sg_AddConditionalEdges from cond pathMap sg =
     (case graph_addConditionalEdge \<lparr>c_From = from, c_Condition = Some cond, c_PathMap = pathMap\<rparr> (sg_graph sg) of
        Inl e \<Rightarrow> addBuildError e sg
      | Inr g \<Rightarrow> sg\<lparr>sg_graph := g\<rparr>)"

text \<open>A condition with a single result, as \<open>wrapperCondFunc\<close> wraps it.\<close>

definition wrapperCondFunc :: "('a State \<Rightarrow> 'e + string) \<Rightarrow> 'a State \<Rightarrow> 'e + string list" where
  "wrapperCondFunc cond s = (case cond s of Inl e \<Rightarrow> Inl e | Inr next \<Rightarrow> Inr [next])"

definition sg_SetEntryPoint :: "string \<Rightarrow> ('a, 'e) StateGraph \<Rightarrow> ('a, 'e) StateGraph" where
  "sg_SetEntryPoint i sg =
     (case graph_setEntryPoint i (sg_graph sg) of
        Inl e \<Rightarrow> addBuildError e sg
      | Inr g \<Rightarrow> sg_AddEdge Start i (sg\<lparr>sg_graph := g\<rparr>))"

definition sg_SetFinishPoint :: "string \<Rightarrow> ('a, 'e) StateGraph \<Rightarrow> ('a, 'e) StateGraph" where
  "sg_SetFinishPoint i sg = sg_AddEdge i End sg"

definition sg_Compile :: "('a, 'e) StateGraph \<Rightarrow> build_error + ('a, 'e) Graph" where
  "sg_Compile sg =
     (if sg_errs sg \<noteq> [] then Inl (ErrJoined (sg_errs sg))
      else case graph_validate (sg_graph sg) of Some e \<Rightarrow> Inl e | None \<Rightarrow> Inr (sg_graph sg))"

section \<open>What the primitive operations change\<close>

lemma on_node_simps [simp]:
  "graph_Node k (on_node i f g) = (if k = i then map_option f (graph_Node k g) else graph_Node k g)"
  "g_edges (on_node i f g) = g_edges g" "g_conditionalEdges (on_node i f g) = g_conditionalEdges g"
  "g_entryPoint (on_node i f g) = g_entryPoint g" "g_channels (on_node i f g) = g_channels g"
  "g_triggerToNodes (on_node i f g) = g_triggerToNodes g" "g_schema (on_node i f g) = g_schema g"
  "graph_triggers ch (on_node i f g) = graph_triggers ch g" "graph_has k (on_node i f g) = graph_has k g"
  by (auto simp: on_node_def graph_Node_def graph_triggers_def graph_has_def map_of_map_entry split: option.splits)

lemma addChannel_simps [simp]:
  "graph_Node k (graph_addChannel name b g) = graph_Node k g" "graph_has k (graph_addChannel name b g) = graph_has k g"
  "g_edges (graph_addChannel name b g) = g_edges g" "g_conditionalEdges (graph_addChannel name b g) = g_conditionalEdges g"
  "g_entryPoint (graph_addChannel name b g) = g_entryPoint g" "g_schema (graph_addChannel name b g) = g_schema g"
  "graph_triggers ch (graph_addChannel name b g) = graph_triggers ch g"
  "g_channels (graph_addChannel name b g) = AddChannel name b (g_channels g)"
  by (simp_all add: graph_addChannel_def graph_Node_def graph_triggers_def graph_has_def)

lemma addNodeTrigger_simps [simp]:
  "graph_Node k (graph_addNodeTrigger c i g) = graph_Node k g" "graph_has k (graph_addNodeTrigger c i g) = graph_has k g"
  "g_edges (graph_addNodeTrigger c i g) = g_edges g" "g_conditionalEdges (graph_addNodeTrigger c i g) = g_conditionalEdges g"
  "g_entryPoint (graph_addNodeTrigger c i g) = g_entryPoint g" "g_schema (graph_addNodeTrigger c i g) = g_schema g"
  "g_channels (graph_addNodeTrigger c i g) = g_channels g"
  "graph_triggers ch (graph_addNodeTrigger c i g) =
     (if ch = c \<and> i \<notin> set (graph_triggers ch g) then graph_triggers ch g @ [i] else graph_triggers ch g)"
  by (auto simp: graph_addNodeTrigger_def graph_Node_def graph_triggers_def graph_has_def Let_def update_conv'
      split: option.splits)

lemma graph_update_simps [simp]:
  "graph_Node k (g\<lparr>g_edges := es\<rparr>) = graph_Node k g" "graph_has k (g\<lparr>g_edges := es\<rparr>) = graph_has k g"
  "graph_triggers ch (g\<lparr>g_edges := es\<rparr>) = graph_triggers ch g"
  "graph_Node k (g\<lparr>g_conditionalEdges := cs\<rparr>) = graph_Node k g" "graph_has k (g\<lparr>g_conditionalEdges := cs\<rparr>) = graph_has k g"
  "graph_triggers ch (g\<lparr>g_conditionalEdges := cs\<rparr>) = graph_triggers ch g"
  "graph_Node k (g\<lparr>g_entryPoint := e\<rparr>) = graph_Node k g" "graph_has k (g\<lparr>g_entryPoint := e\<rparr>) = graph_has k g"
  "graph_triggers ch (g\<lparr>g_entryPoint := e\<rparr>) = graph_triggers ch g"
  "graph_Node k (g\<lparr>g_channels := m\<rparr>) = graph_Node k g" "graph_has k (g\<lparr>g_channels := m\<rparr>) = graph_has k g"
  "graph_triggers ch (g\<lparr>g_channels := m\<rparr>) = graph_triggers ch g"
  by (simp_all add: graph_Node_def graph_triggers_def graph_has_def)

lemma addNode_Node [simp]:
  "graph_Node k (g\<lparr>g_nodes := AList.update i n (g_nodes g)\<rparr>) = (if k = i then Some n else graph_Node k g)"
  "graph_has k (g\<lparr>g_nodes := AList.update i n (g_nodes g)\<rparr>) = (k = i \<or> graph_has k g)"
  "graph_triggers ch (g\<lparr>g_nodes := ns\<rparr>) = graph_triggers ch g"
  by (simp_all add: graph_Node_def graph_has_def graph_triggers_def update_conv')

lemma apply_Option_frame [simp]:
  "nd_ID (fold apply_Option opts n) = nd_ID n" "nd_writers (fold apply_Option opts n) = nd_writers n"
  "nd_Function (fold apply_Option opts n) = nd_Function n" "nd_triggers (fold apply_Option opts n) = nd_triggers n"
proof -
  have 1: "nd_ID (apply_Option q m) = nd_ID m \<and> nd_writers (apply_Option q m) = nd_writers m \<and>
      nd_Function (apply_Option q m) = nd_Function m \<and> nd_triggers (apply_Option q m) = nd_triggers m" for q and m :: "('a, 'e) Node"
    by (cases q) simp_all
  show "nd_ID (fold apply_Option opts n) = nd_ID n" "nd_writers (fold apply_Option opts n) = nd_writers n"
    "nd_Function (fold apply_Option opts n) = nd_Function n" "nd_triggers (fold apply_Option opts n) = nd_triggers n"
    by (induction opts arbitrary: n) (simp_all add: 1)
qed

section \<open>Names of channels\<close>

lemma channel_names [simp]:
  "triggerChannel i \<noteq> branchChannel t" "branchChannel t \<noteq> triggerChannel i"
  "triggerChannel i \<noteq> joinChannelName sha to S" "joinChannelName sha to S \<noteq> triggerChannel i"
  "branchChannel t \<noteq> joinChannelName sha to S" "joinChannelName sha to S \<noteq> branchChannel t"
  "triggerChannel i = triggerChannel j \<longleftrightarrow> i = j" "branchChannel t = branchChannel u \<longleftrightarrow> t = u"
  by (simp_all add: joinChannelName_def ChannelJoinPrefix_def triggerChannel_def branchChannel_def
      ChannelTriggerPrefix_def ChannelBranchPrefix_def)

lemma bigEndian64_inj: "m < 2 ^ 64 \<Longrightarrow> n < 2 ^ 64 \<Longrightarrow> bigEndian64 m = bigEndian64 n \<Longrightarrow> m = n"
proof -
  assume m: "m < 2 ^ 64" and n: "n < 2 ^ 64" and eq: "bigEndian64 m = bigEndian64 n"
  have digit: "(m div 256 ^ j) mod 256 = (n div 256 ^ j) mod 256" if "j < 8" for j
  proof -
    have "bigEndian64 m ! (7 - j) = bigEndian64 n ! (7 - j)" using eq by simp
    moreover have "bigEndian64 x ! (7 - j) = char_of (x div 256 ^ j)" for x
    proof -
      have "bigEndian64 x ! (7 - j) = char_of (x div 256 ^ (7 - [0..<8] ! (7 - j)))"
        unfolding bigEndian64_def by (rule nth_map) simp
      also have "[0..<8] ! (7 - j) = 7 - j" using nth_upt [of 0 "7 - j" 8] by simp
      finally show ?thesis using that by simp
    qed
    ultimately have "char_of (m div 256 ^ j) = (char_of (n div 256 ^ j) :: char)" by simp
    then have "of_char (char_of (m div 256 ^ j) :: char) = (of_char (char_of (n div 256 ^ j) :: char) :: nat)" by simp
    then show ?thesis by simp
  qed
  have low: "k < 8 \<Longrightarrow> m mod 256 ^ Suc k = n mod 256 ^ Suc k" for k
  proof (induction k)
    case 0
    show ?case using digit [of 0] by simp
  next
    case (Suc k)
    have split: "x mod 256 ^ Suc (Suc k) = 256 ^ Suc k * ((x div 256 ^ Suc k) mod 256) + x mod 256 ^ Suc k" for x :: nat
      using mod_mult2_eq [of x "256 ^ Suc k" 256] by (simp add: mult.commute)
    show ?case unfolding split using Suc digit [of "Suc k"] by simp
  qed
  from low [of 7] m n show "m = n" by simp
qed

lemma length_bigEndian64 [simp]: "length (bigEndian64 n) = 8"
  by (simp add: bigEndian64_def)

lemma joinEncoding_inj:
  "\<forall>s \<in> set ss. length s < 2 ^ 64 \<Longrightarrow> \<forall>t \<in> set ts. length t < 2 ^ 64 \<Longrightarrow> joinEncoding ss = joinEncoding ts \<Longrightarrow> ss = ts"
proof (induction ss arbitrary: ts)
  case Nil
  then show ?case by (cases ts) (auto simp: joinEncoding_def dest: arg_cong [of _ _ length])
next
  case (Cons s ss)
  then obtain t ts' where ts: "ts = t # ts'"
    by (cases ts) (auto simp: joinEncoding_def dest: arg_cong [of _ _ length])
  have eq: "bigEndian64 (length s) @ s @ joinEncoding ss = bigEndian64 (length t) @ t @ joinEncoding ts'"
    using Cons.prems(3) by (simp add: joinEncoding_def ts)
  then have "bigEndian64 (length s) = bigEndian64 (length t)" and rest: "s @ joinEncoding ss = t @ joinEncoding ts'"
    by (simp_all add: append_eq_append_conv)
  then have "length s = length t" using Cons.prems(1,2) ts by (intro bigEndian64_inj) auto
  with rest have "s = t" "joinEncoding ss = joinEncoding ts'" by simp_all
  then show ?case using Cons.IH [of ts'] Cons.prems ts by simp
qed

text \<open>A digest of fixed length that has no collision among the joins of a graph.\<close>

definition good_digest :: "(string \<Rightarrow> string) \<Rightarrow> string list set \<Rightarrow> bool" where
  "good_digest sha J \<longleftrightarrow> (\<forall>x. length (sha x) = 64) \<and> inj_on sha (joinEncoding ` J) \<and> (\<forall>S \<in> J. \<forall>s \<in> set S. length s < 2 ^ 64)"

lemma joinChannelName_inj:
  assumes "good_digest sha J" "S \<in> J" "S' \<in> J" "joinChannelName sha t S = joinChannelName sha t' S'"
  shows "t = t' \<and> S = S'"
proof -
  let ?x = "sha (joinEncoding S)" and ?y = "sha (joinEncoding S')"
  have "(t @ '':from:'') @ ?x = (t' @ '':from:'') @ ?y" using assms(4) by (simp add: joinChannelName_def)
  moreover have "length ?x = length ?y" using assms(1) by (simp add: good_digest_def)
  ultimately have "t @ '':from:'' = t' @ '':from:''" "?x = ?y" by (simp_all add: append_eq_append_conv del: append_assoc)
  then have "t = t'" "joinEncoding S = joinEncoding S'" using assms(1-3) by (auto simp: good_digest_def inj_on_def)
  then show ?thesis using joinEncoding_inj [of S S'] assms(1-3) by (auto simp: good_digest_def)
qed

end
