(* ===== verification/GraphWiring.thy ===== *)
theory GraphWiring
  imports Graph
begin

text \<open>
  What the builder of \<open>state_graph.go\<close> makes of a list of calls: the invariant that relates nodes,
  edges, channels, triggers and writers of the graph to the edges and joins asked for, its
  preservation by every call, and the property of every graph that compiles.
\<close>

section \<open>How a builder wires a graph\<close>

datatype ('a, 'e) build_op =
    BAddNode string "'a State \<Rightarrow> 'e + 'a NodeResult" "Option list" | BInterrupts "string list" bool
  | BAddEdge string string | BAddJoinEdge "string list" string
  | BAddConditionalEdges string "'a State \<Rightarrow> 'e + string list" "(string \<times> string) list"
  | BSetEntryPoint string | BSetFinishPoint string

fun build_step :: "(string \<Rightarrow> string) \<Rightarrow> ('a, 'e) build_op \<Rightarrow> ('a, 'e) StateGraph \<Rightarrow> ('a, 'e) StateGraph" where
  "build_step sha (BAddNode i f opts) sg = sg_AddNode i f opts sg"
| "build_step sha (BInterrupts is early) sg = sg_setStaticInterruptNodes is early sg"
| "build_step sha (BAddEdge f t) sg = sg_AddEdge f t sg"
| "build_step sha (BAddJoinEdge fs t) sg = sg_AddJoinEdge sha fs t sg"
| "build_step sha (BAddConditionalEdges f c pm) sg = sg_AddConditionalEdges f c pm sg"
| "build_step sha (BSetEntryPoint i) sg = sg_SetEntryPoint i sg"
| "build_step sha (BSetFinishPoint i) sg = sg_SetFinishPoint i sg"

definition build :: "(string \<Rightarrow> string) \<Rightarrow> 'a StateSchema option \<Rightarrow> ('a, 'e) build_op list \<Rightarrow> ('a, 'e) StateGraph" where
  "build sha schema ops = fold (build_step sha) ops (NewStateGraph schema)"

text \<open>The plain edges and the joins a call asks for.\<close>

fun op_edges :: "('a, 'e) build_op \<Rightarrow> (string \<times> string) set" where
  "op_edges (BAddEdge f t) = {(f, t)}"
| "op_edges (BSetEntryPoint i) = {(Start, i)}"
| "op_edges (BSetFinishPoint i) = {(i, End)}"
| "op_edges _ = {}"

fun op_joins :: "('a, 'e) build_op \<Rightarrow> (string list \<times> string) set" where
  "op_joins (BAddJoinEdge fs t) =
     (if t = [] \<or> t = Start \<or> normalizeJoinStarts fs = [] then {} else {(normalizeJoinStarts fs, t)})"
| "op_joins _ = {}"

definition all_edges :: "('a, 'e) build_op list \<Rightarrow> (string \<times> string) set" where
  "all_edges ops = (\<Union>op \<in> set ops. op_edges op)"

definition all_joins :: "('a, 'e) build_op list \<Rightarrow> (string list \<times> string) set" where
  "all_joins ops = (\<Union>op \<in> set ops. op_joins op)"

abbreviation plain_writer :: "string \<Rightarrow> 'a channelWriteEntry" where
  "plain_writer t \<equiv> \<lparr>we_Channel = branchChannel t, we_Value = channelUpdateMarker\<rparr>"

abbreviation join_writer :: "(string \<Rightarrow> string) \<Rightarrow> string \<Rightarrow> string list \<Rightarrow> string \<Rightarrow> 'a channelWriteEntry" where
  "join_writer sha t S i \<equiv> \<lparr>we_Channel = joinChannelName sha t S, we_Value = AnyString i\<rparr>"

definition node_writers :: "(string \<Rightarrow> string) \<Rightarrow> (string \<times> string) set \<Rightarrow> (string list \<times> string) set \<Rightarrow> string \<Rightarrow> 'a channelWriteEntry set" where
  "node_writers sha E J i =
     plain_writer ` {t. (i, t) \<in> E} \<union> (\<lambda>(S, t). join_writer sha t S i) ` {(S, t). (S, t) \<in> J \<and> i \<in> set S}"

definition wired_nodes :: "(string \<Rightarrow> string) \<Rightarrow> (string \<times> string) set \<Rightarrow> (string list \<times> string) set \<Rightarrow> ('a, 'e) Graph \<Rightarrow> bool" where
  "wired_nodes sha E J g \<longleftrightarrow>
     (\<forall>i n. graph_Node i g = Some n \<longrightarrow> nd_ID n = i \<and> i \<noteq> [] \<and>
        (i \<noteq> Start \<longrightarrow> set (nd_writers n) = node_writers sha E J i))"

definition wired_ends :: "(string \<times> string) set \<Rightarrow> (string list \<times> string) set \<Rightarrow> ('a, 'e) Graph \<Rightarrow> bool" where
  "wired_ends E J g \<longleftrightarrow>
     (\<forall>f t. (f, t) \<in> E \<longrightarrow> (f = Start \<or> graph_has f g) \<and> (t = End \<or> graph_has t g)) \<and>
     (\<forall>S t. (S, t) \<in> J \<longrightarrow> (t = End \<or> graph_has t g) \<and> (\<forall>f. f \<in> set S \<longrightarrow> graph_has f g \<and> f \<noteq> Start))"

definition wired_edges :: "(string \<times> string) set \<Rightarrow> (string list \<times> string) set \<Rightarrow> ('a, 'e) Graph \<Rightarrow> bool" where
  "wired_edges E J g \<longleftrightarrow>
     (\<forall>f. set (g_edges g f) = {\<lparr>e_From = f, e_To = t\<rparr> |t. (f, t) \<in> E \<or> (\<exists>S. (S, t) \<in> J \<and> f \<in> set S)})"

definition wired_conds :: "('a, 'e) Graph \<Rightarrow> bool" where
  "wired_conds g \<longleftrightarrow>
     (\<forall>f c. g_conditionalEdges g f = Some c \<longrightarrow> c_From c = f \<and> c_Condition c \<noteq> None \<and> (f = Start \<or> graph_has f g) \<and>
        (\<forall>t. t \<in> snd ` set (c_PathMap c) \<longrightarrow> t = End \<or> graph_has t g))"

definition wired_channels :: "(string \<Rightarrow> string) \<Rightarrow> (string \<times> string) set \<Rightarrow> (string list \<times> string) set \<Rightarrow> ('a, 'e) Graph \<Rightarrow> bool" where
  "wired_channels sha E J g \<longleftrightarrow>
     (\<forall>f t. (f, t) \<in> E \<longrightarrow>
        GetChannel (branchChannel t) (g_channels g) = Some (NewChannel (branchChannel t) BehaviorLastValue)) \<and>
     (\<forall>S t. (S, t) \<in> J \<longrightarrow> GetChannel (joinChannelName sha t S) (g_channels g) =
        Some (ch_SetBarrierExpected S (NewChannel (joinChannelName sha t S) BehaviorBarrier))) \<and>
     (\<forall>ch. GetChannel ch (g_channels g) \<noteq> None \<longrightarrow>
        (\<exists>i. ch = triggerChannel i) \<or> (\<exists>f t. (f, t) \<in> E \<and> ch = branchChannel t) \<or>
        (\<exists>S t. (S, t) \<in> J \<and> ch = joinChannelName sha t S))"

definition wired_triggers :: "(string \<Rightarrow> string) \<Rightarrow> (string \<times> string) set \<Rightarrow> (string list \<times> string) set \<Rightarrow> ('a, 'e) Graph \<Rightarrow> bool" where
  "wired_triggers sha E J g \<longleftrightarrow>
     (\<forall>f t. (f, t) \<in> E \<longrightarrow> graph_triggers (branchChannel t) g = [t]) \<and>
     (\<forall>S t. (S, t) \<in> J \<longrightarrow> graph_triggers (joinChannelName sha t S) g = [t]) \<and>
     (\<forall>ch. graph_triggers ch g \<noteq> [] \<longrightarrow>
        (\<exists>f t. (f, t) \<in> E \<and> ch = branchChannel t) \<or> (\<exists>S t. (S, t) \<in> J \<and> ch = joinChannelName sha t S))"

definition wired :: "(string \<Rightarrow> string) \<Rightarrow> (string \<times> string) set \<Rightarrow> (string list \<times> string) set \<Rightarrow> ('a, 'e) Graph \<Rightarrow> bool" where
  "wired sha E J g \<longleftrightarrow> wired_nodes sha E J g \<and> wired_ends E J g \<and> wired_edges E J g \<and> wired_conds g \<and>
     wired_channels sha E J g \<and> wired_triggers sha E J g"

lemmas wired_defs =
  wired_nodes_def wired_ends_def wired_edges_def wired_conds_def wired_channels_def wired_triggers_def

lemma wired_empty: "wired sha {} {} (graph_New schema)"
  by (simp add: wired_def wired_defs graph_New_def graph_Node_def graph_triggers_def)

lemma graph_has_iff: "graph_has i g \<longleftrightarrow> (\<exists>n. graph_Node i g = Some n)"
  by (auto simp: graph_has_def)

text \<open>An operation that only changes other fields of nodes.\<close>

lemma wired_nodesD:
  "wired_nodes sha E J g \<Longrightarrow> graph_Node i g = Some n \<Longrightarrow>
   nd_ID n = i \<and> i \<noteq> [] \<and> (i \<noteq> Start \<longrightarrow> set (nd_writers n) = node_writers sha E J i)"
  unfolding wired_nodes_def by blast

lemma wired_channelsD:
  assumes "wired_channels sha E J g"
  shows "(f, t) \<in> E \<Longrightarrow> GetChannel (branchChannel t) (g_channels g) = Some (NewChannel (branchChannel t) BehaviorLastValue)"
    and "(S, t) \<in> J \<Longrightarrow> GetChannel (joinChannelName sha t S) (g_channels g) =
        Some (ch_SetBarrierExpected S (NewChannel (joinChannelName sha t S) BehaviorBarrier))"
    and "GetChannel ch (g_channels g) = Some c \<Longrightarrow>
        (\<exists>i. ch = triggerChannel i) \<or> (\<exists>f t. (f, t) \<in> E \<and> ch = branchChannel t) \<or>
        (\<exists>S t. (S, t) \<in> J \<and> ch = joinChannelName sha t S)"
  using assms unfolding wired_channels_def by (blast+)

lemma wired_triggersD:
  assumes "wired_triggers sha E J g"
  shows "(f, t) \<in> E \<Longrightarrow> graph_triggers (branchChannel t) g = [t]"
    and "(S, t) \<in> J \<Longrightarrow> graph_triggers (joinChannelName sha t S) g = [t]"
    and "graph_triggers ch g \<noteq> [] \<Longrightarrow>
        (\<exists>f t. (f, t) \<in> E \<and> ch = branchChannel t) \<or> (\<exists>S t. (S, t) \<in> J \<and> ch = joinChannelName sha t S)"
  using assms unfolding wired_triggers_def by (blast+)

lemma wired_ends_mono: "wired_ends E J g \<Longrightarrow> (\<And>k. graph_has k g \<Longrightarrow> graph_has k g') \<Longrightarrow> wired_ends E J g'"
  unfolding wired_ends_def by blast

lemma wired_conds_mono:
  assumes "wired_conds g" "\<And>k. graph_has k g \<Longrightarrow> graph_has k g'" "g_conditionalEdges g' = g_conditionalEdges g"
  shows "wired_conds g'"
  using assms(1,2) unfolding wired_conds_def assms(3) by blast

lemma wired_mono:
  assumes w: "wired sha E J g" and mono: "\<And>k. graph_has k g \<Longrightarrow> graph_has k g'"
    and eq: "g_edges g' = g_edges g" "g_conditionalEdges g' = g_conditionalEdges g" "\<And>ch. graph_triggers ch g' = graph_triggers ch g"
    and n: "wired_nodes sha E J g'" and c: "wired_channels sha E J g'"
  shows "wired sha E J g'"
proof -
  have "wired_ends E J g'" "wired_conds g'"
    using w mono eq(2) wired_ends_mono [of E J g g'] wired_conds_mono [of g g'] by (simp_all add: wired_def)
  moreover have "wired_edges E J g'" using w unfolding wired_def wired_edges_def eq(1) by (elim conjE)
  moreover have "wired_triggers sha E J g'" using w unfolding wired_def wired_triggers_def eq(3) by (elim conjE, intro conjI)
  ultimately show ?thesis using n c by (simp add: wired_def)
qed

lemma wired_on_node:
  assumes w: "wired sha E J g" and f: "\<And>n. nd_ID (f n) = nd_ID n \<and> nd_writers (f n) = nd_writers n"
  shows "wired sha E J (on_node i f g)"
proof (rule wired_mono [OF w])
  have "nd_ID m = k \<and> k \<noteq> [] \<and> (k \<noteq> Start \<longrightarrow> set (nd_writers m) = node_writers sha E J k)"
    if m: "graph_Node k (on_node i f g) = Some m" for k m
  proof -
    obtain n where n: "graph_Node k g = Some n" "m = (if k = i then f n else n)"
      using m by (cases "graph_Node k g") (simp_all split: if_splits)
    then have "nd_ID m = nd_ID n" "nd_writers m = nd_writers n" using f [of n] by simp_all
    moreover have "wired_nodes sha E J g" using w by (simp add: wired_def)
    ultimately show ?thesis using wired_nodesD [OF _ n(1)] by metis
  qed
  then show "wired_nodes sha E J (on_node i f g)" unfolding wired_nodes_def by blast
  show "wired_channels sha E J (on_node i f g)" using w by (simp add: wired_def wired_channels_def)
qed simp_all

lemma wired_interrupts:
  "wired sha E J (sg_graph sg) \<Longrightarrow> wired sha E J (sg_graph (sg_setStaticInterruptNodes is early sg))"
proof (induction "is" arbitrary: sg)
  case (Cons i "is")
  have "wired sha E J (on_node i (\<lambda>n. if early then n\<lparr>nd_interruptBefore := True\<rparr> else n\<lparr>nd_interruptAfter := True\<rparr>) (sg_graph sg))"
    using Cons.prems by (rule wired_on_node) simp
  then show ?case using Cons by (simp add: Let_def addBuildError_def)
qed simp

lemma wired_conditional:
  assumes w: "wired sha E J g" and a: "graph_addConditionalEdge c g = Inr g'"
  shows "wired sha E J g'"
proof -
  have path: "path_error ps g = None \<Longrightarrow> t \<in> snd ` set ps \<Longrightarrow> t = End \<or> graph_has t g" for ps t
    by (induction ps) (force split: if_splits)+
  have c: "c_Condition c \<noteq> None" "c_From c = Start \<or> graph_has (c_From c) g" "path_error (c_PathMap c) g = None"
    and g': "g' = g\<lparr>g_conditionalEdges := (g_conditionalEdges g)(c_From c \<mapsto> c)\<rparr>"
    using a by (auto simp: graph_addConditionalEdge_def split: if_splits option.splits)
  have "wired_conds g'"
    using w c path [OF c(3)] unfolding wired_def wired_conds_def g' by (simp split: if_splits)
  moreover have "wired_nodes sha E J g'" "wired_channels sha E J g'" "wired_triggers sha E J g'" "wired_ends E J g'" "wired_edges E J g'"
    using w unfolding wired_def g' wired_nodes_def wired_channels_def wired_triggers_def wired_ends_def wired_edges_def by simp_all
  ultimately show ?thesis by (simp add: wired_def)
qed

lemma wired_channels_trigger:
  assumes w: "wired_channels sha E J g" and m: "g_channels g' = AddChannel (triggerChannel i) BehaviorLastValue (g_channels g)"
  shows "wired_channels sha E J g'"
proof -
  have "(\<exists>i. ch = triggerChannel i) \<or> (\<exists>f t. (f, t) \<in> E \<and> ch = branchChannel t) \<or>
      (\<exists>S t. (S, t) \<in> J \<and> ch = joinChannelName sha t S)" if "GetChannel ch (g_channels g') \<noteq> None" for ch
  proof (cases "ch = triggerChannel i")
    case False
    then obtain c where "GetChannel ch (g_channels g) = Some c" using \<open>GetChannel ch (g_channels g') \<noteq> None\<close> by (auto simp: m)
    from wired_channelsD(3) [OF w this] show ?thesis .
  qed blast
  moreover have "GetChannel (branchChannel t) (g_channels g') = GetChannel (branchChannel t) (g_channels g)"
    "GetChannel (joinChannelName sha t S) (g_channels g') = GetChannel (joinChannelName sha t S) (g_channels g)" for t S
    by (simp_all add: m)
  ultimately show ?thesis
    using wired_channelsD(1,2) [OF w] unfolding wired_channels_def by metis
qed

lemma wired_addNode:
  assumes w: "wired sha E J g" and a: "graph_addNode n g = Inr g1" and i: "nd_ID n = i" "nd_writers n = []"
  shows "wired sha E J (graph_addNodeTriggerChannel i (triggerChannel i) (graph_addChannel (triggerChannel i) BehaviorLastValue g1))"
proof -
  have new: "i \<noteq> []" "\<not> graph_has i g" and g1: "g1 = g\<lparr>g_nodes := AList.update i n (g_nodes g)\<rparr>"
    using a i by (auto simp: graph_addNode_def split: if_splits)
  have none: "node_writers sha E J i = {}" if "i \<noteq> Start"
  proof -
    have "(i, t) \<notin> E" "(S, t) \<in> J \<Longrightarrow> i \<notin> set S" for S t
      using w new(2) that unfolding wired_def wired_ends_def by blast+
    then show ?thesis by (auto simp: node_writers_def)
  qed
  let ?g = "graph_addChannel (triggerChannel i) BehaviorLastValue g1"
  have "nd_ID m = k \<and> k \<noteq> [] \<and> (k \<noteq> Start \<longrightarrow> set (nd_writers m) = node_writers sha E J k)"
    if m: "graph_Node k ?g = Some m" for k m
  proof (cases "k = i")
    case True
    then have "m = n" using m by (simp add: g1)
    then show ?thesis using i new none True by auto
  next
    case False
    then have "graph_Node k g = Some m" using m by (simp add: g1)
    moreover have "wired_nodes sha E J g" using w by (simp add: wired_def)
    ultimately show ?thesis by (rule wired_nodesD [rotated])
  qed
  then have nodes: "wired_nodes sha E J ?g" unfolding wired_nodes_def by blast
  have "wired sha E J ?g"
  proof (rule wired_mono [OF w _ _ _ _ nodes])
    show "wired_channels sha E J ?g"
      by (rule wired_channels_trigger [of sha E J g]) (use w g1 in \<open>simp_all add: wired_def\<close>)
  qed (simp_all add: g1)
  then show ?thesis unfolding graph_addNodeTriggerChannel_def by (rule wired_on_node) simp
qed

text \<open>A plain edge.\<close>

lemma node_writers_edge:
  "node_writers sha (insert (f, t) E) J i = node_writers sha E J i \<union> (if i = f then {plain_writer t} else {})"
  by (auto simp: node_writers_def)

lemma wired_addEdge:
  assumes w: "wired sha E J g" and a: "graph_addEdge \<lparr>e_From = f, e_To = t\<rparr> g = Inr g1"
  shows "wired sha (insert (f, t) E) J
    (graph_addNodeWriter f (plain_writer t) (graph_addNodeTrigger (branchChannel t) t
      (graph_addNodeTriggerChannel t (branchChannel t) (graph_addChannel (branchChannel t) BehaviorLastValue g1))))"
    (is "wired sha ?E J ?g")
proof -
  have has: "f = Start \<or> graph_has f g" "t = End \<or> graph_has t g"
    and g1: "g1 = g\<lparr>g_edges := (g_edges g)(f := g_edges g f @ [\<lparr>e_From = f, e_To = t\<rparr>])\<rparr>"
    using a by (auto simp: graph_addEdge_def split: if_splits)
  note defs = graph_addNodeWriter_def graph_addNodeTriggerChannel_def
  have parts: "wired_nodes sha E J g" "wired_ends E J g" "wired_edges E J g" "wired_conds g" "wired_channels sha E J g"
    "wired_triggers sha E J g" using w by (simp_all add: wired_def)
  have "nd_ID m = k \<and> k \<noteq> [] \<and> (k \<noteq> Start \<longrightarrow> set (nd_writers m) = node_writers sha ?E J k)"
    if m: "graph_Node k ?g = Some m" for k m
  proof -
    obtain n where n: "graph_Node k g = Some n" "nd_ID m = nd_ID n"
      "set (nd_writers m) = set (nd_writers n) \<union> (if k = f then {plain_writer t} else {})"
      using m by (cases "graph_Node k g") (auto simp: defs g1 split: if_splits)
    then show ?thesis using wired_nodesD [OF parts(1) n(1)] by (simp add: node_writers_edge)
  qed
  then have "wired_nodes sha ?E J ?g" unfolding wired_nodes_def by blast
  moreover have hask: "graph_has k ?g = graph_has k g" for k by (simp add: defs g1)
  have "wired_ends ?E J ?g" using parts(2) has unfolding wired_ends_def hask by blast
  moreover have "wired_edges ?E J ?g"
    using parts(3) unfolding wired_edges_def by (auto simp: defs g1)
  moreover have "wired_conds ?g"
    by (rule wired_conds_mono [OF parts(4)]) (simp_all add: defs g1)
  moreover have "wired_channels sha ?E J ?g"
  proof -
    have m: "GetChannel ch (g_channels ?g) =
        (if ch = branchChannel t then Some (NewChannel (branchChannel t) BehaviorLastValue) else GetChannel ch (g_channels g))" for ch
    proof (cases "GetChannel (branchChannel t) (g_channels g)")
      case (Some c)
      then obtain f' where "(f', t) \<in> E" using wired_channelsD(3) [OF parts(5) Some] by auto
      with Some wired_channelsD(1) [OF parts(5)] show ?thesis by (simp add: defs g1)
    qed (simp add: defs g1)
    have "(\<exists>i. ch = triggerChannel i) \<or> (\<exists>f' t'. (f', t') \<in> ?E \<and> ch = branchChannel t') \<or>
        (\<exists>S t. (S, t) \<in> J \<and> ch = joinChannelName sha t S)" if ne: "GetChannel ch (g_channels ?g) \<noteq> None" for ch
    proof (cases "ch = branchChannel t")
      case False
      then obtain c where "GetChannel ch (g_channels g) = Some c" using ne unfolding m by auto
      from wired_channelsD(3) [OF parts(5) this] show ?thesis by blast
    qed blast
    then show ?thesis
      using wired_channelsD(1,2) [OF parts(5)] unfolding wired_channels_def m by (intro conjI allI impI) auto
  qed
  moreover have "wired_triggers sha ?E J ?g"
  proof -
    have m: "graph_triggers ch ?g = (if ch = branchChannel t then [t] else graph_triggers ch g)" for ch
    proof (cases "graph_triggers (branchChannel t) g = []")
      case False
      then obtain f' where "(f', t) \<in> E" using wired_triggersD(3) [OF parts(6) False] by auto
      then have "graph_triggers (branchChannel t) g = [t]" by (rule wired_triggersD(1) [OF parts(6)])
      then show ?thesis by (simp add: defs g1)
    qed (simp add: defs g1)
    have "(\<exists>f' t'. (f', t') \<in> ?E \<and> ch = branchChannel t') \<or> (\<exists>S t. (S, t) \<in> J \<and> ch = joinChannelName sha t S)"
      if "graph_triggers ch ?g \<noteq> []" for ch
    proof (cases "ch = branchChannel t")
      case False
      then have "graph_triggers ch g \<noteq> []" using that unfolding m by simp
      from wired_triggersD(3) [OF parts(6) this] show ?thesis by blast
    qed blast
    then show ?thesis
      using wired_triggersD(1,2) [OF parts(6)] unfolding wired_triggers_def m by (intro conjI allI impI) auto
  qed
  ultimately show ?thesis by (simp add: wired_def)
qed

text \<open>A join.\<close>

lemma join_edges_ok:
  "join_edges fs t sg = (True, sg') \<Longrightarrow>
   \<exists>es. sg' = sg\<lparr>sg_graph := (sg_graph sg)\<lparr>g_edges := es\<rparr>\<rparr> \<and>
     (\<forall>k. set (es k) = set (g_edges (sg_graph sg) k) \<union> (if k \<in> set fs then {\<lparr>e_From = k, e_To = t\<rparr>} else {}))"
proof (induction fs arbitrary: sg)
  case Nil
  then show ?case by (intro exI [of _ "g_edges (sg_graph sg)"]) simp
next
  case (Cons f fs)
  let ?es = "(g_edges (sg_graph sg))(f := g_edges (sg_graph sg) f @ [\<lparr>e_From = f, e_To = t\<rparr>])"
  have "join_edges fs t (sg\<lparr>sg_graph := (sg_graph sg)\<lparr>g_edges := ?es\<rparr>\<rparr>) = (True, sg')"
    using Cons.prems by (auto simp: graph_addEdge_def split: if_splits sum.splits)
  from Cons.IH [OF this] obtain es where
    "sg' = sg\<lparr>sg_graph := (sg_graph sg)\<lparr>g_edges := es\<rparr>\<rparr>"
    "\<forall>k. set (es k) = set (?es k) \<union> (if k \<in> set fs then {\<lparr>e_From = k, e_To = t\<rparr>} else {})" by auto
  then show ?case by (intro exI [of _ es]) auto
qed

lemma join_edges_fail: "join_edges fs t sg = (False, sg') \<Longrightarrow> sg_errs sg' \<noteq> []"
  by (induction fs arbitrary: sg) (auto simp: addBuildError_def split: sum.splits)

abbreviation join_fold ::
    "(string \<Rightarrow> string) \<Rightarrow> string \<Rightarrow> string list \<Rightarrow> string list \<Rightarrow> ('a, 'e) Graph \<Rightarrow> ('a, 'e) Graph" where
  "join_fold sha t S \<equiv> fold (\<lambda>f. graph_addNodeWriter f (join_writer sha t S f))"

lemma addNodeWriter_Node:
  "graph_Node k (graph_addNodeWriter f w g) =
     (if k = f then map_option (\<lambda>n. n\<lparr>nd_writers := nd_writers n @ [w]\<rparr>) (graph_Node k g) else graph_Node k g)"
  by (simp add: graph_addNodeWriter_def)

lemma fold_writers_Node:
  "graph_Node k (join_fold sha t S fs g) = Some m \<Longrightarrow> \<exists>n. graph_Node k g = Some n \<and> nd_ID m = nd_ID n \<and>
     set (nd_writers m) = set (nd_writers n) \<union> (if k \<in> set fs then {join_writer sha t S k} else {})"
proof (induction fs arbitrary: g)
  case (Cons f fs)
  then obtain n where n: "graph_Node k (graph_addNodeWriter f (join_writer sha t S f) g) = Some n" "nd_ID m = nd_ID n"
    "set (nd_writers m) = set (nd_writers n) \<union> (if k \<in> set fs then {join_writer sha t S k} else {})"
    by auto
  then obtain n' where n': "graph_Node k g = Some n'" "n = (if k = f then n'\<lparr>nd_writers := nd_writers n' @ [join_writer sha t S f]\<rparr> else n')"
    by (cases "graph_Node k g") (simp_all add: addNodeWriter_Node split: if_splits)
  show ?case
  proof (intro exI conjI)
    show "graph_Node k g = Some n'" by (rule n')
    show "nd_ID m = nd_ID n'" using n n' by simp
    show "set (nd_writers m) = set (nd_writers n') \<union> (if k \<in> set (f # fs) then {join_writer sha t S k} else {})"
      unfolding n(3) n'(2) by (simp split: if_splits)
  qed
qed simp

lemma fold_writers:
  "g_edges (join_fold sha t S fs g) = g_edges g" "g_conditionalEdges (join_fold sha t S fs g) = g_conditionalEdges g"
  "g_channels (join_fold sha t S fs g) = g_channels g" "graph_triggers ch (join_fold sha t S fs g) = graph_triggers ch g"
  "graph_has k (join_fold sha t S fs g) = graph_has k g"
  by (induction fs arbitrary: g; simp add: graph_addNodeWriter_def)+

lemma node_writers_join:
  "node_writers sha E (insert (S, t) J) i = node_writers sha E J i \<union> (if i \<in> set S then {join_writer sha t S i} else {})"
  by (auto simp: node_writers_def)

lemma wired_join:
  assumes w: "wired sha E J g" and good: "good_digest sha (fst ` insert (S, t) J)"
    and has: "t = End \<or> graph_has t g" "\<forall>f \<in> set S. graph_has f g \<and> f \<noteq> Start"
    and es: "\<forall>k. set (es k) = set (g_edges g k) \<union> (if k \<in> set S then {\<lparr>e_From = k, e_To = t\<rparr>} else {})"
    and g1: "g1 = graph_addChannel (joinChannelName sha t S) BehaviorBarrier (g\<lparr>g_edges := es\<rparr>)"
    and g2: "g2 = g1\<lparr>g_channels := on_channel (joinChannelName sha t S) (ch_SetBarrierExpected S) (g_channels g1)\<rparr>"
  shows "wired sha E (insert (S, t) J)
    (fold (\<lambda>f. graph_addNodeWriter f (join_writer sha t S f)) S
      (graph_addNodeTrigger (joinChannelName sha t S) t (graph_addNodeTriggerChannel t (joinChannelName sha t S) g2)))"
    (is "wired sha E ?J ?g")
proof -
  let ?c = "joinChannelName sha t S"
  note defs = graph_addNodeTriggerChannel_def g1 g2 fold_writers
  have parts: "wired_nodes sha E J g" "wired_ends E J g" "wired_edges E J g" "wired_conds g" "wired_channels sha E J g"
    "wired_triggers sha E J g" using w by (simp_all add: wired_def)
  have inj: "(S', t') = (S, t)" if "(S', t') \<in> ?J" "joinChannelName sha t' S' = ?c" for S' t'
    using joinChannelName_inj [OF good, of S' S t' t] that by force
  have "nd_ID m = k \<and> k \<noteq> [] \<and> (k \<noteq> Start \<longrightarrow> set (nd_writers m) = node_writers sha E ?J k)"
    if m: "graph_Node k ?g = Some m" for k m
  proof -
    obtain n where n: "graph_Node k g = Some n" "nd_ID m = nd_ID n"
      "set (nd_writers m) = set (nd_writers n) \<union> (if k \<in> set S then {join_writer sha t S k} else {})"
      using fold_writers_Node [OF m] by (cases "graph_Node k g") (auto simp: defs split: if_splits)
    then show ?thesis using wired_nodesD [OF parts(1) n(1)] by (simp add: node_writers_join)
  qed
  then have "wired_nodes sha E ?J ?g" unfolding wired_nodes_def by blast
  moreover have hask: "graph_has k ?g = graph_has k g" for k by (simp add: defs)
  have "wired_ends E ?J ?g" using parts(2) has unfolding wired_ends_def hask by blast
  moreover have "wired_edges E ?J ?g"
  proof -
    have "g_edges ?g = es" by (simp add: defs)
    then show ?thesis using parts(3) es unfolding wired_edges_def by auto
  qed
  moreover have "wired_conds ?g"
    by (rule wired_conds_mono [OF parts(4)]) (simp_all add: defs)
  moreover have "wired_channels sha E ?J ?g"
  proof -
    have m: "GetChannel ch (g_channels ?g) =
        (if ch = ?c then Some (ch_SetBarrierExpected S (NewChannel ?c BehaviorBarrier)) else GetChannel ch (g_channels g))" for ch
    proof (cases "GetChannel ?c (g_channels g)")
      case (Some c)
      then obtain S' t' where "(S', t') \<in> J" "joinChannelName sha t' S' = ?c" using wired_channelsD(3) [OF parts(5) Some] by auto
      then have "(S, t) \<in> J" using inj by force
      then have "c = ch_SetBarrierExpected S (NewChannel ?c BehaviorBarrier)"
        using Some wired_channelsD(2) [OF parts(5), of S t] by simp
      then have "ch_SetBarrierExpected S c = c" by (simp add: ch_SetBarrierExpected_def)
      with Some \<open>c = _\<close> show ?thesis by (simp add: defs)
    qed (simp add: defs)
    have "(\<exists>i. ch = triggerChannel i) \<or> (\<exists>f' t'. (f', t') \<in> E \<and> ch = branchChannel t') \<or>
        (\<exists>S t. (S, t) \<in> ?J \<and> ch = joinChannelName sha t S)" if ne: "GetChannel ch (g_channels ?g) \<noteq> None" for ch
    proof (cases "ch = ?c")
      case False
      then obtain c where "GetChannel ch (g_channels g) = Some c" using ne unfolding m by auto
      from wired_channelsD(3) [OF parts(5) this] show ?thesis by blast
    qed blast
    moreover have "GetChannel (joinChannelName sha t' S') (g_channels ?g) =
        Some (ch_SetBarrierExpected S' (NewChannel (joinChannelName sha t' S') BehaviorBarrier))" if "(S', t') \<in> ?J" for S' t'
      using that inj [OF that] wired_channelsD(2) [OF parts(5), of S' t'] unfolding m by auto
    ultimately show ?thesis
      using wired_channelsD(1) [OF parts(5)] unfolding wired_channels_def by (intro conjI allI impI) (simp_all add: m)
  qed
  moreover have "wired_triggers sha E ?J ?g"
  proof -
    have m: "graph_triggers ch ?g = (if ch = ?c then [t] else graph_triggers ch g)" for ch
    proof (cases "graph_triggers ?c g = []")
      case False
      then obtain S' t' where "(S', t') \<in> J" "joinChannelName sha t' S' = ?c" using wired_triggersD(3) [OF parts(6) False] by auto
      then have "(S, t) \<in> J" using inj by force
      then have "graph_triggers ?c g = [t]" by (rule wired_triggersD(2) [OF parts(6)])
      then show ?thesis by (simp add: defs)
    qed (simp add: defs)
    have "(\<exists>f' t'. (f', t') \<in> E \<and> ch = branchChannel t') \<or> (\<exists>S t. (S, t) \<in> ?J \<and> ch = joinChannelName sha t S)"
      if "graph_triggers ch ?g \<noteq> []" for ch
    proof (cases "ch = ?c")
      case False
      then have "graph_triggers ch g \<noteq> []" using that unfolding m by simp
      from wired_triggersD(3) [OF parts(6) this] show ?thesis by blast
    qed blast
    moreover have "graph_triggers (joinChannelName sha t' S') ?g = [t']" if "(S', t') \<in> ?J" for S' t'
      using that inj [OF that] wired_triggersD(2) [OF parts(6), of S' t'] unfolding m by auto
    ultimately show ?thesis
      using wired_triggersD(1) [OF parts(6)] unfolding wired_triggers_def by (intro conjI allI impI) (simp_all add: m)
  qed
  ultimately show ?thesis by (simp add: wired_def)
qed

text \<open>Every call, and so every graph built without an error.\<close>

lemma wired_entry: "wired sha E J g \<Longrightarrow> wired sha E J (g\<lparr>g_entryPoint := i\<rparr>)"
  by (rule wired_mono) (simp_all add: wired_def wired_nodes_def wired_channels_def)

lemma AddEdge_errs: "sg_errs (sg_AddEdge f t sg) = [] \<Longrightarrow> sg_errs sg = []"
  by (auto simp: sg_AddEdge_def addBuildError_def Let_def split: sum.splits)

lemma interrupts_errs: "sg_errs (sg_setStaticInterruptNodes is b sg) = [] \<Longrightarrow> sg_errs sg = []"
proof (induction "is" arbitrary: sg)
  case (Cons i "is")
  from Cons.IH [OF Cons.prems [unfolded sg_setStaticInterruptNodes.simps Let_def]] show ?case
    by (simp add: addBuildError_def split: if_splits)
qed simp

lemma join_edges_errs: "snd (join_edges fs t sg) = sg' \<Longrightarrow> sg_errs sg' = [] \<Longrightarrow> sg_errs sg = []"
proof (induction fs arbitrary: sg)
  case (Cons f fs)
  show ?case
  proof (cases "graph_addEdge \<lparr>e_From = f, e_To = t\<rparr> (sg_graph sg)")
    case (Inl e)
    then show ?thesis using Cons.prems by (auto simp: addBuildError_def)
  next
    case (Inr g)
    then show ?thesis using Cons.IH [of "sg\<lparr>sg_graph := g\<rparr>"] Cons.prems by simp
  qed
qed simp

lemma AddJoinEdge_errs: "sg_errs (sg_AddJoinEdge sha fs t sg) = [] \<Longrightarrow> sg_errs sg = []"
  using join_edges_errs [of "normalizeJoinStarts fs" t sg]
  by (auto simp: sg_AddJoinEdge_def Let_def addBuildError_def split: if_splits option.splits prod.splits bool.splits)

lemma build_step_errs: "sg_errs (build_step sha p sg) = [] \<Longrightarrow> sg_errs sg = []"
proof (cases p)
  case (BSetEntryPoint i)
  assume "sg_errs (build_step sha p sg) = []"
  then show ?thesis
    using BSetEntryPoint AddEdge_errs by (fastforce simp: sg_SetEntryPoint_def addBuildError_def split: sum.splits)
qed (auto simp: sg_AddNode_def sg_AddConditionalEdges_def sg_SetFinishPoint_def addBuildError_def Let_def
      split: sum.splits dest: AddEdge_errs interrupts_errs AddJoinEdge_errs)

lemma AddEdge_wired:
  assumes "wired sha E J (sg_graph sg)" "sg_errs (sg_AddEdge f t sg) = []"
  shows "wired sha (insert (f, t) E) J (sg_graph (sg_AddEdge f t sg))"
proof (cases "graph_addEdge \<lparr>e_From = f, e_To = t\<rparr> (sg_graph sg)")
  case (Inl e)
  then show ?thesis using assms(2) by (simp add: sg_AddEdge_def addBuildError_def)
next
  case (Inr g1)
  then show ?thesis using wired_addEdge [OF assms(1) Inr] by (simp add: sg_AddEdge_def Let_def)
qed

lemma AddJoinEdge_wired:
  assumes w: "wired sha E J (sg_graph sg)" and e: "sg_errs (sg_AddJoinEdge sha fs t sg) = []"
    and good: "good_digest sha (fst ` (op_joins (BAddJoinEdge fs t :: ('a, 'e) build_op) \<union> J))"
  shows "wired sha E (op_joins (BAddJoinEdge fs t :: ('a, 'e) build_op) \<union> J) (sg_graph (sg_AddJoinEdge sha fs t (sg :: ('a, 'e) StateGraph)))"
proof (cases "t = [] \<or> t = Start \<or> normalizeJoinStarts fs = []")
  case True
  then show ?thesis using w by (auto simp: sg_AddJoinEdge_def Let_def)
next
  case False
  let ?S = "normalizeJoinStarts fs"
  have t: "t = End \<or> graph_has t (sg_graph sg)" and f: "find (\<lambda>f. \<not> graph_has f (sg_graph sg)) ?S = None"
    using e False by (auto simp: sg_AddJoinEdge_def Let_def addBuildError_def split: if_splits option.splits)
  then have S: "\<forall>f \<in> set ?S. graph_has f (sg_graph sg) \<and> f \<noteq> Start"
    by (auto simp: find_None_iff normalizeJoinStarts_def)
  have "fst (join_edges ?S t sg)"
    using e False t f join_edges_fail [of ?S t sg]
    by (auto simp: sg_AddJoinEdge_def Let_def split: prod.splits bool.splits if_splits)
  then obtain sg1 where sg1: "join_edges ?S t sg = (True, sg1)" by (cases "join_edges ?S t sg") auto
  from join_edges_ok [OF sg1] obtain es where es: "sg1 = sg\<lparr>sg_graph := (sg_graph sg)\<lparr>g_edges := es\<rparr>\<rparr>"
    "\<forall>k. set (es k) = set (g_edges (sg_graph sg) k) \<union> (if k \<in> set ?S then {\<lparr>e_From = k, e_To = t\<rparr>} else {})" by auto
  have good': "good_digest sha (fst ` insert (?S, t) J)" using good False by simp
  show ?thesis
    using wired_join [OF w good' t S es(2) refl refl] False t f sg1
    by (auto simp: sg_AddJoinEdge_def Let_def es(1))
qed

lemma build_snoc: "build sha schema (ops @ [p]) = build_step sha p (build sha schema ops)"
  by (simp add: build_def)

lemma all_snoc: "all_edges (ops @ [p]) = op_edges p \<union> all_edges ops" "all_joins (ops @ [p]) = op_joins p \<union> all_joins ops"
  by (auto simp: all_edges_def all_joins_def)

lemma good_digest_mono: "good_digest sha J \<Longrightarrow> I \<subseteq> J \<Longrightarrow> good_digest sha I"
  unfolding good_digest_def by (blast intro: inj_on_subset)

lemma build_wired:
  "good_digest sha (fst ` all_joins ops) \<Longrightarrow> sg_errs (build sha schema ops) = [] \<Longrightarrow>
   wired sha (all_edges ops) (all_joins ops) (sg_graph (build sha schema ops))"
proof (induction ops rule: rev_induct)
  case Nil
  then show ?case using wired_empty by (simp add: build_def NewStateGraph_def all_edges_def all_joins_def)
next
  case (snoc p ops)
  let ?sg = "build sha schema ops"
  have e: "sg_errs (build_step sha p ?sg) = []" using snoc.prems(2) by (simp add: build_snoc)
  have "good_digest sha (fst ` all_joins ops)"
    by (rule good_digest_mono [OF snoc.prems(1)]) (auto simp: all_snoc)
  then have w: "wired sha (all_edges ops) (all_joins ops) (sg_graph ?sg)"
    using snoc.IH build_step_errs [OF e] by blast
  have "wired sha (op_edges p \<union> all_edges ops) (op_joins p \<union> all_joins ops) (sg_graph (build_step sha p ?sg))"
  proof (cases p)
    case (BAddNode i f opts)
    then show ?thesis
      using e w wired_addNode [OF w] by (auto simp: sg_AddNode_def Let_def addBuildError_def split: sum.splits)
  next
    case (BInterrupts "is" b)
    then show ?thesis using wired_interrupts [OF w] by simp
  next
    case (BAddEdge f t)
    then show ?thesis using AddEdge_wired [OF w] e by simp
  next
    case (BAddJoinEdge fs t)
    then show ?thesis using AddJoinEdge_wired [OF w, of fs t] e snoc.prems(1) by (simp add: all_snoc)
  next
    case (BAddConditionalEdges f c pm)
    then show ?thesis
      using e w wired_conditional [OF w] by (auto simp: sg_AddConditionalEdges_def addBuildError_def split: sum.splits)
  next
    case (BSetEntryPoint i)
    show ?thesis
    proof (cases "graph_setEntryPoint i (sg_graph ?sg)")
      case (Inl x)
      then show ?thesis using e BSetEntryPoint by (simp add: sg_SetEntryPoint_def addBuildError_def)
    next
      case (Inr g)
      then have "wired sha (all_edges ops) (all_joins ops) g"
        using wired_entry [OF w] by (auto simp: graph_setEntryPoint_def split: if_splits)
      then have "wired sha (all_edges ops) (all_joins ops) (sg_graph (?sg\<lparr>sg_graph := g\<rparr>))" by simp
      from AddEdge_wired [OF this] show ?thesis using e BSetEntryPoint Inr by (simp add: sg_SetEntryPoint_def)
    qed
  next
    case (BSetFinishPoint i)
    then show ?thesis using AddEdge_wired [OF w] e by (simp add: sg_SetFinishPoint_def)
  qed
  then show ?case by (simp add: build_snoc all_snoc)
qed

lemma Compile_Inr:
  "sg_Compile sg = Inr g \<longleftrightarrow> sg_errs sg = [] \<and> graph_validate (sg_graph sg) = None \<and> g = sg_graph sg"
  by (auto simp: sg_Compile_def split: option.splits)

lemma compiled_wired:
  "good_digest sha (fst ` all_joins ops) \<Longrightarrow> sg_Compile (build sha schema ops) = Inr g \<Longrightarrow>
   wired sha (all_edges ops) (all_joins ops) g"
  using build_wired [of sha ops schema] by (simp add: Compile_Inr)

lemma compiled_entry: "sg_Compile sg = Inr g \<Longrightarrow> graph_has (g_entryPoint g) g"
  by (auto simp: Compile_Inr graph_validate_def split: if_splits)

section \<open>Nothing besides what was asked\<close>

text \<open>
  The links that leave a node in the order of the calls, the plain ones and the ones that belong to
  a join, with the edge and the writer each stands for; the conditional edges; the entry point.
\<close>

fun op_links :: "string \<Rightarrow> ('a, 'e) build_op \<Rightarrow> (string list option \<times> string) list" where
  "op_links i (BAddEdge f t) = (if i = f then [(None, t)] else [])"
| "op_links i (BSetEntryPoint j) = (if i = Start then [(None, j)] else [])"
| "op_links i (BSetFinishPoint f) = (if i = f then [(None, End)] else [])"
| "op_links i (BAddJoinEdge fs t) =
     (let S = normalizeJoinStarts fs in if t \<noteq> [] \<and> t \<noteq> Start \<and> i \<in> set S then [(Some S, t)] else [])"
| "op_links i _ = []"

fun link_writer :: "(string \<Rightarrow> string) \<Rightarrow> string \<Rightarrow> string list option \<times> string \<Rightarrow> 'a channelWriteEntry" where
  "link_writer sha i (None, t) = plain_writer t"
| "link_writer sha i (Some S, t) = join_writer sha t S i"

definition link_edge :: "string \<Rightarrow> string list option \<times> string \<Rightarrow> Edge" where
  "link_edge i l = \<lparr>e_From = i, e_To = snd l\<rparr>"

fun op_cond :: "('a, 'e) build_op \<Rightarrow> (string \<rightharpoonup> ('a, 'e) ConditionalEdge) \<Rightarrow> (string \<rightharpoonup> ('a, 'e) ConditionalEdge)" where
  "op_cond (BAddConditionalEdges f c pm) m = m(f \<mapsto> \<lparr>c_From = f, c_Condition = Some c, c_PathMap = pm\<rparr>)"
| "op_cond _ m = m"

fun op_entry :: "('a, 'e) build_op \<Rightarrow> string \<Rightarrow> string" where
  "op_entry (BSetEntryPoint i) _ = i"
| "op_entry _ e = e"

definition links :: "('a, 'e) build_op list \<Rightarrow> string \<Rightarrow> (string list option \<times> string) list" where
  "links ops i = concat (map (op_links i) ops)"

definition asked_conds :: "('a, 'e) build_op list \<Rightarrow> (string \<rightharpoonup> ('a, 'e) ConditionalEdge)" where
  "asked_conds ops = fold op_cond ops Map.empty"

definition asked_entry :: "('a, 'e) build_op list \<Rightarrow> string" where
  "asked_entry ops = fold op_entry ops []"

definition asked_node :: "('a, 'e) build_op list \<Rightarrow> string \<Rightarrow> ('a State \<Rightarrow> 'e + 'a NodeResult) \<Rightarrow> bool" where
  "asked_node ops i f \<longleftrightarrow> (\<exists>opts. BAddNode i f opts \<in> set ops)"

text \<open>What a call other than AddNode adds to a graph: the links it asks for, at the end, and nothing else of a node.\<close>

definition grown :: "(string \<Rightarrow> string) \<Rightarrow> (string \<Rightarrow> (string list option \<times> string) list) \<Rightarrow> ('a, 'e) Graph \<Rightarrow> ('a, 'e) Graph \<Rightarrow> bool" where
  "grown sha ls g g' \<longleftrightarrow>
     (\<forall>i. g_edges g' i = g_edges g i @ map (link_edge i) (ls i)) \<and>
     (\<forall>i. map_option (\<lambda>n. (nd_Function n, nd_writers n)) (graph_Node i g') =
          map_option (\<lambda>n. (nd_Function n, nd_writers n @ map (link_writer sha i) (ls i))) (graph_Node i g)) \<and>
     (\<forall>i. GetChannel (triggerChannel i) (g_channels g') = GetChannel (triggerChannel i) (g_channels g))"

lemma join_edges_list:
  "join_edges fs t sg = (True, sg') \<Longrightarrow> distinct fs \<Longrightarrow>
   \<exists>es. sg' = sg\<lparr>sg_graph := (sg_graph sg)\<lparr>g_edges := es\<rparr>\<rparr> \<and>
     (\<forall>k. es k = g_edges (sg_graph sg) k @ (if k \<in> set fs then [\<lparr>e_From = k, e_To = t\<rparr>] else []))"
proof (induction fs arbitrary: sg)
  case Nil
  then show ?case by (intro exI [of _ "g_edges (sg_graph sg)"]) simp
next
  case (Cons f fs)
  let ?es = "(g_edges (sg_graph sg))(f := g_edges (sg_graph sg) f @ [\<lparr>e_From = f, e_To = t\<rparr>])"
  have "join_edges fs t (sg\<lparr>sg_graph := (sg_graph sg)\<lparr>g_edges := ?es\<rparr>\<rparr>) = (True, sg')"
    using Cons.prems by (auto simp: graph_addEdge_def split: if_splits sum.splits)
  from Cons.IH [OF this] Cons.prems(2) obtain es where
    "sg' = sg\<lparr>sg_graph := (sg_graph sg)\<lparr>g_edges := es\<rparr>\<rparr>"
    "\<forall>k. es k = ?es k @ (if k \<in> set fs then [\<lparr>e_From = k, e_To = t\<rparr>] else [])" by auto
  then show ?case using Cons.prems(2) by (intro exI [of _ es] conjI) (assumption, simp)
qed

lemma join_fold_list:
  "distinct fs \<Longrightarrow> graph_Node k (join_fold sha t S fs g) =
     map_option (\<lambda>n. if k \<in> set fs then n\<lparr>nd_writers := nd_writers n @ [join_writer sha t S k]\<rparr> else n) (graph_Node k g)"
proof (induction fs arbitrary: g)
  case Nil
  show ?case by (simp add: option.map_ident)
next
  case (Cons f fs)
  then show ?case by (cases "k = f"; cases "graph_Node k g") (simp_all add: addNodeWriter_Node)
qed

lemma fold_writers_entry: "g_entryPoint (join_fold sha t S fs g) = g_entryPoint g"
  by (induction fs arbitrary: g) (simp_all add: graph_addNodeWriter_def)

lemma AddEdge_grown:
  "sg_errs (sg_AddEdge f t sg) = [] \<Longrightarrow>
   grown sha (\<lambda>i. if i = f then [(None, t)] else []) (sg_graph sg) (sg_graph (sg_AddEdge f t sg)) \<and>
   g_conditionalEdges (sg_graph (sg_AddEdge f t sg)) = g_conditionalEdges (sg_graph sg) \<and>
   g_entryPoint (sg_graph (sg_AddEdge f t sg)) = g_entryPoint (sg_graph sg)"
  by (auto simp: sg_AddEdge_def addBuildError_def Let_def graph_addEdge_def graph_addNodeWriter_def link_edge_def
      graph_addNodeTriggerChannel_def grown_def option.map_comp comp_def split: sum.splits if_splits)

lemma AddJoinEdge_grown:
  assumes e: "sg_errs (sg_AddJoinEdge sha fs t sg) = []"
  shows "grown sha (\<lambda>i. op_links i (BAddJoinEdge fs t :: ('a, 'e) build_op)) (sg_graph (sg :: ('a, 'e) StateGraph)) (sg_graph (sg_AddJoinEdge sha fs t sg)) \<and>
   g_conditionalEdges (sg_graph (sg_AddJoinEdge sha fs t sg)) = g_conditionalEdges (sg_graph sg) \<and>
   g_entryPoint (sg_graph (sg_AddJoinEdge sha fs t sg)) = g_entryPoint (sg_graph sg)"
proof (cases "t = [] \<or> t = Start \<or> normalizeJoinStarts fs = []")
  case True
  then show ?thesis by (auto simp: sg_AddJoinEdge_def Let_def grown_def option.map_ident)
next
  case False
  let ?S = "normalizeJoinStarts fs"
  have t: "t = End \<or> graph_has t (sg_graph sg)" and f: "find (\<lambda>f. \<not> graph_has f (sg_graph sg)) ?S = None"
    using e False by (auto simp: sg_AddJoinEdge_def Let_def addBuildError_def split: if_splits option.splits)
  have dist: "distinct ?S" by (simp add: normalizeJoinStarts_def)
  have "fst (join_edges ?S t sg)"
    using e False t f join_edges_fail [of ?S t sg]
    by (auto simp: sg_AddJoinEdge_def Let_def split: prod.splits bool.splits if_splits)
  then obtain sg1 where sg1: "join_edges ?S t sg = (True, sg1)" by (cases "join_edges ?S t sg") auto
  obtain es where es: "sg1 = sg\<lparr>sg_graph := (sg_graph sg)\<lparr>g_edges := es\<rparr>\<rparr>"
    "\<forall>k. es k = g_edges (sg_graph sg) k @ (if k \<in> set ?S then [\<lparr>e_From = k, e_To = t\<rparr>] else [])"
    using join_edges_list [OF sg1 dist] by blast
  show ?thesis
    using False t f sg1 dist es(2)
    by (auto simp: sg_AddJoinEdge_def Let_def es(1) fold_writers fold_writers_entry join_fold_list link_edge_def
        graph_addNodeTriggerChannel_def grown_def option.map_comp comp_def cong: option.map_cong)
qed

text \<open>The graph is the one the calls ask for, list by list.\<close>

definition as_asked :: "(string \<Rightarrow> string) \<Rightarrow> ('a, 'e) build_op list \<Rightarrow> ('a, 'e) Graph \<Rightarrow> bool" where
  "as_asked sha ops g \<longleftrightarrow>
     (\<forall>i. g_edges g i = map (link_edge i) (links ops i)) \<and>
     g_conditionalEdges g = asked_conds ops \<and> g_entryPoint g = asked_entry ops \<and>
     (\<forall>i f. asked_node ops i f \<longleftrightarrow> map_option nd_Function (graph_Node i g) = Some f) \<and>
     (\<forall>i n. graph_Node i g = Some n \<and> i \<noteq> Start \<longrightarrow> nd_writers n = map (link_writer sha i) (links ops i)) \<and>
     (\<forall>i. GetChannel (triggerChannel i) (g_channels g) =
        (if graph_has i g then Some (NewChannel (triggerChannel i) BehaviorLastValue) else None))"

lemma links_snoc [simp]: "links (ops @ [p]) i = links ops i @ op_links i p"
  by (simp add: links_def)

lemma asked_snoc [simp]:
  "asked_conds (ops @ [p]) = op_cond p (asked_conds ops)" "asked_entry (ops @ [p]) = op_entry p (asked_entry ops)"
  "asked_node (ops @ [p]) i f \<longleftrightarrow> asked_node ops i f \<or> (\<exists>opts. p = BAddNode i f opts)"
  by (auto simp: asked_conds_def asked_entry_def asked_node_def)

lemma grown_as_asked:
  assumes a: "as_asked sha ops g" and h: "grown sha (\<lambda>i. op_links i p) g g'" and p: "\<And>i f opts. p \<noteq> BAddNode i f opts"
    and c: "g_conditionalEdges g' = op_cond p (g_conditionalEdges g)" "g_entryPoint g' = op_entry p (g_entryPoint g)"
  shows "as_asked sha (ops @ [p]) g'"
proof -
  have node: "map_option (\<lambda>n. (nd_Function n, nd_writers n)) (graph_Node i g') =
      map_option (\<lambda>n. (nd_Function n, nd_writers n @ map (link_writer sha i) (op_links i p))) (graph_Node i g)" for i
    using h by (simp add: grown_def)
  have has: "graph_has i g' = graph_has i g" for i
    using node [of i] by (cases "graph_Node i g"; cases "graph_Node i g'") (simp_all add: graph_has_def)
  have fn: "map_option nd_Function (graph_Node i g') = map_option nd_Function (graph_Node i g)" for i
    using node [of i] by (cases "graph_Node i g"; cases "graph_Node i g'") auto
  have "nd_writers n = map (link_writer sha i) (links (ops @ [p]) i)" if n: "graph_Node i g' = Some n" "i \<noteq> Start" for i n
  proof -
    obtain m where m: "graph_Node i g = Some m" "nd_writers n = nd_writers m @ map (link_writer sha i) (op_links i p)"
      using node [of i] n(1) by (cases "graph_Node i g") auto
    then have "nd_writers m = map (link_writer sha i) (links ops i)" using a n(2) unfolding as_asked_def by blast
    then show ?thesis using m(2) by simp
  qed
  moreover have "g_edges g' i = map (link_edge i) (links (ops @ [p]) i)" for i
    using a h by (simp add: as_asked_def grown_def)
  moreover have "g_conditionalEdges g' = asked_conds (ops @ [p])" "g_entryPoint g' = asked_entry (ops @ [p])"
    using a c by (simp_all add: as_asked_def)
  moreover have "asked_node (ops @ [p]) i f \<longleftrightarrow> map_option nd_Function (graph_Node i g') = Some f" for i f
    unfolding fn using a p by (simp add: as_asked_def)
  moreover have "GetChannel (triggerChannel i) (g_channels g') =
      (if graph_has i g' then Some (NewChannel (triggerChannel i) BehaviorLastValue) else None)" for i
    unfolding has using a h by (simp add: as_asked_def grown_def)
  ultimately show ?thesis unfolding as_asked_def by blast
qed

lemma interrupts_grown:
  "grown sha (\<lambda>_. []) (sg_graph sg) (sg_graph (sg_setStaticInterruptNodes is b sg)) \<and>
   g_conditionalEdges (sg_graph (sg_setStaticInterruptNodes is b sg)) = g_conditionalEdges (sg_graph sg) \<and>
   g_entryPoint (sg_graph (sg_setStaticInterruptNodes is b sg)) = g_entryPoint (sg_graph sg)"
proof (induction "is" arbitrary: sg)
  case (Cons i "is")
  let ?sg = "if graph_has i (sg_graph sg)
      then sg\<lparr>sg_graph := on_node i (\<lambda>n. if b then n\<lparr>nd_interruptBefore := True\<rparr> else n\<lparr>nd_interruptAfter := True\<rparr>) (sg_graph sg)\<rparr>
      else addBuildError (ErrNodeNotFound i) sg"
  have "grown sha (\<lambda>_. []) (sg_graph sg) (sg_graph ?sg)"
    by (auto simp: grown_def addBuildError_def option.map_comp comp_def if_distrib cong: if_cong)
  moreover have "grown sha (\<lambda>_. []) (sg_graph ?sg) (sg_graph (sg_setStaticInterruptNodes is b ?sg))" using Cons.IH by blast
  ultimately show ?case using Cons.IH [of ?sg] by (simp add: grown_def Let_def addBuildError_def)
qed (simp add: grown_def)

lemma addNode_as_asked:
  assumes a: "as_asked sha ops g" and w: "wired sha (all_edges ops) (all_joins ops) g" and n: "graph_addNode n g = Inr g1"
    and i: "nd_ID n = i" "nd_Function n = f" "nd_writers n = []"
  shows "as_asked sha (ops @ [BAddNode i f opts])
    (graph_addNodeTriggerChannel i (triggerChannel i) (graph_addChannel (triggerChannel i) BehaviorLastValue g1))"
    (is "as_asked sha ?ops ?g")
proof -
  have new: "\<not> graph_has i g" and g1: "g1 = g\<lparr>g_nodes := AList.update i n (g_nodes g)\<rparr>"
    using n i by (auto simp: graph_addNode_def split: if_splits)
  have none: "links ops i = []" if "i \<noteq> Start"
  proof -
    have "(i, t) \<notin> all_edges ops" "(S, t) \<in> all_joins ops \<Longrightarrow> i \<notin> set S" for S t
      using w new that unfolding wired_def wired_ends_def by blast+
    then have "set (g_edges g i) = {}" using w unfolding wired_def wired_edges_def by auto
    then show ?thesis using a by (simp add: as_asked_def)
  qed
  have node: "graph_Node k ?g = (if k = i then Some (n\<lparr>nd_triggers := nd_triggers n @ [triggerChannel i]\<rparr>) else graph_Node k g)" for k
    by (simp add: graph_addNodeTriggerChannel_def g1)
  have "asked_node ?ops k h \<longleftrightarrow> map_option nd_Function (graph_Node k ?g) = Some h" for k h
    using a new i by (auto simp: node as_asked_def graph_has_def)
  moreover have "graph_Node k ?g = Some m \<and> k \<noteq> Start \<longrightarrow> nd_writers m = map (link_writer sha k) (links ?ops k)" for k m
    using a none i by (auto simp: node as_asked_def)
  moreover have "GetChannel (triggerChannel k) (g_channels ?g) =
      (if graph_has k ?g then Some (NewChannel (triggerChannel k) BehaviorLastValue) else None)" for k
    using a new by (simp add: graph_addNodeTriggerChannel_def g1 as_asked_def)
  ultimately show ?thesis
    using a unfolding as_asked_def by (simp add: graph_addNodeTriggerChannel_def g1)
qed

lemma build_as_asked:
  "good_digest sha (fst ` all_joins ops) \<Longrightarrow> sg_errs (build sha schema ops) = [] \<Longrightarrow>
   as_asked sha ops (sg_graph (build sha schema ops))"
proof (induction ops rule: rev_induct)
  case Nil
  then show ?case
    by (simp add: build_def NewStateGraph_def graph_New_def as_asked_def links_def asked_conds_def asked_entry_def asked_node_def
        graph_Node_def graph_has_def)
next
  case (snoc p ops)
  let ?sg = "build sha schema ops"
  have e: "sg_errs (build_step sha p ?sg) = []" using snoc.prems(2) by (simp add: build_snoc)
  have good: "good_digest sha (fst ` all_joins ops)"
    by (rule good_digest_mono [OF snoc.prems(1)]) (auto simp: all_snoc)
  then have a: "as_asked sha ops (sg_graph ?sg)" and w: "wired sha (all_edges ops) (all_joins ops) (sg_graph ?sg)"
    using snoc.IH build_step_errs [OF e] build_wired by blast+
  note step = grown_as_asked [OF a]
  have "as_asked sha (ops @ [p]) (sg_graph (build_step sha p ?sg))"
  proof (cases p)
    case (BAddNode i f opts)
    then show ?thesis
      using e addNode_as_asked [OF a w] by (auto simp: sg_AddNode_def Let_def addBuildError_def split: sum.splits)
  next
    case (BInterrupts "is" b)
    then show ?thesis using interrupts_grown [of sha ?sg "is" b] by (intro step) simp_all
  next
    case (BAddEdge f t)
    then show ?thesis using AddEdge_grown [of f t ?sg sha] e by (intro step) simp_all
  next
    case (BAddJoinEdge fs t)
    then show ?thesis using AddJoinEdge_grown [of sha fs t ?sg] e by (intro step) simp_all
  next
    case (BAddConditionalEdges f c pm)
    then show ?thesis
      using e by (intro step)
        (auto simp: sg_AddConditionalEdges_def addBuildError_def graph_addConditionalEdge_def grown_def
          split: sum.splits if_splits option.splits)
  next
    case (BSetEntryPoint i)
    show ?thesis
    proof (cases "graph_setEntryPoint i (sg_graph ?sg)")
      case (Inl x)
      then show ?thesis using e BSetEntryPoint by (simp add: sg_SetEntryPoint_def addBuildError_def)
    next
      case (Inr g)
      then have g: "g = (sg_graph ?sg)\<lparr>g_entryPoint := i\<rparr>" by (auto simp: graph_setEntryPoint_def split: if_splits)
      show ?thesis
        using AddEdge_grown [of Start i "?sg\<lparr>sg_graph := g\<rparr>" sha] e BSetEntryPoint Inr
        by (intro step) (simp_all add: sg_SetEntryPoint_def g grown_def)
    qed
  next
    case (BSetFinishPoint f)
    then show ?thesis using AddEdge_grown [of f End ?sg sha] e by (intro step) (simp_all add: sg_SetFinishPoint_def)
  qed
  then show ?case by (simp add: build_snoc)
qed

lemma compiled_as_asked:
  "good_digest sha (fst ` all_joins ops) \<Longrightarrow> sg_Compile (build sha schema ops) = Inr g \<Longrightarrow> as_asked sha ops g"
  using build_as_asked [of sha ops schema] by (simp add: Compile_Inr)

section \<open>The property of compiled graphs\<close>

text \<open>
  C6. A graph that compiles is the graph its calls describe, and nothing else (while the digest of
  the joins has no collision). Its nodes are those added, with their functions; its entry point is
  the one set last, and exists; the edges that leave a node are the plain edges and the joins asked
  for, in the order of the calls, and its writers are one entry for each of them: an update for a
  plain edge, the node's name for a join; the conditional edge of a node is the last one given for
  it. All edges, joins and routes lead between existing nodes (or Start and End). There is a channel
  for each node, each target of a plain edge and each join, and no other: the channel of a plain
  edge triggers exactly the edge's target, the channel of a join is a barrier that expects exactly
  the start nodes and triggers exactly the join's target, and no other channel triggers anything.
\<close>

theorem graph_compiled_wiring:
  assumes "good_digest sha (fst ` all_joins ops)" and "sg_Compile (build sha schema ops) = Inr g"
  shows "g_entryPoint g = asked_entry ops \<and> graph_has (g_entryPoint g) g \<and>
    (\<forall>i f. asked_node ops i f \<longleftrightarrow> map_option nd_Function (graph_Node i g) = Some f) \<and>
    (\<forall>i. g_edges g i = map (link_edge i) (links ops i)) \<and>
    g_conditionalEdges g = asked_conds ops \<and>
    (\<forall>i n. graph_Node i g = Some n \<longrightarrow> nd_ID n = i \<and> i \<noteq> [] \<and>
       (i \<noteq> Start \<longrightarrow> nd_writers n = map (link_writer sha i) (links ops i))) \<and>
    (\<forall>f t. (f, t) \<in> all_edges ops \<longrightarrow>
       (f = Start \<or> graph_has f g) \<and> (t = End \<or> graph_has t g) \<and> graph_triggers (branchChannel t) g = [t] \<and>
       GetChannel (branchChannel t) (g_channels g) = Some (NewChannel (branchChannel t) BehaviorLastValue)) \<and>
    (\<forall>S t. (S, t) \<in> all_joins ops \<longrightarrow>
       (t = End \<or> graph_has t g) \<and> (\<forall>f \<in> set S. graph_has f g) \<and> graph_triggers (joinChannelName sha t S) g = [t] \<and>
       (\<exists>c. GetChannel (joinChannelName sha t S) (g_channels g) = Some c \<and> ch_Behavior c = BehaviorBarrier \<and>
          set (ch_BarrierExpected c) = set S \<and> ch_BarrierSet c = {})) \<and>
    (\<forall>f c t. g_conditionalEdges g f = Some c \<and> t \<in> snd ` set (c_PathMap c) \<longrightarrow>
       (f = Start \<or> graph_has f g) \<and> (t = End \<or> graph_has t g)) \<and>
    (\<forall>ch. GetChannel ch (g_channels g) \<noteq> None \<longleftrightarrow>
       (\<exists>i. graph_has i g \<and> ch = triggerChannel i) \<or> (\<exists>f t. (f, t) \<in> all_edges ops \<and> ch = branchChannel t) \<or>
       (\<exists>S t. (S, t) \<in> all_joins ops \<and> ch = joinChannelName sha t S)) \<and>
    (\<forall>ch. graph_triggers ch g \<noteq> [] \<longleftrightarrow>
       (\<exists>f t. (f, t) \<in> all_edges ops \<and> ch = branchChannel t) \<or>
       (\<exists>S t. (S, t) \<in> all_joins ops \<and> ch = joinChannelName sha t S))"
proof (intro conjI)
  have w: "wired sha (all_edges ops) (all_joins ops) g" using compiled_wired [OF assms] .
  then have parts: "wired_nodes sha (all_edges ops) (all_joins ops) g" "wired_ends (all_edges ops) (all_joins ops) g"
    "wired_conds g" "wired_channels sha (all_edges ops) (all_joins ops) g" "wired_triggers sha (all_edges ops) (all_joins ops) g"
    by (simp_all add: wired_def)
  note asked = compiled_as_asked [OF assms, unfolded as_asked_def]
  have trigger: "GetChannel (triggerChannel i) (g_channels g) \<noteq> None \<longleftrightarrow> graph_has i g" for i
    using asked by simp
  show "g_entryPoint g = asked_entry ops" "g_conditionalEdges g = asked_conds ops"
    "\<forall>i f. asked_node ops i f \<longleftrightarrow> map_option nd_Function (graph_Node i g) = Some f"
    "\<forall>i. g_edges g i = map (link_edge i) (links ops i)"
    using asked by - (elim conjE, assumption)+
  show "graph_has (g_entryPoint g) g" by (rule compiled_entry [OF assms(2)])
  have "\<forall>i n. graph_Node i g = Some n \<and> i \<noteq> Start \<longrightarrow> nd_writers n = map (link_writer sha i) (links ops i)"
    using asked by (elim conjE)
  then show "\<forall>i n. graph_Node i g = Some n \<longrightarrow> nd_ID n = i \<and> i \<noteq> [] \<and>
       (i \<noteq> Start \<longrightarrow> nd_writers n = map (link_writer sha i) (links ops i))"
    using wired_nodesD [OF parts(1)] by blast
  show "\<forall>f t. (f, t) \<in> all_edges ops \<longrightarrow>
       (f = Start \<or> graph_has f g) \<and> (t = End \<or> graph_has t g) \<and> graph_triggers (branchChannel t) g = [t] \<and>
       GetChannel (branchChannel t) (g_channels g) = Some (NewChannel (branchChannel t) BehaviorLastValue)"
    using parts(2) wired_triggersD(1) [OF parts(5)] wired_channelsD(1) [OF parts(4)] unfolding wired_ends_def by blast
  have "\<exists>c. GetChannel (joinChannelName sha t S) (g_channels g) = Some c \<and> ch_Behavior c = BehaviorBarrier \<and>
      set (ch_BarrierExpected c) = set S \<and> ch_BarrierSet c = {}" if "(S, t) \<in> all_joins ops" for S t
  proof (intro exI conjI)
    let ?c = "ch_SetBarrierExpected S (NewChannel (joinChannelName sha t S) BehaviorBarrier) :: 'a Channel"
    show "GetChannel (joinChannelName sha t S) (g_channels g) = Some ?c" by (rule wired_channelsD(2) [OF parts(4) that])
    show "ch_Behavior ?c = BehaviorBarrier" "ch_BarrierSet ?c = {}" by (simp_all add: ch_SetBarrierExpected_def NewChannel_def)
    show "set (ch_BarrierExpected ?c) = set S" by simp
  qed
  then show "\<forall>S t. (S, t) \<in> all_joins ops \<longrightarrow>
       (t = End \<or> graph_has t g) \<and> (\<forall>f \<in> set S. graph_has f g) \<and> graph_triggers (joinChannelName sha t S) g = [t] \<and>
       (\<exists>c. GetChannel (joinChannelName sha t S) (g_channels g) = Some c \<and> ch_Behavior c = BehaviorBarrier \<and>
          set (ch_BarrierExpected c) = set S \<and> ch_BarrierSet c = {})"
    using parts(2) wired_triggersD(2) [OF parts(5)] unfolding wired_ends_def by blast
  show "\<forall>f c t. g_conditionalEdges g f = Some c \<and> t \<in> snd ` set (c_PathMap c) \<longrightarrow>
       (f = Start \<or> graph_has f g) \<and> (t = End \<or> graph_has t g)"
    using parts(3) unfolding wired_conds_def by blast
  show "\<forall>ch. GetChannel ch (g_channels g) \<noteq> None \<longleftrightarrow>
       (\<exists>i. graph_has i g \<and> ch = triggerChannel i) \<or> (\<exists>f t. (f, t) \<in> all_edges ops \<and> ch = branchChannel t) \<or>
       (\<exists>S t. (S, t) \<in> all_joins ops \<and> ch = joinChannelName sha t S)"
    using trigger wired_channelsD [OF parts(4)] by (metis not_None_eq)
  show "\<forall>ch. graph_triggers ch g \<noteq> [] \<longleftrightarrow>
       (\<exists>f t. (f, t) \<in> all_edges ops \<and> ch = branchChannel t) \<or>
       (\<exists>S t. (S, t) \<in> all_joins ops \<and> ch = joinChannelName sha t S)"
    using wired_triggersD [OF parts(5)] by (metis not_Cons_self2)
qed

section \<open>A diamond\<close>

text \<open>Node a leads to b and c, and d waits for both.\<close>

definition pad_digest :: "string \<Rightarrow> string" where
  "pad_digest x = take 64 (x @ replicate 64 (CHR ''0''))"

definition diamond_ops :: "(unit, unit) build_op list" where
  "diamond_ops =
     [BAddNode ''a'' (\<lambda>_. Inr ResNil) [], BAddNode ''b'' (\<lambda>_. Inr ResNil) [], BAddNode ''c'' (\<lambda>_. Inr ResNil) [],
      BAddNode ''d'' (\<lambda>_. Inr ResNil) [], BSetEntryPoint ''a'', BAddEdge ''a'' ''b'', BAddEdge ''a'' ''c'',
      BAddJoinEdge [''c'', ''b''] ''d'', BSetFinishPoint ''d'']"

definition diamond :: "(unit, unit) Graph" where
  "diamond = sg_graph (build pad_digest None diamond_ops)"

lemma diamond_joins: "all_joins diamond_ops = {([''b'', ''c''], ''d'')}"
  by (simp add: all_joins_def diamond_ops_def normalizeJoinStarts_def Start_def End_def)

lemma diamond_digest: "good_digest pad_digest (fst ` all_joins diamond_ops)"
  by (auto simp: good_digest_def pad_digest_def diamond_joins)

lemma diamond_compiles: "sg_Compile (build pad_digest None diamond_ops) = Inr diamond"
proof -
  have "sg_errs (build pad_digest None diamond_ops) = []" by code_simp
  moreover have "graph_validate diamond = None" unfolding diamond_def by code_simp
  ultimately show ?thesis by (simp add: Compile_Inr diamond_def)
qed

theorem graph_compiled_wiring_witness:
  "graph_has (g_entryPoint diamond) diamond \<and>
   g_edges diamond ''a'' = [\<lparr>e_From = ''a'', e_To = ''b''\<rparr>, \<lparr>e_From = ''a'', e_To = ''c''\<rparr>] \<and>
   g_conditionalEdges diamond = Map.empty \<and> GetChannel (branchChannel ''d'') (g_channels diamond) = None"
proof -
  note P = graph_compiled_wiring [OF diamond_digest diamond_compiles]
  have l: "links diamond_ops ''a'' = [(None, ''b''), (None, ''c'')]"
    by (simp add: links_def diamond_ops_def Start_def Let_def normalizeJoinStarts_def)
  have "g_edges diamond ''a'' = map (link_edge ''a'') (links diamond_ops ''a'')"
    using P by (elim conjE allE)
  then have "g_edges diamond ''a'' = [\<lparr>e_From = ''a'', e_To = ''b''\<rparr>, \<lparr>e_From = ''a'', e_To = ''c''\<rparr>]"
    by (simp add: l link_edge_def)
  moreover have "g_conditionalEdges diamond = asked_conds diamond_ops" using P by (elim conjE)
  then have "g_conditionalEdges diamond = Map.empty" by (simp add: asked_conds_def diamond_ops_def)
  moreover have "(f, ''d'') \<notin> all_edges diamond_ops" for f
    by (simp add: all_edges_def diamond_ops_def End_def)
  then have "GetChannel (branchChannel ''d'') (g_channels diamond) = None"
    using P by (elim conjE) (metis channel_names(2,5,8))
  ultimately show ?thesis using P [THEN conjunct2, THEN conjunct1] by (intro conjI)
qed

section \<open>Calls without effect\<close>

text \<open>A conditional edge from Start is accepted although no task has that node.\<close>

lemma nodes_error_conds: "nodes_error ns (g\<lparr>g_conditionalEdges := cs\<rparr>) = nodes_error ns g"
proof -
  have "targets_error err ts (g\<lparr>g_conditionalEdges := cs\<rparr>) = targets_error err ts g" for err ts
    by (induction ts) simp_all
  then show ?thesis by (induction ns) (auto cong: option.case_cong)
qed

lemma graph_conditional_from_start_accepted:
  assumes "sg_Compile sg = Inr g"
  shows "\<exists>g'. sg_Compile (sg_AddConditionalEdges Start cond [] sg) = Inr g' \<and> g_conditionalEdges g' Start \<noteq> None \<and>
    g_nodes g' = g_nodes g"
proof -
  have "graph_validate (g\<lparr>g_conditionalEdges := cs\<rparr>) = graph_validate g" for cs
    by (simp add: graph_validate_def nodes_error_conds cong: option.case_cong)
  then show ?thesis
    using assms by (auto simp: Compile_Inr sg_AddConditionalEdges_def graph_addConditionalEdge_def Start_def)
qed

text \<open>The name of the virtual end node can be taken.\<close>

lemma graph_end_node_accepted:
  "case sg_Compile (build pad_digest None (diamond_ops @ [BAddNode End (\<lambda>_. Inr ResNil) []])) of
     Inl e \<Rightarrow> False | Inr g \<Rightarrow> graph_has End g"
  by code_simp

end
