(* ===== verification/GraphExec.thy ===== *)
theory GraphExec
  imports GraphWiring GoDecimal
begin

text \<open>
  The executor of \<open>agentkit/graph\<close> (files \<open>executor.go\<close>, \<open>static_interrupt.go\<close>): the execution
  context, planning from channels, what a finished task does to state, channels and pending tasks,
  and the loop of supersteps. A node's function stands for its attempts and callbacks. The tasks of
  a superstep run one after the other, in an order that is an argument. Events, traces, metrics and
  the node cache are not part of the model. Three entries of the state that the executor keeps for
  itself are fields of the context: the next nodes, the interrupt inputs and the interrupt skips.
\<close>

section \<open>Tasks and the execution context\<close>

record 'a GraphTask =
  tk_NodeID :: string
  tk_Input :: "'a State"
  tk_Writes :: "'a channelWriteEntry list"
  tk_Triggers :: "string list"
  tk_TaskID :: string
  tk_TaskPath :: "string list"

record 'a PendingWrite =
  pw_Channel :: string
  pw_Value :: "'a any"
  pw_TaskID :: string
  pw_Sequence :: int64

type_synonym versions = "string \<rightharpoonup> string \<rightharpoonup> int64"

text \<open>The parts of a checkpoint that planning and resuming read; the skips are an entry of the saved state.\<close>

record 'a Checkpoint =
  cp_ChannelValues :: "'a State"
  cp_skips :: "string set"
  cp_ChannelVersions :: "(string \<times> int64) list"
  cp_BarrierSets :: "(string \<times> string list) list"
  cp_VersionsSeen :: "versions option"
  cp_NextNodes :: "string list"

record ('a, 'e) ExecutionContext =
  x_graph :: "('a, 'e) Graph"
  x_channels :: "'a Manager"
  x_State :: "'a State"
  x_pendingWrites :: "'a PendingWrite list"
  x_seq :: int64
  x_pendingTasks :: "'a GraphTask list"
  x_versionsSeen :: versions
  x_resumed :: bool
  x_lastCheckpoint :: "'a Checkpoint option"
  x_nextNodes :: "string list option"
  x_inputs :: "string \<rightharpoonup> 'a State list"
  x_skips :: "string set"

datatype 'e exec_error =
    NodeNotFound string | NodeErr string 'e | TaskPanic | CondErr string 'e | CondTarget string string string
  | NoEntryPoint

section \<open>Channels of a run\<close>

text \<open>\<open>buildChannelManager\<close>: fresh channels with the behaviour and the expected senders of the graph's.\<close>

fun build_channels :: "(string \<times> 'a Channel) list \<Rightarrow> 'a Manager \<Rightarrow> 'a Manager" where
  "build_channels [] m = m"
| "build_channels ((name, c) # cs) m =
     (let m = AddChannel name (ch_Behavior c) m in
      build_channels cs
        (if ch_Behavior c \<noteq> BehaviorBarrier then m
         else on_channel name (ch_SetBarrierExpected (ch_BarrierExpected c)) m))"

definition buildChannelManager :: "('a, 'e) Graph \<Rightarrow> 'a Manager" where
  "buildChannelManager g = build_channels (g_channels g) NewChannelManager"

definition restoreVersionsSeen :: "bool \<Rightarrow> 'a Checkpoint option \<Rightarrow> versions" where
  "restoreVersionsSeen resumed lc =
     (case lc of
        Some cp \<Rightarrow> if resumed then (case cp_VersionsSeen cp of Some vs \<Rightarrow> vs | None \<Rightarrow> Map.empty) else Map.empty
      | None \<Rightarrow> Map.empty)"

definition restoreChannelVersions :: "bool \<Rightarrow> 'a Checkpoint option \<Rightarrow> 'a Manager \<Rightarrow> 'a Manager" where
  "restoreChannelVersions resumed lc m =
     (case lc of
        Some cp \<Rightarrow>
          if resumed then fold (\<lambda>(name, v). on_channel name (\<lambda>c. c\<lparr>ch_Version := v\<rparr>)) (cp_ChannelVersions cp) m else m
      | None \<Rightarrow> m)"

definition restoreBarrierSets :: "bool \<Rightarrow> 'a Checkpoint option \<Rightarrow> 'a Manager \<Rightarrow> 'a Manager" where
  "restoreBarrierSets resumed lc m =
     (case lc of
        Some cp \<Rightarrow> if resumed then fold (\<lambda>(name, seen). on_channel name (ch_SetBarrierSeen seen)) (cp_BarrierSets cp) m else m
      | None \<Rightarrow> m)"

definition buildExecutionContext ::
    "('a, 'e) Graph \<Rightarrow> 'a State \<Rightarrow> bool \<Rightarrow> 'a Checkpoint option \<Rightarrow> ('a, 'e) ExecutionContext" where
  "buildExecutionContext g state resumed lc =
     \<lparr>x_graph = g,
      x_channels = restoreBarrierSets resumed lc (restoreChannelVersions resumed lc (buildChannelManager g)),
      x_State = state, x_pendingWrites = [], x_seq = 0, x_pendingTasks = [],
      x_versionsSeen = restoreVersionsSeen resumed lc, x_resumed = resumed, x_lastCheckpoint = lc,
      x_nextNodes = None, x_inputs = Map.empty, x_skips = {}\<rparr>"

definition update_channel :: "string \<Rightarrow> 'a any list \<Rightarrow> int \<Rightarrow> 'a Manager \<Rightarrow> 'a Manager" where
  "update_channel name values step m = on_channel name (\<lambda>c. fst (ch_Update values step c)) m"

text \<open>The input channels: one per key of the initial state (here a list of its entries).\<close>

fun initializeChannels :: "(string \<times> 'a any) list \<Rightarrow> bool \<Rightarrow> ('a, 'e) ExecutionContext \<Rightarrow> ('a, 'e) ExecutionContext" where
  "initializeChannels [] upd x = x"
| "initializeChannels ((key, val) # es) upd x =
     (let name = ''input:'' @ key;
          m = AddChannel name BehaviorLastValue (x_channels x);
          m = (if upd then update_channel name [val] StepUnmarked m else m)
      in initializeChannels es upd (x\<lparr>x_channels := m\<rparr>))"

definition applyPendingWrites :: "'a PendingWrite list \<Rightarrow> ('a, 'e) ExecutionContext \<Rightarrow> ('a, 'e) ExecutionContext" where
  "applyPendingWrites ws x =
     x\<lparr>x_channels := fold (\<lambda>w. update_channel (pw_Channel w) [pw_Value w] StepUnmarked)
                       (sort_key (\<lambda>w. sint (pw_Sequence w)) ws) (x_channels x)\<rparr>"

section \<open>Planning\<close>

definition consumeGraphInterruptInput ::
    "string \<Rightarrow> ('a, 'e) ExecutionContext \<Rightarrow> ('a, 'e) ExecutionContext \<times> 'a State option" where
  "consumeGraphInterruptInput i x =
     (if i = [] then (x, None)
      else case x_inputs x i of
        Some (s # ss) \<Rightarrow> (x\<lparr>x_inputs := (x_inputs x)(i := (if ss = [] then None else Some ss))\<rparr>, Some s)
      | _ \<Rightarrow> (x, None))"

definition createTask :: "string \<Rightarrow> int \<Rightarrow> ('a, 'e) ExecutionContext \<Rightarrow> ('a, 'e) ExecutionContext \<times> 'a GraphTask option" where
  "createTask i step x =
     (if i = End then (x, None)
      else case graph_Node i (x_graph x) of
        None \<Rightarrow> (x, None)
      | Some n \<Rightarrow>
          (case consumeGraphInterruptInput i x of
             (x', override) \<Rightarrow>
               (x', Some \<lparr>tk_NodeID = i, tk_Input = (case override of Some s \<Rightarrow> s | None \<Rightarrow> x_State x),
                          tk_Writes = nd_writers n, tk_Triggers = nd_triggers n,
                          tk_TaskID = i @ ''-'' @ FormatInt step, tk_TaskPath = [i]\<rparr>)))"

fun createTasks :: "string list \<Rightarrow> int \<Rightarrow> ('a, 'e) ExecutionContext \<Rightarrow> ('a, 'e) ExecutionContext \<times> 'a GraphTask list" where
  "createTasks [] step x = (x, [])"
| "createTasks (i # is) step x =
     (case createTask i step x of
        (x, None) \<Rightarrow> createTasks is step x
      | (x, Some t) \<Rightarrow> (case createTasks is step x of (x, ts) \<Rightarrow> (x, t # ts)))"

definition channel_available :: "string \<Rightarrow> 'a Manager \<Rightarrow> bool" where
  "channel_available ch m = (case GetChannel ch m of None \<Rightarrow> False | Some c \<Rightarrow> ch_Available c)"

definition acknowledge_all :: "string list \<Rightarrow> 'a Manager \<Rightarrow> 'a Manager" where
  "acknowledge_all names m = fold (\<lambda>name. on_channel name ch_Acknowledge) names m"

text \<open>\<open>createTriggeredTasks\<close>: one task per node, by identifier.\<close>

definition createTriggeredTasks ::
    "string list \<Rightarrow> int \<Rightarrow> ('a, 'e) ExecutionContext \<Rightarrow> ('a, 'e) ExecutionContext \<times> 'a GraphTask list" where
  "createTriggeredTasks is step x = createTasks (sort (remdups is)) step x"

definition planBasedOnAvailabilityTriggers ::
    "int \<Rightarrow> ('a, 'e) ExecutionContext \<Rightarrow> ('a, 'e) ExecutionContext \<times> 'a GraphTask list" where
  "planBasedOnAvailabilityTriggers step x =
     (let g = x_graph x;
          names = filter (\<lambda>ch. channel_available ch (x_channels x)) (sort (map fst (g_triggerToNodes g)));
          nodes = filter (\<lambda>i. i \<noteq> End \<and> graph_has i g) (concat (map (\<lambda>ch. graph_triggers ch g) names))
      in createTriggeredTasks nodes step (x\<lparr>x_channels := acknowledge_all names (x_channels x)\<rparr>))"

definition shouldTriggerNode :: "string \<Rightarrow> string \<Rightarrow> int64 \<Rightarrow> 'a Checkpoint option \<Rightarrow> bool" where
  "shouldTriggerNode i ch current lc =
     (case lc of
        None \<Rightarrow> True
      | Some cp \<Rightarrow>
          (case cp_VersionsSeen cp of
             None \<Rightarrow> True
           | Some seen \<Rightarrow>
               (case seen i of
                  None \<Rightarrow> True
                | Some vs \<Rightarrow> (case vs ch of None \<Rightarrow> True | Some v \<Rightarrow> sint current > sint v))))"

definition version_triggered :: "'a Checkpoint option \<Rightarrow> string \<Rightarrow> 'a Channel \<Rightarrow> string list \<Rightarrow> string list" where
  "version_triggered lc ch c is =
     filter (\<lambda>i. ch_Behavior c = BehaviorBarrier \<or> shouldTriggerNode i ch (ch_Version c) lc) is"

definition planBasedOnVersionTriggers ::
    "int \<Rightarrow> ('a, 'e) ExecutionContext \<Rightarrow> ('a, 'e) ExecutionContext \<times> 'a GraphTask list" where
  "planBasedOnVersionTriggers step x =
     (if x_lastCheckpoint x = None then (x, [])
      else let g = x_graph x;
               names = filter (\<lambda>ch. channel_available ch (x_channels x)) (sort (map fst (x_channels x)));
               nodes = concat (map (\<lambda>ch. case GetChannel ch (x_channels x) of
                                            None \<Rightarrow> []
                                          | Some c \<Rightarrow> version_triggered (x_lastCheckpoint x) ch c (graph_triggers ch g)) names)
           in createTriggeredTasks nodes step (x\<lparr>x_channels := acknowledge_all names (x_channels x)\<rparr>))"

definition planBasedOnChannelTriggers ::
    "int \<Rightarrow> ('a, 'e) ExecutionContext \<Rightarrow> ('a, 'e) ExecutionContext \<times> 'a GraphTask list" where
  "planBasedOnChannelTriggers step x =
     (if x_resumed x \<and> x_lastCheckpoint x \<noteq> None then planBasedOnVersionTriggers step x
      else planBasedOnAvailabilityTriggers step x)"

definition planStep ::
    "int \<Rightarrow> ('a, 'e) ExecutionContext \<Rightarrow> ('a, 'e) ExecutionContext \<times> ('e exec_error + 'a GraphTask list)" where
  "planStep step x =
     (case x_nextNodes x of
        Some (i # is) \<Rightarrow> (case createTasks (i # is) step x of (x, ts) \<Rightarrow> (x\<lparr>x_nextNodes := None\<rparr>, Inr ts))
      | _ \<Rightarrow>
          if x_pendingTasks x \<noteq> [] then (x\<lparr>x_pendingTasks := []\<rparr>, Inr (x_pendingTasks x))
          else if step = 0
               then if g_entryPoint (x_graph x) = [] then (x, Inl NoEntryPoint)
                    else (case createTask (g_entryPoint (x_graph x)) step x of
                            (x, None) \<Rightarrow> (x, Inr []) | (x, Some t) \<Rightarrow> (x, Inr [t]))
               else (case planBasedOnChannelTriggers step x of (x, ts) \<Rightarrow> (x, Inr ts)))"

definition planTasksForBspStep ::
    "int \<Rightarrow> int \<Rightarrow> ('a, 'e) ExecutionContext \<Rightarrow> ('a, 'e) ExecutionContext \<times> ('e exec_error + 'a GraphTask list)" where
  "planTasksForBspStep startStep step x =
     (if step = 0 \<and> x_resumed x \<and> startStep > 0
      then (case planBasedOnChannelTriggers step x of (x, ts) \<Rightarrow> (x, Inr ts))
      else planStep step x)"

section \<open>What a finished task does\<close>

definition recordWrite :: "string \<Rightarrow> 'a any \<Rightarrow> string \<Rightarrow> ('a, 'e) ExecutionContext \<Rightarrow> ('a, 'e) ExecutionContext" where
  "recordWrite ch v tid x =
     (let s = x_seq x + 1
      in x\<lparr>x_seq := s,
           x_pendingWrites := x_pendingWrites x @ [\<lparr>pw_Channel = ch, pw_Value = v, pw_TaskID = tid, pw_Sequence = s\<rparr>]\<rparr>)"

definition writeChannel ::
    "string \<Rightarrow> 'a any \<Rightarrow> string \<Rightarrow> int \<Rightarrow> ('a, 'e) ExecutionContext \<Rightarrow> ('a, 'e) ExecutionContext" where
  "writeChannel ch v tid step x =
     (case GetChannel ch (x_channels x) of
        None \<Rightarrow> x
      | Some _ \<Rightarrow> recordWrite ch v tid (x\<lparr>x_channels := update_channel ch [v] step (x_channels x)\<rparr>))"

definition processChannelWrites ::
    "string \<Rightarrow> 'a channelWriteEntry list \<Rightarrow> int \<Rightarrow> ('a, 'e) ExecutionContext \<Rightarrow> ('a, 'e) ExecutionContext" where
  "processChannelWrites tid ws step x = fold (\<lambda>w. writeChannel (we_Channel w) (we_Value w) tid step) ws x"

text \<open>A channel made at run time, in the graph and in the run, that triggers one node.\<close>

definition ensureTrigger :: "string \<Rightarrow> string \<Rightarrow> ('a, 'e) ExecutionContext \<Rightarrow> ('a, 'e) ExecutionContext" where
  "ensureTrigger ch to x =
     x\<lparr>x_graph := graph_addNodeTrigger ch to (graph_addChannel ch BehaviorLastValue (x_graph x)),
       x_channels := AddChannel ch BehaviorLastValue (x_channels x)\<rparr>"

definition handleCommandRouting ::
    "string \<Rightarrow> string \<Rightarrow> int \<Rightarrow> ('a, 'e) ExecutionContext \<Rightarrow> ('a, 'e) ExecutionContext" where
  "handleCommandRouting tid target step x =
     writeChannel (triggerChannel target) channelUpdateMarker tid step (ensureTrigger (triggerChannel target) target x)"

definition resolveTargetByEnds :: "string \<Rightarrow> string \<Rightarrow> ('a, 'e) Graph \<Rightarrow> string" where
  "resolveTargetByEnds from target g =
     (if target = [] then []
      else case graph_Node from g of
        None \<Rightarrow> []
      | Some n \<Rightarrow> (case map_of (nd_ends n) target of Some concrete \<Rightarrow> concrete | None \<Rightarrow> []))"

definition resolveGoTo :: "string \<Rightarrow> ('a, 'e) Graph \<Rightarrow> 'a Command \<Rightarrow> 'a Command" where
  "resolveGoTo i g c =
     (if cmd_GoTo c \<noteq> [] \<and> resolveTargetByEnds i (cmd_GoTo c) g \<noteq> []
      then c\<lparr>cmd_GoTo := resolveTargetByEnds i (cmd_GoTo c) g\<rparr> else c)"

type_synonym 'a reducer = "'a any \<Rightarrow> 'a any \<Rightarrow> 'a any"

definition updateStateFromResult :: "'a reducer \<Rightarrow> 'a State \<Rightarrow> ('a, 'e) ExecutionContext \<Rightarrow> ('a, 'e) ExecutionContext" where
  "updateStateFromResult oneShot s x =
     x\<lparr>x_State := ApplyUpdate oneShot (g_schema (x_graph x)) (x_State x)
                     (\<lambda>k. if isInternalStateKey k then None else s k)\<rparr>"

definition handleCommandResult ::
    "'a reducer \<Rightarrow> 'a Command \<Rightarrow> int \<Rightarrow> string \<Rightarrow> ('a, 'e) ExecutionContext \<Rightarrow> ('a, 'e) ExecutionContext" where
  "handleCommandResult oneShot c step tid x =
     (let x = (case cmd_Update c of None \<Rightarrow> x | Some u \<Rightarrow> updateStateFromResult oneShot u x)
      in if cmd_GoTo c \<noteq> [] then handleCommandRouting tid (cmd_GoTo c) step x else x)"

fun join_path :: "string list \<Rightarrow> string" where
  "join_path [] = []"
| "join_path [p] = p"
| "join_path (p # ps) = p @ ''/'' @ join_path ps"

text \<open>The tasks of a fan-out; None is the panic at a nil command.\<close>

fun command_tasks ::
    "'a Command option list \<Rightarrow> int \<Rightarrow> 'a GraphTask \<Rightarrow> string \<Rightarrow> int \<Rightarrow> ('a, 'e) ExecutionContext \<Rightarrow> 'a GraphTask list option" where
  "command_tasks [] idx t source next x = Some []"
| "command_tasks (None # cs) idx t source next x = None"
| "command_tasks (Some c # cs) idx t source next x =
     (let target = (if cmd_GoTo c = [] then tk_NodeID t else cmd_GoTo c);
          merged = x_State x ++ (case cmd_Update c of Some u \<Rightarrow> u | None \<Rightarrow> Map.empty);
          node = graph_Node target (x_graph x);
          new = \<lparr>tk_NodeID = target, tk_Input = merged,
                 tk_Writes = (case node of Some n \<Rightarrow> nd_writers n | None \<Rightarrow> []),
                 tk_Triggers = (case node of Some n \<Rightarrow> nd_triggers n | None \<Rightarrow> []),
                 tk_TaskID = target @ ''-'' @ FormatInt next @ ''-'' @ source @ ''-'' @ FormatInt idx,
                 tk_TaskPath = tk_TaskPath t\<rparr>
      in map_option (Cons new) (command_tasks cs (idx + 1) t source next x))"

definition enqueueCommands ::
    "'a GraphTask \<Rightarrow> 'a Command option list \<Rightarrow> int \<Rightarrow> ('a, 'e) ExecutionContext \<Rightarrow> ('a, 'e) ExecutionContext option" where
  "enqueueCommands t cmds step x =
     (let source = (if tk_TaskID t \<noteq> [] then tk_TaskID t
                    else if tk_TaskPath t \<noteq> [] then join_path (tk_TaskPath t) else tk_NodeID t)
      in map_option (\<lambda>ts. x\<lparr>x_pendingTasks := x_pendingTasks x @ ts\<rparr>) (command_tasks cmds 0 t source (step + 1) x))"

text \<open>The result says whether the task routed explicitly.\<close>

definition handleNodeResult ::
    "'a reducer \<Rightarrow> 'a GraphTask \<Rightarrow> 'a NodeResult \<Rightarrow> int \<Rightarrow> ('a, 'e) ExecutionContext \<Rightarrow>
     ('a, 'e) ExecutionContext \<times> ('e exec_error + bool)" where
  "handleNodeResult oneShot t res step x =
     (case (case res of
              ResNil \<Rightarrow> Some (x, False)
            | ResState s \<Rightarrow> Some (updateStateFromResult oneShot s x, False)
            | ResCommand None \<Rightarrow> Some (x, False)
            | ResCommand (Some c) \<Rightarrow>
                (let c = resolveGoTo (tk_NodeID t) (x_graph x) c
                 in Some (handleCommandResult oneShot c step (tk_TaskID t) x, cmd_GoTo c \<noteq> []))
            | ResCommands cs \<Rightarrow>
                map_option (\<lambda>x. (x, True))
                  (enqueueCommands t (map (map_option (resolveGoTo (tk_NodeID t) (x_graph x))) cs) step x)
            | ResOther \<Rightarrow> Some (x, False)) of
        None \<Rightarrow> (x, Inl TaskPanic)
      | Some (x, routed) \<Rightarrow>
          (if routed then x else processChannelWrites (tk_TaskID t) (tk_Writes t) step x, Inr routed))"

definition updateVersionsSeen :: "string \<Rightarrow> string list \<Rightarrow> ('a, 'e) ExecutionContext \<Rightarrow> ('a, 'e) ExecutionContext" where
  "updateVersionsSeen i triggers x =
     (let seen = (case x_versionsSeen x i of Some vs \<Rightarrow> vs | None \<Rightarrow> Map.empty);
          seen = fold (\<lambda>ch vs. case GetChannel ch (x_channels x) of None \<Rightarrow> vs | Some c \<Rightarrow> vs(ch \<mapsto> ch_Version c))
                   triggers seen
      in x\<lparr>x_versionsSeen := (x_versionsSeen x)(i \<mapsto> seen)\<rparr>)"

definition processConditionalResult ::
    "('a, 'e) ConditionalEdge \<Rightarrow> string \<Rightarrow> int \<Rightarrow> string \<Rightarrow> ('a, 'e) ExecutionContext \<Rightarrow>
     ('a, 'e) ExecutionContext \<times> 'e exec_error option" where
  "processConditionalResult ce result step tid x =
     (let target = (case map_of (c_PathMap ce) result of
                      Some t \<Rightarrow> t
                    | None \<Rightarrow> (let concrete = resolveTargetByEnds (c_From ce) result (x_graph x)
                               in if concrete \<noteq> [] then concrete else result))
      in if target \<noteq> End \<and> \<not> graph_has target (x_graph x) then (x, Some (CondTarget (c_From ce) result target))
         else (writeChannel (branchChannel target) channelUpdateMarker tid step (ensureTrigger (branchChannel target) target x),
               None))"

fun conditional_loop ::
    "('a, 'e) ConditionalEdge \<Rightarrow> string list \<Rightarrow> string list \<Rightarrow> int \<Rightarrow> string \<Rightarrow> ('a, 'e) ExecutionContext \<Rightarrow>
     ('a, 'e) ExecutionContext \<times> 'e exec_error option" where
  "conditional_loop ce [] seen step tid x = (x, None)"
| "conditional_loop ce (r # rs) seen step tid x =
     (if r = [] \<or> List.member seen r then conditional_loop ce rs seen step tid x
      else case processConditionalResult ce r step tid x of
             (x, Some e) \<Rightarrow> (x, Some e)
           | (x, None) \<Rightarrow> conditional_loop ce rs (r # seen) step tid x)"

definition processConditionalEdges ::
    "'a GraphTask \<Rightarrow> int \<Rightarrow> ('a, 'e) ExecutionContext \<Rightarrow> ('a, 'e) ExecutionContext \<times> 'e exec_error option" where
  "processConditionalEdges t step x =
     (case g_conditionalEdges (x_graph x) (tk_NodeID t) of
        None \<Rightarrow> (x, None)
      | Some ce \<Rightarrow>
          (case c_Condition ce of
             None \<Rightarrow> (x, Some TaskPanic)
           | Some cond \<Rightarrow>
               (case cond (x_State x) of
                  Inl e \<Rightarrow> (x, Some (CondErr (tk_NodeID t) e))
                | Inr results \<Rightarrow> conditional_loop ce results [] step (tk_TaskID t) x)))"

section \<open>Running tasks\<close>

definition StateKeyCurrentNodeID :: string where "StateKeyCurrentNodeID = ''current_node_id''"

definition executeNodeFunction :: "'a GraphTask \<Rightarrow> ('a, 'e) ExecutionContext \<Rightarrow> 'e exec_error + 'a NodeResult" where
  "executeNodeFunction t x =
     (case graph_Node (tk_NodeID t) (x_graph x) of
        None \<Rightarrow> Inl (NodeNotFound (tk_NodeID t))
      | Some n \<Rightarrow>
          (case nd_Function n ((tk_Input t)(StateKeyCurrentNodeID \<mapsto> AnyString (tk_NodeID t))) of
             Inl e \<Rightarrow> Inl (NodeErr (tk_NodeID t) e)
           | Inr res \<Rightarrow> Inr res))"

definition finalizeSuccessfulExecution ::
    "'a reducer \<Rightarrow> 'a GraphTask \<Rightarrow> 'a NodeResult \<Rightarrow> int \<Rightarrow> ('a, 'e) ExecutionContext \<Rightarrow>
     ('a, 'e) ExecutionContext \<times> 'e exec_error option" where
  "finalizeSuccessfulExecution oneShot t res step x =
     (case handleNodeResult oneShot t res step x of
        (x, Inl e) \<Rightarrow> (x, Some e)
      | (x, Inr routed) \<Rightarrow>
          (let x = updateVersionsSeen (tk_NodeID t) (tk_Triggers t) x
           in if routed then (x, None) else processConditionalEdges t step x))"

definition executeSingleTask ::
    "'a reducer \<Rightarrow> 'a GraphTask \<Rightarrow> int \<Rightarrow> ('a, 'e) ExecutionContext \<Rightarrow> ('a, 'e) ExecutionContext \<times> 'e exec_error option" where
  "executeSingleTask oneShot t step x =
     (case executeNodeFunction t x of
        Inl e \<Rightarrow> (x, Some e)
      | Inr res \<Rightarrow> finalizeSuccessfulExecution oneShot t res step x)"

text \<open>\<open>executeStep\<close>: every task runs, also after an error; the first error is the step's.\<close>

fun executeStep ::
    "'a reducer \<Rightarrow> 'a GraphTask list \<Rightarrow> int \<Rightarrow> ('a, 'e) ExecutionContext \<Rightarrow> ('a, 'e) ExecutionContext \<times> 'e exec_error option" where
  "executeStep oneShot [] step x = (x, None)"
| "executeStep oneShot (t # ts) step x =
     (case executeSingleTask oneShot t step x of
        (x, e) \<Rightarrow> (case executeStep oneShot ts step x of
                   (x, e') \<Rightarrow> (x, if e = None then e' else e)))"

section \<open>Static interrupts\<close>

definition uniqueSortedTaskNodes :: "'a GraphTask list \<Rightarrow> string list" where
  "uniqueSortedTaskNodes ts = sort (remdups (filter (\<lambda>i. i \<noteq> []) (map tk_NodeID ts)))"

definition staticInterruptHits :: "'a GraphTask list \<Rightarrow> bool \<Rightarrow> ('a, 'e) Graph \<Rightarrow> string list" where
  "staticInterruptHits ts early g =
     filter (\<lambda>i. case graph_Node i g of
                   None \<Rightarrow> False | Some n \<Rightarrow> if early then nd_interruptBefore n else nd_interruptAfter n)
       (uniqueSortedTaskNodes ts)"

text \<open>The part of an interrupt that decides where a resumed run goes on.\<close>

record InterruptError =
  in_NodeID :: string
  in_SkipRerun :: bool
  in_NextNodes :: "string list"

definition newStaticInterruptError :: "bool \<Rightarrow> string list \<Rightarrow> InterruptError" where
  "newStaticInterruptError early nodes =
     \<lparr>in_NodeID = (case nodes of [] \<Rightarrow> [] | i # _ \<Rightarrow> i), in_SkipRerun = (\<not> early), in_NextNodes = []\<rparr>"

definition maybeStaticInterruptBefore ::
    "'a GraphTask list \<Rightarrow> ('a, 'e) ExecutionContext \<Rightarrow> ('a, 'e) ExecutionContext \<times> InterruptError option" where
  "maybeStaticInterruptBefore ts x =
     (let hits = staticInterruptHits ts True (x_graph x) in
      if hits = [] then (x, None)
      else if list_all (\<lambda>i. i \<in> x_skips x) hits then (x\<lparr>x_skips := x_skips x - set hits\<rparr>, None)
      else (x\<lparr>x_skips := x_skips x \<union> set hits\<rparr>,
            Some ((newStaticInterruptError True hits)\<lparr>in_NextNodes := uniqueSortedTaskNodes ts\<rparr>)))"

definition maybeStaticInterruptAfter :: "'a GraphTask list \<Rightarrow> ('a, 'e) ExecutionContext \<Rightarrow> InterruptError option" where
  "maybeStaticInterruptAfter ts x =
     (let hits = staticInterruptHits ts False (x_graph x)
      in if hits = [] then None else Some (newStaticInterruptError False hits))"

section \<open>Where a run stands\<close>

definition getNextNodes :: "('a, 'e) ExecutionContext \<Rightarrow> string list" where
  "getNextNodes x =
     rev (remdups (rev (concat (map snd (filter (\<lambda>(ch, _). channel_available ch (x_channels x)) (g_triggerToNodes (x_graph x)))))))"

definition collectChannelVersions :: "('a, 'e) ExecutionContext \<Rightarrow> (string \<times> int64) list" where
  "collectChannelVersions x = map (\<lambda>(name, c). (name, ch_Version c)) (x_channels x)"

end
