(* ===== verification/GraphRun.thy ===== *)
theory GraphRun
  imports GraphExec
begin

text \<open>
  Runs of the superstep engine of \<open>agentkit/graph\<close> (\<open>executor.go\<close>): checkpoints, what an interrupt
  saves, the loop of supersteps and resuming. The saver is an argument: a function that stores a
  checkpoint with its writes, or fails. Conversions of saved values from JSON are the identity;
  external interrupts, time limits and the events of a run are not part of the model.
\<close>

section \<open>Checkpoints\<close>

record 'a CheckpointTuple =
  tu_Checkpoint :: "'a Checkpoint"
  tu_Step :: int
  tu_PendingWrites :: "'a PendingWrite list"
  tu_Inputs :: "string \<rightharpoonup> 'a State list"

text \<open>\<open>reflect.Zero\<close>, the reducer that reads JSON and the test for an interrupt are arguments.\<close>

record ('a, 'e, 's) Executor =
  ex_maxSteps :: int
  ex_maxConcurrency :: nat
  ex_oneShot :: "'a reducer"
  ex_Zero :: "('a any \<Rightarrow> bool) \<Rightarrow> 'a any"
  ex_IsInterrupt :: "'e \<Rightarrow> bool"
  ex_PutFull :: "('a CheckpointTuple \<Rightarrow> 's \<Rightarrow> 's option) option"

definition isUnsafeStateKey :: "string \<Rightarrow> bool" where
  "isUnsafeStateKey key \<longleftrightarrow> List.member
     [''exec_context'', ''parent_agent'', ''node_callbacks'', ''tool_callbacks'', ''model_callbacks'', ''agent_callbacks'',
      ''current_node_id'', ''__current_trace_step_id__'', ''session'', ''__graph_interrupt_inputs__''] key"

definition createCheckpointFromState :: "('a, 'e) ExecutionContext \<Rightarrow> 'a Checkpoint" where
  "createCheckpointFromState x =
     \<lparr>cp_ChannelValues = (\<lambda>k. if isUnsafeStateKey k then None else x_State x k), cp_skips = x_skips x,
      cp_ChannelVersions = collectChannelVersions x,
      cp_BarrierSets =
        map (\<lambda>(name, c). (name, ch_BarrierSeenSnapshot c))
          (filter (\<lambda>(_, c). ch_Behavior c = BehaviorBarrier \<and> ch_BarrierSeenSnapshot c \<noteq> []) (x_channels x)),
      cp_VersionsSeen = Some (x_versionsSeen x), cp_NextNodes = []\<rparr>"

definition clearChannelStepMarks :: "('a, 'e) ExecutionContext \<Rightarrow> ('a, 'e) ExecutionContext" where
  "clearChannelStepMarks x = x\<lparr>x_channels := map (\<lambda>(name, c). (name, ch_ClearStepMark c)) (x_channels x)\<rparr>"

text \<open>The result tells whether the save failed; \<open>initial\<close> says that the source is the input.\<close>

definition createCheckpointAndSave ::
    "('a, 'e, 's) Executor \<Rightarrow> bool \<Rightarrow> int \<Rightarrow> ('a, 'e) ExecutionContext \<times> 's \<Rightarrow> ('a, 'e) ExecutionContext \<times> 's" where
  "createCheckpointAndSave ex initial step xs =
     (case (xs, ex_PutFull ex) of
        ((x, s), None) \<Rightarrow> (x, s)
      | ((x, s), Some put) \<Rightarrow>
          (let writes = x_pendingWrites x;
               next = (if initial \<and> step = - 1
                       then (if g_entryPoint (x_graph x) \<noteq> [] then [g_entryPoint (x_graph x)] else [])
                       else getNextNodes x);
               cp = (createCheckpointFromState x)\<lparr>cp_NextNodes := next\<rparr>;
               x = x\<lparr>x_pendingWrites := []\<rparr>
           in case put \<lparr>tu_Checkpoint = cp, tu_Step = step, tu_PendingWrites = writes, tu_Inputs = Map.empty\<rparr> s of
                None \<Rightarrow> (x, s)
              | Some s \<Rightarrow> (clearChannelStepMarks x, s)))"

definition interrupt_NextNodes :: "InterruptError \<Rightarrow> ('a, 'e) ExecutionContext \<Rightarrow> string list" where
  "interrupt_NextNodes intr x =
     (let next = (if in_NextNodes intr \<noteq> [] then in_NextNodes intr else getNextNodes x)
      in if \<not> in_SkipRerun intr \<and> \<not> List.member next (in_NodeID intr) \<and> in_NodeID intr \<noteq> []
         then in_NodeID intr # next else next)"

definition handleInterrupt ::
    "('a, 'e, 's) Executor \<Rightarrow> InterruptError \<Rightarrow> int \<Rightarrow> ('a, 'e) ExecutionContext \<times> 's \<Rightarrow> ('a, 'e) ExecutionContext \<times> 's" where
  "handleInterrupt ex intr step xs =
     (case (xs, ex_PutFull ex) of
        ((x, s), None) \<Rightarrow> (x, s)
      | ((x, s), Some put) \<Rightarrow>
          (let cp = (createCheckpointFromState x)\<lparr>cp_NextNodes := interrupt_NextNodes intr x\<rparr>
           in case put \<lparr>tu_Checkpoint = cp, tu_Step = step, tu_PendingWrites = [], tu_Inputs = Map.empty\<rparr> s of
                None \<Rightarrow> (x, s) | Some s \<Rightarrow> (x, s)))"

section \<open>The loop of supersteps\<close>

datatype 'e bsp_result = BspStop | BspExecuted | BspFailed "'e exec_error" | BspInterrupted InterruptError

fun task_interrupt :: "('a, 'e, 's) Executor \<Rightarrow> 'e exec_error \<Rightarrow> InterruptError option" where
  "task_interrupt ex (NodeErr i e) =
     (if ex_IsInterrupt ex e then Some \<lparr>in_NodeID = i, in_SkipRerun = False, in_NextNodes = []\<rparr> else None)"
| "task_interrupt ex _ = None"

text \<open>\<open>order\<close> is the order in which the workers run the tasks of a step.\<close>

definition runBspStep ::
    "('a, 'e, 's) Executor \<Rightarrow> ('a GraphTask list \<Rightarrow> 'a GraphTask list) \<Rightarrow> int \<Rightarrow> int \<Rightarrow> ('a, 'e) ExecutionContext \<times> 's \<Rightarrow>
     (('a, 'e) ExecutionContext \<times> 's) \<times> 'e bsp_result" where
  "runBspStep ex order startStep step xs =
     (case planTasksForBspStep startStep step (fst xs) of
        (x, Inl e) \<Rightarrow> ((x, snd xs), BspFailed e)
      | (x, Inr ts) \<Rightarrow>
          if ts = [] then ((x, snd xs), BspStop)
          else
            (case maybeStaticInterruptBefore ts x of
               (x, Some intr) \<Rightarrow> (handleInterrupt ex intr step (x, snd xs), BspInterrupted intr)
             | (x, None) \<Rightarrow>
                 (case executeStep (ex_oneShot ex) (order ts) step x of
                    (x, Some e) \<Rightarrow>
                      (case task_interrupt ex e of
                         Some intr \<Rightarrow> (handleInterrupt ex intr step (x, snd xs), BspInterrupted intr)
                       | None \<Rightarrow> ((x, snd xs), BspFailed e))
                  | (x, None) \<Rightarrow>
                      (case maybeStaticInterruptAfter ts x of
                         Some intr \<Rightarrow> (handleInterrupt ex intr step (x, snd xs), BspInterrupted intr)
                       | None \<Rightarrow> (createCheckpointAndSave ex False step (x, snd xs), BspExecuted)))))"

text \<open>The loop; the number is the supersteps left, and the count those executed.\<close>

fun bsp_loop ::
    "('a, 'e, 's) Executor \<Rightarrow> (int \<Rightarrow> 'a GraphTask list \<Rightarrow> 'a GraphTask list) \<Rightarrow> int \<Rightarrow> nat \<Rightarrow> int \<Rightarrow> nat \<Rightarrow>
     ('a, 'e) ExecutionContext \<times> 's \<Rightarrow> (('a, 'e) ExecutionContext \<times> 's) \<times> nat \<times> 'e bsp_result" where
  "bsp_loop ex order startStep 0 step n xs = (xs, n, BspStop)"
| "bsp_loop ex order startStep (Suc k) step n xs =
     (case runBspStep ex (order step) startStep step xs of
        (xs, BspExecuted) \<Rightarrow> bsp_loop ex order startStep k (step + 1) (n + 1) xs
      | (xs, r) \<Rightarrow> (xs, n, r))"

definition runBspLoop ::
    "('a, 'e, 's) Executor \<Rightarrow> (int \<Rightarrow> 'a GraphTask list \<Rightarrow> 'a GraphTask list) \<Rightarrow> int \<Rightarrow> ('a, 'e) ExecutionContext \<times> 's \<Rightarrow>
     (('a, 'e) ExecutionContext \<times> 's) \<times> nat \<times> 'e bsp_result" where
  "runBspLoop ex order startStep xs = bsp_loop ex order startStep (nat (ex_maxSteps ex - startStep)) startStep 0 xs"

section \<open>Starting and resuming\<close>

text \<open>Schema defaults, or zero values, for the fields a state lacks.\<close>

definition field_default :: "('a, 'e, 's) Executor \<Rightarrow> 'a StateField \<Rightarrow> 'a any option" where
  "field_default ex f = (case sf_Default f of Some d \<Rightarrow> Some d | None \<Rightarrow> map_option (ex_Zero ex) (sf_Type f))"

definition initializeState :: "('a, 'e, 's) Executor \<Rightarrow> ('a, 'e) Graph \<Rightarrow> 'a State \<Rightarrow> 'a State" where
  "initializeState ex g initial =
     (\<lambda>k. case initial k of
        Some v \<Rightarrow> Some v
      | None \<Rightarrow> (case map_of (g_schema g) k of None \<Rightarrow> None | Some f \<Rightarrow> field_default ex f))"

definition restoreStateFromCheckpoint :: "('a, 'e, 's) Executor \<Rightarrow> ('a, 'e) Graph \<Rightarrow> 'a CheckpointTuple \<Rightarrow> 'a State" where
  "restoreStateFromCheckpoint ex g tu = initializeState ex g (cp_ChannelValues (tu_Checkpoint tu))"

definition mergeInitialStateNonInternal :: "string set \<Rightarrow> 'a State \<Rightarrow> 'a State \<Rightarrow> 'a State" where
  "mergeInitialStateNonInternal overrides initial restored =
     (\<lambda>k. case initial k of
        None \<Rightarrow> restored k
      | Some v \<Rightarrow>
          if take 1 k = ''_'' then restored k
          else if k \<in> overrides then Some v
          else (case restored k of Some r \<Rightarrow> Some r | None \<Rightarrow> Some v))"

text \<open>\<open>applyExecutableNextNodes\<close>: without pending writes, next nodes that can run are taken from the checkpoint.\<close>

definition applyExecutableNextNodes :: "'a CheckpointTuple \<Rightarrow> string list option" where
  "applyExecutableNextNodes tu =
     (let next = cp_NextNodes (tu_Checkpoint tu) in
      if tu_PendingWrites tu \<noteq> [] \<or> next = [] then None
      else if list_ex (\<lambda>i. i \<noteq> End \<and> i \<noteq> []) next then Some next else None)"

text \<open>
  The context of a run before its first step, and that step. Entries are the listing of the state by
  which the input channels are made.
\<close>

definition startRun ::
    "('a, 'e, 's) Executor \<Rightarrow> ('a, 'e) Graph \<Rightarrow> ('a State \<Rightarrow> (string \<times> 'a any) list) \<Rightarrow> 'a State \<Rightarrow> 's \<Rightarrow>
     (('a, 'e) ExecutionContext \<times> 's) \<times> int" where
  "startRun ex g entries initial s =
     (let st = initializeState ex g initial;
          x = initializeChannels (entries st) True (buildExecutionContext g st False None)
      in (createCheckpointAndSave ex True (- 1) (x, s), 0))"

definition resumeRun ::
    "('a, 'e, 's) Executor \<Rightarrow> ('a, 'e) Graph \<Rightarrow> ('a State \<Rightarrow> (string \<times> 'a any) list) \<Rightarrow> string set \<Rightarrow> 'a State \<Rightarrow>
     'a CheckpointTuple \<Rightarrow> 's \<Rightarrow> (('a, 'e) ExecutionContext \<times> 's) \<times> int" where
  "resumeRun ex g entries overrides initial tu s =
     (let st = mergeInitialStateNonInternal overrides initial (restoreStateFromCheckpoint ex g tu);
          x = (buildExecutionContext g st True (Some (tu_Checkpoint tu)))
                \<lparr>x_nextNodes := applyExecutableNextNodes tu, x_inputs := tu_Inputs tu, x_skips := cp_skips (tu_Checkpoint tu)\<rparr>;
          x = initializeChannels (entries st) True x;
          x = (if tu_PendingWrites tu \<noteq> [] then x\<lparr>x_pendingWrites := tu_PendingWrites tu\<rparr> else x);
          x = (if x_pendingWrites x \<noteq> [] then applyPendingWrites (x_pendingWrites x) x else x)
      in ((x, s), if tu_Step tu \<ge> 0 then tu_Step tu + 1 else 0))"

end
