(* ===== verification/GraphResume.thy ===== *)
theory GraphResume
  imports GraphRun
begin

text \<open>
  Resuming a run from its last checkpoint, computed on small graphs: where a resumed run does not
  go on as the interrupted one would have.
\<close>

section \<open>Small graphs\<close>

text \<open>Executors that keep every checkpoint in a list; the second stops after its superstep n.\<close>

definition keeper :: "int \<Rightarrow> (unit, bool, unit CheckpointTuple list) Executor" where
  "keeper n =
     \<lparr>ex_maxSteps = n, ex_maxConcurrency = 1, ex_oneShot = (\<lambda>_ u. u), ex_Zero = (\<lambda>_. AnyNil), ex_IsInterrupt = (\<lambda>b. b),
      ex_PutFull = Some (\<lambda>tu s. Some (s @ [tu]))\<rparr>"

definition fresh_checkpoint :: "int \<Rightarrow> (unit, bool) Graph \<Rightarrow> unit CheckpointTuple" where
  "fresh_checkpoint n g =
     (case startRun (keeper n) g (\<lambda>_. []) Map.empty [] of
        (xs, step) \<Rightarrow> (case runBspLoop (keeper n) (\<lambda>_ ts. ts) step xs of ((_, s), _, _) \<Rightarrow> last s))"

definition resumed_checkpoint :: "int \<Rightarrow> (unit, bool) Graph \<Rightarrow> unit CheckpointTuple \<Rightarrow> unit CheckpointTuple" where
  "resumed_checkpoint n g tu =
     (case resumeRun (keeper n) g (\<lambda>_. []) {} Map.empty tu [] of
        (xs, step) \<Rightarrow> (case runBspLoop (keeper n) (\<lambda>_ ts. ts) step xs of ((_, s), _, _) \<Rightarrow> last s))"

text \<open>The nodes of the first superstep of a run resumed from a checkpoint.\<close>

definition resumed_plan :: "(unit, bool) Graph \<Rightarrow> unit CheckpointTuple \<Rightarrow> string list" where
  "resumed_plan g tu =
     (case resumeRun (keeper 10) g (\<lambda>_. []) {} Map.empty tu [] of
        (xs, step) \<Rightarrow> (case planTasksForBspStep step step (fst xs) of (_, Inl _) \<Rightarrow> [] | (_, Inr ts) \<Rightarrow> map tk_NodeID ts))"

abbreviation node_op :: "string \<Rightarrow> bool + unit NodeResult \<Rightarrow> (unit, bool) build_op" where
  "node_op i r \<equiv> BAddNode i (\<lambda>_. r) []"

definition chain_graph :: "(unit, bool) Graph" where
  "chain_graph = sg_graph (build pad_digest None
     [node_op ''a'' (Inr ResNil), node_op ''b'' (Inr ResNil), node_op ''c'' (Inr ResNil), BSetEntryPoint ''a'',
      BAddEdge ''a'' ''b'', BAddEdge ''b'' ''c''])"

section \<open>Resuming\<close>

text \<open>A run resumed once goes on where it stopped.\<close>

lemma chain_resume: "resumed_plan chain_graph (fresh_checkpoint 1 chain_graph) = [''b'']"
  by code_simp

text \<open>
  The writes a resumed run has replayed stay in its list, and the next checkpoint saves them again:
  a second resume runs b a second time, although that checkpoint says that c is next.
\<close>

lemma graph_second_resume_reruns:
  "cp_NextNodes (tu_Checkpoint (resumed_checkpoint 2 chain_graph (fresh_checkpoint 1 chain_graph))) = [''c''] \<and>
   resumed_plan chain_graph (resumed_checkpoint 2 chain_graph (fresh_checkpoint 1 chain_graph)) = [''b'', ''c'']"
  by code_simp

text \<open>The tasks of a fan-out are not in the checkpoint.\<close>

definition fan_graph :: "(unit, bool) Graph" where
  "fan_graph = sg_graph (build pad_digest None
     [node_op ''a'' (Inr (ResCommands [Some \<lparr>cmd_Update = None, cmd_GoTo = ''b''\<rparr>])), node_op ''b'' (Inr ResNil), BSetEntryPoint ''a''])"

lemma graph_fan_out_lost:
  "(case startRun (keeper 1) fan_graph (\<lambda>_. []) Map.empty [] of
      (xs, step) \<Rightarrow> (case runBspLoop (keeper 1) (\<lambda>_ ts. ts) step xs of ((x, _), _, _) \<Rightarrow> map tk_NodeID (x_pendingTasks x))) = [''b''] \<and>
   resumed_plan fan_graph (fresh_checkpoint 1 fan_graph) = []"
  by code_simp

text \<open>Of two nodes that interrupt the same superstep only the first is run again.\<close>

definition pair_graph :: "(unit, bool) Graph" where
  "pair_graph = sg_graph (build pad_digest None
     [node_op ''a'' (Inr ResNil), node_op ''b'' (Inl True), node_op ''c'' (Inl True), BSetEntryPoint ''a'',
      BAddEdge ''a'' ''b'', BAddEdge ''a'' ''c''])"

lemma graph_second_interrupt_lost: "resumed_plan pair_graph (fresh_checkpoint 10 pair_graph) = [''b'']"
  by code_simp

text \<open>The trigger of a route chosen at run time is registered in the graph of the running process. A
  new process builds the graph without it: the checkpoint names the target as next, and the resumed
  run plans nothing.\<close>

definition route_graph :: "(unit, bool) Graph" where
  "route_graph = sg_graph (build pad_digest None
     [node_op ''a'' (Inr (ResCommand (Some \<lparr>cmd_Update = None, cmd_GoTo = ''b''\<rparr>))), node_op ''b'' (Inr ResNil),
      BSetEntryPoint ''a''])"

lemma graph_restart_loses_route:
  "cp_NextNodes (tu_Checkpoint (fresh_checkpoint 1 route_graph)) = [''b'']"
  "resumed_plan route_graph (fresh_checkpoint 1 route_graph) = []"
  by code_simp+

section \<open>Fan-out\<close>

text \<open>A fan-out command that goes to the end fails, where a single command ends its branch.\<close>

definition end_graph :: "unit NodeResult \<Rightarrow> (unit, bool) Graph" where
  "end_graph r = sg_graph (build pad_digest None [node_op ''a'' (Inr r), BSetEntryPoint ''a''])"

definition end_run :: "unit NodeResult \<Rightarrow> bool bsp_result" where
  "end_run r =
     (case startRun (keeper 10) (end_graph r) (\<lambda>_. []) Map.empty [] of
        (xs, step) \<Rightarrow> snd (snd (runBspLoop (keeper 10) (\<lambda>_ ts. ts) step xs)))"

lemma graph_fan_out_to_end:
  "end_run (ResCommand (Some \<lparr>cmd_Update = None, cmd_GoTo = End\<rparr>)) = BspStop \<and>
   end_run (ResCommands [Some \<lparr>cmd_Update = None, cmd_GoTo = End\<rparr>]) = BspFailed (NodeNotFound End)"
  by code_simp

end
