(* ===== verification/GraphDag.thy ===== *)
theory GraphDag
  imports GraphRun
begin

text \<open>
  The second engine of \<open>agentkit/graph\<close> (\<open>executor_dag.go\<close>): a loop that starts tasks as soon as a
  channel triggers them, on goroutines that are limited by a semaphore and report on a channel. The
  loop and the goroutines are a transition system; its steps are the parts of the loop between two
  waits and, of a goroutine, the run of its task, the release of its slot and the send of its
  result. External interrupts are not part of the model; the context can end while the loop waits.
\<close>

section \<open>The loop's state\<close>

datatype 'e drain_error = DrainTask "'e exec_error" | DrainInterrupt InterruptError | DrainContext

datatype 'e dag_result = DagDone | DagFailed "'e drain_error" | DagInterrupted InterruptError

text \<open>Where the loop is: in \<open>startReadyTasks\<close>, \<open>planIfIdle\<close>, \<open>tryFinalize\<close>, \<open>waitForEvent\<close>, or at an end.\<close>

datatype 'e dag_pc = DStart | DPlan | DFinal | DWait | DEnd "'e dag_result" | DCrashed

datatype ('a, 'e) worker =
    WRun "'a GraphTask" int | WRelease "'a GraphTask" int "'e exec_error option" | WSend "'a GraphTask" int "'e exec_error option"

record ('a, 'e, 's) dagLoop =
  d_x :: "('a, 'e) ExecutionContext"
  d_store :: 's
  d_pc :: "'e dag_pc"
  d_executed :: nat
  d_nextStep :: int
  d_ready :: "'a GraphTask list"
  d_inFlight :: "(string \<times> 'a GraphTask) list"
  d_waiting :: "(string \<times> 'a GraphTask list) list"
  d_sem :: nat
  d_done :: "('a GraphTask \<times> int \<times> 'e exec_error option) list"
  d_workers :: "('a, 'e) worker list"
  d_draining :: bool
  d_drainErr :: "'e drain_error option"
  d_drainMaxStep :: bool
  d_pendingIntr :: "InterruptError option"
  d_pendingIntrStep :: int
  d_rerunNodes :: "string list"

section \<open>Tasks\<close>

definition createDagTask :: "string \<Rightarrow> ('a, 'e) ExecutionContext \<Rightarrow> ('a, 'e) ExecutionContext \<times> 'a GraphTask option" where
  "createDagTask i x =
     (if i = [] \<or> i = End then (x, None)
      else case graph_Node i (x_graph x) of
        None \<Rightarrow> (x, None)
      | Some n \<Rightarrow>
          (case consumeGraphInterruptInput i x of
             (x', override) \<Rightarrow>
               (x', Some \<lparr>tk_NodeID = i, tk_Input = (case override of Some s \<Rightarrow> s | None \<Rightarrow> x_State x),
                          tk_Writes = nd_writers n, tk_Triggers = nd_triggers n, tk_TaskID = [], tk_TaskPath = [i]\<rparr>)))"

fun createDagTasks :: "string list \<Rightarrow> ('a, 'e) ExecutionContext \<Rightarrow> ('a, 'e) ExecutionContext \<times> 'a GraphTask list" where
  "createDagTasks [] x = (x, [])"
| "createDagTasks (i # is) x =
     (case createDagTask i x of
        (x, None) \<Rightarrow> createDagTasks is x
      | (x, Some t) \<Rightarrow> (case createDagTasks is x of (x, ts) \<Rightarrow> (x, t # ts)))"

text \<open>The channels that can be consumed, one after the other.\<close>

fun consumeChannels :: "string list \<Rightarrow> 'a Manager \<Rightarrow> 'a Manager \<times> string list" where
  "consumeChannels [] m = (m, [])"
| "consumeChannels (ch # chs) m =
     (case GetChannel ch m of
        None \<Rightarrow> consumeChannels chs m
      | Some c \<Rightarrow>
          if snd (ch_ConsumeIfAvailable c)
          then (case consumeChannels chs (on_channel ch (\<lambda>c. fst (ch_ConsumeIfAvailable c)) m) of (m, taken) \<Rightarrow> (m, ch # taken))
          else consumeChannels chs (on_channel ch (\<lambda>c. fst (ch_ConsumeIfAvailable c)) m))"

definition planDagTasks :: "('a, 'e) ExecutionContext \<Rightarrow> ('a, 'e) ExecutionContext \<times> 'a GraphTask list" where
  "planDagTasks x =
     (let tasks = x_pendingTasks x; x = x\<lparr>x_pendingTasks := []\<rparr> in
      case consumeChannels (map fst (g_triggerToNodes (x_graph x))) (x_channels x) of
        (m, taken) \<Rightarrow>
          (let nodes = concat (map (\<lambda>ch. graph_triggers ch (x_graph x)) taken)
           in case createDagTasks (sort (remdups nodes)) (x\<lparr>x_channels := m\<rparr>) of (x, ts) \<Rightarrow> (x, tasks @ ts)))"

section \<open>The loop\<close>

definition d_queue :: "'a GraphTask list \<Rightarrow> ('a, 'e, 's) dagLoop \<Rightarrow> ('a, 'e, 's) dagLoop" where
  "d_queue ts d = d\<lparr>d_ready := d_ready d @ ts\<rparr>"

definition queuePlannedTasks :: "('a, 'e, 's) dagLoop \<Rightarrow> ('a, 'e, 's) dagLoop" where
  "queuePlannedTasks d = (case planDagTasks (d_x d) of (x, ts) \<Rightarrow> d_queue ts (d\<lparr>d_x := x\<rparr>))"

definition startDraining :: "'e drain_error \<Rightarrow> ('a, 'e, 's) dagLoop \<Rightarrow> ('a, 'e, 's) dagLoop" where
  "startDraining e d = (if d_draining d then d else d\<lparr>d_draining := True, d_drainErr := Some e\<rparr>)"

definition startDrainingMaxStep :: "('a, 'e, 's) dagLoop \<Rightarrow> ('a, 'e, 's) dagLoop" where
  "startDrainingMaxStep d = (if d_draining d then d else d\<lparr>d_draining := True, d_drainMaxStep := True\<rparr>)"

definition startDrainingInterrupt :: "InterruptError \<Rightarrow> int \<Rightarrow> ('a, 'e, 's) dagLoop \<Rightarrow> ('a, 'e, 's) dagLoop" where
  "startDrainingInterrupt intr step d =
     startDraining (DrainInterrupt intr)
       (if d_pendingIntr d = None then d\<lparr>d_pendingIntr := Some intr, d_pendingIntrStep := step\<rparr> else d)"

definition lastStep :: "('a, 'e, 's) dagLoop \<Rightarrow> int" where
  "lastStep d = (if d_nextStep d \<le> 0 then - 1 else d_nextStep d - 1)"

definition maybeStartStaticInterruptBefore :: "'a GraphTask \<Rightarrow> ('a, 'e, 's) dagLoop \<Rightarrow> ('a, 'e, 's) dagLoop \<times> bool" where
  "maybeStartStaticInterruptBefore t d =
     (if d_draining d \<or> d_pendingIntr d \<noteq> None then (d, False)
      else case maybeStaticInterruptBefore [t] (d_x d) of
             (x, None) \<Rightarrow> (d\<lparr>d_x := x\<rparr>, False)
           | (x, Some intr) \<Rightarrow> (startDrainingInterrupt intr (d_nextStep d) (d\<lparr>d_x := x\<rparr>), True))"

definition maybeStartStaticInterruptAfter :: "'a GraphTask \<Rightarrow> int \<Rightarrow> ('a, 'e, 's) dagLoop \<Rightarrow> ('a, 'e, 's) dagLoop \<times> bool" where
  "maybeStartStaticInterruptAfter t step d =
     (if d_draining d \<or> d_pendingIntr d \<noteq> None then (d, False)
      else case maybeStaticInterruptAfter [t] (d_x d) of
             None \<Rightarrow> (d, False)
           | Some intr \<Rightarrow> (startDrainingInterrupt intr step d, True))"

definition add_waiting :: "'a GraphTask \<Rightarrow> (string \<times> 'a GraphTask list) list \<Rightarrow> (string \<times> 'a GraphTask list) list" where
  "add_waiting t w =
     AList.update (tk_NodeID t) ((case map_of w (tk_NodeID t) of None \<Rightarrow> [] | Some ts \<Rightarrow> ts) @ [t]) w"

definition startTask :: "('a, 'e, 's) Executor \<Rightarrow> 'a GraphTask \<Rightarrow> ('a, 'e, 's) dagLoop \<Rightarrow> ('a, 'e, 's) dagLoop \<times> bool" where
  "startTask ex t d =
     (if tk_NodeID t = [] then (d, True)
      else if map_of (d_inFlight d) (tk_NodeID t) \<noteq> None then (d\<lparr>d_waiting := add_waiting t (d_waiting d)\<rparr>, True)
      else case maybeStartStaticInterruptBefore t d of
        (d, True) \<Rightarrow> (d, False)
      | (d, False) \<Rightarrow>
          if d_sem d \<ge> ex_maxConcurrency ex then (d, False)
          else if d_nextStep d \<ge> ex_maxSteps ex then (startDrainingMaxStep d, False)
          else (let step = d_nextStep d; t = t\<lparr>tk_TaskID := tk_NodeID t @ ''-'' @ FormatInt step\<rparr>
                in (d\<lparr>d_sem := d_sem d + 1, d_nextStep := step + 1,
                      d_inFlight := AList.update (tk_NodeID t) t (d_inFlight d),
                      d_workers := d_workers d @ [WRun t step]\<rparr>, True)))"

definition consumeReadyHead :: "('a, 'e, 's) Executor \<Rightarrow> ('a, 'e, 's) dagLoop \<Rightarrow> ('a, 'e, 's) dagLoop \<times> bool" where
  "consumeReadyHead ex d =
     (case d_ready d of
        [] \<Rightarrow> (d, False)
      | t # ts \<Rightarrow> (case startTask ex t d of (d, False) \<Rightarrow> (d, False) | (d, True) \<Rightarrow> (d\<lparr>d_ready := ts\<rparr>, True)))"

text \<open>One round of \<open>startReadyTasks\<close>.\<close>

definition dag_start :: "('a, 'e, 's) Executor \<Rightarrow> ('a, 'e, 's) dagLoop \<Rightarrow> ('a, 'e, 's) dagLoop" where
  "dag_start ex d =
     (if \<not> d_draining d \<and> d_ready d \<noteq> []
      then (case consumeReadyHead ex d of (d, True) \<Rightarrow> d | (d, False) \<Rightarrow> d\<lparr>d_pc := DPlan\<rparr>)
      else d\<lparr>d_pc := DPlan\<rparr>)"

definition planIfIdle :: "('a, 'e, 's) dagLoop \<Rightarrow> ('a, 'e, 's) dagLoop" where
  "planIfIdle d = (if d_draining d \<or> d_ready d \<noteq> [] then d else queuePlannedTasks d)"

text \<open>Where an interrupted run goes on: what is ready, waiting, to run again, and triggered.\<close>

definition snapshotNextNodes :: "('a, 'e, 's) dagLoop \<Rightarrow> string list" where
  "snapshotNextNodes d =
     (let ok = filter (\<lambda>i. i \<noteq> [] \<and> i \<noteq> End);
          ready = ok (map tk_NodeID (d_ready d));
          keys = sort (map fst (filter (\<lambda>(i, ts). i \<noteq> [] \<and> ts \<noteq> []) (d_waiting d)));
          waiting = ok (concat (map (\<lambda>i. case map_of (d_waiting d) i of None \<Rightarrow> [] | Some ts \<Rightarrow> map (\<lambda>_. i) ts) keys));
          out = ready @ waiting @ ok (d_rerunNodes d)
      in out @ ok (filter (\<lambda>i. \<not> List.member out i) (getNextNodes (d_x d))))"

definition finalizeInterrupt ::
    "('a, 'e, 's) Executor \<Rightarrow> InterruptError \<Rightarrow> ('a, 'e, 's) dagLoop \<Rightarrow> ('a, 'e, 's) dagLoop" where
  "finalizeInterrupt ex intr d =
     (let intr = intr\<lparr>in_NextNodes := snapshotNextNodes d\<rparr>
      in case handleInterrupt ex intr (d_pendingIntrStep d) (d_x d, d_store d) of
           (x, s) \<Rightarrow> d\<lparr>d_x := x, d_store := s, d_pc := DEnd (DagInterrupted intr)\<rparr>)"

definition maybeCreateFinalCheckpoint :: "('a, 'e, 's) Executor \<Rightarrow> ('a, 'e, 's) dagLoop \<Rightarrow> ('a, 'e, 's) dagLoop" where
  "maybeCreateFinalCheckpoint ex d =
     (if d_executed d = 0 then d
      else case createCheckpointAndSave ex False (lastStep d) (d_x d, d_store d) of (x, s) \<Rightarrow> d\<lparr>d_x := x, d_store := s\<rparr>)"

definition no_flight :: "('a, 'e, 's) dagLoop \<Rightarrow> bool" where
  "no_flight d \<longleftrightarrow> d_inFlight d = []"

definition tryFinalize :: "('a, 'e, 's) Executor \<Rightarrow> ('a, 'e, 's) dagLoop \<Rightarrow> ('a, 'e, 's) dagLoop" where
  "tryFinalize ex d =
     (case (if no_flight d then d_pendingIntr d else None) of
        Some intr \<Rightarrow> finalizeInterrupt ex intr d
      | None \<Rightarrow>
          if d_draining d \<and> no_flight d
          then d\<lparr>d_pc := DEnd (if d_drainMaxStep d then DagDone
                             else case d_drainErr d of None \<Rightarrow> DagDone | Some e \<Rightarrow> DagFailed e)\<rparr>
          else if d_draining d \<or> \<not> no_flight d \<or> d_ready d \<noteq> [] then d\<lparr>d_pc := DWait\<rparr>
          else (maybeCreateFinalCheckpoint ex d)\<lparr>d_pc := DEnd DagDone\<rparr>)"

definition recordRerunNode :: "'a GraphTask \<Rightarrow> ('a, 'e, 's) dagLoop \<Rightarrow> ('a, 'e, 's) dagLoop" where
  "recordRerunNode t d =
     (if d_pendingIntr d = None \<or> tk_NodeID t = [] \<or> tk_NodeID t = End then d
      else d\<lparr>d_rerunNodes := d_rerunNodes d @ [tk_NodeID t]\<rparr>)"

definition handleTaskError ::
    "('a, 'e, 's) Executor \<Rightarrow> 'a GraphTask \<Rightarrow> int \<Rightarrow> 'e exec_error \<Rightarrow> ('a, 'e, 's) dagLoop \<Rightarrow> ('a, 'e, 's) dagLoop" where
  "handleTaskError ex t step e d =
     (if d_draining d then recordRerunNode t d
      else case task_interrupt ex e of
             Some intr \<Rightarrow> startDrainingInterrupt intr step d
           | None \<Rightarrow> startDraining (DrainTask e) d)"

definition handleTaskResult ::
    "('a, 'e, 's) Executor \<Rightarrow> 'a GraphTask \<times> int \<times> 'e exec_error option \<Rightarrow> ('a, 'e, 's) dagLoop \<Rightarrow> ('a, 'e, 's) dagLoop" where
  "handleTaskResult ex res d =
     (case res of (t, step, err) \<Rightarrow>
       (let i = tk_NodeID t;
            d = (if i = [] then d
                 else d\<lparr>d_inFlight := AList.delete i (d_inFlight d),
                        d_ready := d_ready d @ (case map_of (d_waiting d) i of None \<Rightarrow> [] | Some ts \<Rightarrow> ts),
                        d_waiting := AList.delete i (d_waiting d)\<rparr>)
        in case err of
             Some e \<Rightarrow> handleTaskError ex t step e d
           | None \<Rightarrow>
               (case maybeStartStaticInterruptAfter t step (d\<lparr>d_executed := d_executed d + 1\<rparr>) of
                  (d, True) \<Rightarrow> d
                | (d, False) \<Rightarrow> if d_draining d then d else queuePlannedTasks d)))"

definition handleContextDone :: "('a, 'e, 's) dagLoop \<Rightarrow> ('a, 'e, 's) dagLoop" where
  "handleContextDone d = startDraining DrainContext d"

section \<open>Starting\<close>

definition dag_seed :: "('a, 'e, 's) dagLoop \<Rightarrow> 'e exec_error + ('a, 'e, 's) dagLoop" where
  "dag_seed d =
     (let x = d_x d; entryPoint = g_entryPoint (x_graph x) in
      if entryPoint = [] then Inl NoEntryPoint
      else case x_nextNodes x of
             Some (i # is) \<Rightarrow>
               (case createDagTasks (i # is) (x\<lparr>x_nextNodes := None\<rparr>) of (x, ts) \<Rightarrow> Inr (d_queue ts (d\<lparr>d_x := x\<rparr>)))
           | _ \<Rightarrow>
               if x_resumed x then Inr d
               else (case createDagTasks [entryPoint] x of (x, ts) \<Rightarrow> Inr (d_queue ts (d\<lparr>d_x := x\<rparr>))))"

definition newDagLoop ::
    "('a, 'e) ExecutionContext \<times> 's \<Rightarrow> int \<Rightarrow> 'e exec_error + ('a, 'e, 's) dagLoop" where
  "newDagLoop xs startStep =
     dag_seed \<lparr>d_x = fst xs, d_store = snd xs, d_pc = DStart, d_executed = 0, d_nextStep = startStep, d_ready = [],
       d_inFlight = [], d_waiting = [], d_sem = 0, d_done = [], d_workers = [], d_draining = False,
       d_drainErr = None, d_drainMaxStep = False, d_pendingIntr = None, d_pendingIntrStep = 0, d_rerunNodes = []\<rparr>"

section \<open>Steps\<close>

text \<open>The flag says that the context has ended.\<close>

inductive dag_step ::
    "('a, 'e, 's) Executor \<Rightarrow> bool \<Rightarrow> ('a, 'e, 's) dagLoop \<Rightarrow> ('a, 'e, 's) dagLoop \<Rightarrow> bool" for ex where
  loop_start: "d_pc d = DStart \<Longrightarrow> dag_step ex b d (dag_start ex d)"
| loop_plan: "d_pc d = DPlan \<Longrightarrow> dag_step ex b d ((planIfIdle d)\<lparr>d_pc := DFinal\<rparr>)"
| loop_final: "d_pc d = DFinal \<Longrightarrow> dag_step ex b d (tryFinalize ex d)"
| loop_result: "d_pc d = DWait \<Longrightarrow> d_done d = res # rest \<Longrightarrow>
    dag_step ex b d ((handleTaskResult ex res (d\<lparr>d_done := rest\<rparr>))\<lparr>d_pc := DStart\<rparr>)"
| loop_context: "d_pc d = DWait \<Longrightarrow> dag_step ex True d ((handleContextDone d)\<lparr>d_pc := DStart\<rparr>)"
| work_run: "d_pc d \<noteq> DCrashed \<Longrightarrow> d_workers d = ws @ WRun t step # ws' \<Longrightarrow>
    executeSingleTask (ex_oneShot ex) t step (d_x d) = (x, err) \<Longrightarrow> err \<noteq> Some TaskPanic \<Longrightarrow>
    dag_step ex b d (d\<lparr>d_x := x, d_workers := ws @ WRelease t step err # ws'\<rparr>)"
| work_crash: "d_pc d \<noteq> DCrashed \<Longrightarrow> d_workers d = ws @ WRun t step # ws' \<Longrightarrow>
    executeSingleTask (ex_oneShot ex) t step (d_x d) = (x, Some TaskPanic) \<Longrightarrow>
    dag_step ex b d (d\<lparr>d_x := x, d_pc := DCrashed\<rparr>)"
| work_release: "d_pc d \<noteq> DCrashed \<Longrightarrow> d_workers d = ws @ WRelease t step err # ws' \<Longrightarrow>
    dag_step ex b d (d\<lparr>d_sem := d_sem d - 1, d_workers := ws @ WSend t step err # ws'\<rparr>)"
| work_send: "d_pc d \<noteq> DCrashed \<Longrightarrow> d_workers d = ws @ WSend t step err # ws' \<Longrightarrow> length (d_done d) < ex_maxConcurrency ex \<Longrightarrow>
    dag_step ex b d (d\<lparr>d_done := d_done d @ [(t, step, err)], d_workers := ws @ ws'\<rparr>)"

inductive dag_reach :: "('a, 'e, 's) Executor \<Rightarrow> ('a, 'e, 's) dagLoop \<Rightarrow> ('a, 'e, 's) dagLoop \<Rightarrow> bool" for ex d0 where
  reach_start: "dag_reach ex d0 d0"
| reach_step: "dag_reach ex d0 d \<Longrightarrow> dag_step ex b d d' \<Longrightarrow> dag_reach ex d0 d'"

end
