(* ===== verification/GraphTokens.thy ===== *)
theory GraphTokens
  imports GraphRun
begin

text \<open>
  The channels of a running graph as an abstract machine of tokens: the nodes that are due and, for
  each join, the start nodes that have arrived. A task adds the targets of its plain edges, or those
  it chose itself, and arrives at its joins; planning takes the due nodes and the complete joins.
  The lemmas show this of one write, one task, a whole step and one planning.
\<close>

section \<open>The machine of tokens\<close>

record tokens =
  tok_due :: "string set"
  tok_arrived :: "string list \<times> string \<Rightarrow> string set"

text \<open>One task: its node, whether it routed explicitly, and the targets chosen at run time.\<close>

type_synonym outcome = "string \<times> bool \<times> string list"

fun tok_task :: "(string \<times> string) set \<Rightarrow> (string list \<times> string) set \<Rightarrow> outcome \<Rightarrow> tokens \<Rightarrow> tokens" where
  "tok_task E J (i, routed, targets) k =
     k\<lparr>tok_due := tok_due k \<union> set targets \<union> (if routed then {} else {t. (i, t) \<in> E}),
       tok_arrived := (\<lambda>(S, t). tok_arrived k (S, t) \<union> (if (S, t) \<in> J \<and> i \<in> set S \<and> \<not> routed then {i} else {}))\<rparr>"

definition tok_enabled :: "(string list \<times> string) set \<Rightarrow> tokens \<Rightarrow> string set" where
  "tok_enabled J k = tok_due k \<union> {t. \<exists>S. (S, t) \<in> J \<and> set S \<subseteq> tok_arrived k (S, t)}"

definition tok_consume :: "(string list \<times> string) set \<Rightarrow> tokens \<Rightarrow> tokens" where
  "tok_consume J k =
     \<lparr>tok_due = {}, tok_arrived = (\<lambda>(S, t). if (S, t) \<in> J \<and> set S \<subseteq> tok_arrived k (S, t) then {} else tok_arrived k (S, t))\<rparr>"

definition tok_empty :: tokens where
  "tok_empty = \<lparr>tok_due = {}, tok_arrived = (\<lambda>_. {})\<rparr>"

text \<open>The tokens that the channels of a run hold.\<close>

definition tokens_of :: "(string \<Rightarrow> string) \<Rightarrow> (string list \<times> string) set \<Rightarrow> ('a, 'e) ExecutionContext \<Rightarrow> tokens" where
  "tokens_of sha J x =
     \<lparr>tok_due = {i. channel_available (branchChannel i) (x_channels x) \<or> channel_available (triggerChannel i) (x_channels x)},
      tok_arrived = (\<lambda>(S, t). if (S, t) \<in> J
                               then (case GetChannel (joinChannelName sha t S) (x_channels x) of None \<Rightarrow> {} | Some c \<Rightarrow> ch_BarrierSet c)
                               else {})\<rparr>"

text \<open>The targets a task chooses at run time, in the state where its result has been handled.\<close>

definition conditional_target :: "('a, 'e) ConditionalEdge \<Rightarrow> ('a, 'e) Graph \<Rightarrow> string \<Rightarrow> string" where
  "conditional_target ce g result =
     (case map_of (c_PathMap ce) result of
        Some t \<Rightarrow> t
      | None \<Rightarrow> (let concrete = resolveTargetByEnds (c_From ce) result g in if concrete \<noteq> [] then concrete else result))"

definition conditional_targets :: "string \<Rightarrow> ('a, 'e) Graph \<Rightarrow> 'a State \<Rightarrow> string list" where
  "conditional_targets i g s =
     (case g_conditionalEdges g i of
        None \<Rightarrow> []
      | Some ce \<Rightarrow>
          (case c_Condition ce of
             None \<Rightarrow> []
           | Some cond \<Rightarrow>
               (case cond s of
                  Inl e \<Rightarrow> [] | Inr rs \<Rightarrow> map (conditional_target ce g) (filter (\<lambda>r. r \<noteq> []) rs))))"

definition task_outcome :: "'a reducer \<Rightarrow> 'a GraphTask \<Rightarrow> int \<Rightarrow> ('a, 'e) ExecutionContext \<Rightarrow> outcome" where
  "task_outcome oneShot t step x =
     (let i = tk_NodeID t; g = x_graph x in
      case executeNodeFunction t x of
        Inl e \<Rightarrow> (i, True, [])
      | Inr (ResCommands cs) \<Rightarrow> (i, True, [])
      | Inr (ResCommand (Some c)) \<Rightarrow>
          if cmd_GoTo c \<noteq> [] then (i, True, [cmd_GoTo (resolveGoTo i g c)])
          else (i, False, conditional_targets i g (case cmd_Update c of None \<Rightarrow> x_State x
                                                   | Some u \<Rightarrow> x_State (updateStateFromResult oneShot u x)))
      | Inr (ResState s) \<Rightarrow> (i, False, conditional_targets i g (x_State (updateStateFromResult oneShot s x)))
      | Inr _ \<Rightarrow> (i, False, conditional_targets i g (x_State x)))"

fun step_outcomes :: "'a reducer \<Rightarrow> 'a GraphTask list \<Rightarrow> int \<Rightarrow> ('a, 'e) ExecutionContext \<Rightarrow> outcome list" where
  "step_outcomes oneShot [] step x = []"
| "step_outcomes oneShot (t # ts) step x =
     task_outcome oneShot t step x # step_outcomes oneShot ts step (fst (executeSingleTask oneShot t step x))"

section \<open>A run under way\<close>

definition live_graph :: "(string \<Rightarrow> string) \<Rightarrow> (string \<times> string) set \<Rightarrow> (string list \<times> string) set \<Rightarrow> ('a, 'e) Graph \<Rightarrow> bool" where
  "live_graph sha E J g \<longleftrightarrow>
     (\<forall>f t. (f, t) \<in> E \<longrightarrow> graph_triggers (branchChannel t) g = [t]) \<and>
     (\<forall>S t. (S, t) \<in> J \<longrightarrow> graph_triggers (joinChannelName sha t S) g = [t]) \<and>
     (\<forall>ch. graph_triggers ch g \<noteq> [] \<longrightarrow>
        (\<exists>i. (ch = branchChannel i \<or> ch = triggerChannel i) \<and> graph_triggers ch g = [i]) \<or>
        (\<exists>S t. (S, t) \<in> J \<and> ch = joinChannelName sha t S))"

definition live_barriers :: "(string \<Rightarrow> string) \<Rightarrow> (string list \<times> string) set \<Rightarrow> 'a Manager \<Rightarrow> bool" where
  "live_barriers sha J m \<longleftrightarrow>
     (\<forall>S t. (S, t) \<in> J \<longrightarrow> (\<exists>c. GetChannel (joinChannelName sha t S) m = Some c \<and> ch_Behavior c = BehaviorBarrier \<and>
        set (ch_BarrierExpected c) = set S \<and> (ch_Available c \<longleftrightarrow> set S \<subseteq> ch_BarrierSet c)))"

definition live_values :: "('a, 'e) Graph \<Rightarrow> 'a Manager \<Rightarrow> bool" where
  "live_values g m \<longleftrightarrow>
     (\<forall>i ch c. (ch = branchChannel i \<or> ch = triggerChannel i) \<and> GetChannel ch m = Some c \<longrightarrow>
        ch_Behavior c = BehaviorLastValue \<and> (ch_Available c \<longrightarrow> graph_triggers ch g = [i]))"

definition live_edges :: "(string \<times> string) set \<Rightarrow> 'a Manager \<Rightarrow> bool" where
  "live_edges E m \<longleftrightarrow> (\<forall>f t. (f, t) \<in> E \<longrightarrow> GetChannel (branchChannel t) m \<noteq> None)"

definition live :: "(string \<Rightarrow> string) \<Rightarrow> (string \<times> string) set \<Rightarrow> (string list \<times> string) set \<Rightarrow> ('a, 'e) ExecutionContext \<Rightarrow> bool" where
  "live sha E J x \<longleftrightarrow> live_graph sha E J (x_graph x) \<and> live_barriers sha J (x_channels x) \<and>
     live_values (x_graph x) (x_channels x) \<and> live_edges E (x_channels x)"

definition good_joins :: "(string \<Rightarrow> string) \<Rightarrow> (string list \<times> string) set \<Rightarrow> bool" where
  "good_joins sha J \<longleftrightarrow> good_digest sha (fst ` J) \<and> (\<forall>S t. (S, t) \<in> J \<longrightarrow> S \<noteq> [])"

lemma live_graphD:
  assumes "live_graph sha E J g"
  shows "(f, t) \<in> E \<Longrightarrow> graph_triggers (branchChannel t) g = [t]"
    and "(S, t) \<in> J \<Longrightarrow> graph_triggers (joinChannelName sha t S) g = [t]"
    and "graph_triggers ch g \<noteq> [] \<Longrightarrow>
        (\<exists>i. (ch = branchChannel i \<or> ch = triggerChannel i) \<and> graph_triggers ch g = [i]) \<or>
        (\<exists>S t. (S, t) \<in> J \<and> ch = joinChannelName sha t S)"
  using assms unfolding live_graph_def by (blast+)

lemma live_barriersE:
  assumes "live_barriers sha J m" "(S, t) \<in> J"
  obtains c where "GetChannel (joinChannelName sha t S) m = Some c" "ch_Behavior c = BehaviorBarrier"
    "set (ch_BarrierExpected c) = set S" "ch_Available c \<longleftrightarrow> set S \<subseteq> ch_BarrierSet c"
  using assms unfolding live_barriers_def by blast

lemma live_valuesD:
  assumes "live_values g m" "ch = branchChannel i \<or> ch = triggerChannel i" "GetChannel ch m = Some c"
  shows "ch_Behavior c = BehaviorLastValue" "ch_Available c \<Longrightarrow> graph_triggers ch g = [i]"
  using assms unfolding live_values_def by blast+

lemma join_name_inj:
  "good_joins sha J \<Longrightarrow> (S, t) \<in> J \<Longrightarrow> (S', t') \<in> J \<Longrightarrow> joinChannelName sha t S = joinChannelName sha t' S' \<longleftrightarrow> S = S' \<and> t = t'"
  unfolding good_joins_def by (metis joinChannelName_inj fst_conv image_eqI)

section \<open>One write\<close>

lemma channel_available_eq: "channel_available ch m \<longleftrightarrow> (\<exists>c. GetChannel ch m = Some c \<and> ch_Available c)"
  by (auto simp: channel_available_def split: option.splits)

lemma GetChannel_update_channel [simp]:
  "GetChannel n (update_channel name vs step m) =
     (if n = name then map_option (\<lambda>c. fst (ch_Update vs step c)) (GetChannel n m) else GetChannel n m)"
  by (simp add: update_channel_def)

lemma recordWrite_frame [simp]:
  "x_channels (recordWrite ch v tid x) = x_channels x" "x_graph (recordWrite ch v tid x) = x_graph x"
  "x_State (recordWrite ch v tid x) = x_State x" "x_pendingTasks (recordWrite ch v tid x) = x_pendingTasks x"
  "x_resumed (recordWrite ch v tid x) = x_resumed x" "x_nextNodes (recordWrite ch v tid x) = x_nextNodes x"
  by (simp_all add: recordWrite_def Let_def)

lemma writeChannel_frame [simp]:
  "x_graph (writeChannel ch v tid step x) = x_graph x" "x_State (writeChannel ch v tid step x) = x_State x"
  "x_pendingTasks (writeChannel ch v tid step x) = x_pendingTasks x" "x_resumed (writeChannel ch v tid step x) = x_resumed x"
  "x_nextNodes (writeChannel ch v tid step x) = x_nextNodes x"
  by (simp_all add: writeChannel_def split: option.splits)

lemma writeChannel_channels [simp]:
  "GetChannel n (x_channels (writeChannel ch v tid step x)) =
     (if n = ch then map_option (\<lambda>c. fst (ch_Update [v] step c)) (GetChannel n (x_channels x)) else GetChannel n (x_channels x))"
  by (auto simp: writeChannel_def split: option.splits)

lemma Update_value:
  "ch_Behavior c = BehaviorLastValue \<Longrightarrow> ch_Available (fst (ch_Update [v] step c))"
  "ch_Behavior c = BehaviorLastValue \<Longrightarrow> ch_BarrierSet (fst (ch_Update [v] step c)) = ch_BarrierSet c"
  by (simp_all add: ch_Update_def)

lemma Update_barrier:
  assumes "ch_Behavior c = BehaviorBarrier"
  shows "ch_BarrierSet (fst (ch_Update [AnyString i] step c)) = insert i (ch_BarrierSet c)"
    "ch_Available (fst (ch_Update [AnyString i] step c)) \<longleftrightarrow> set (ch_BarrierExpected c) \<subseteq> insert i (ch_BarrierSet c)"
  using assms by (simp_all add: ch_Update_def Let_def satisfied_iff)

text \<open>A write to a channel that triggers one node makes that node due.\<close>

lemma write_value:
  assumes l: "live sha E J x" and ch: "ch = branchChannel i \<or> ch = triggerChannel i"
    and c: "GetChannel ch (x_channels x) \<noteq> None" and t: "graph_triggers ch (x_graph x) = [i]"
  shows "live sha E J (writeChannel ch v tid step x) \<and>
    tokens_of sha J (writeChannel ch v tid step x) = (tokens_of sha J x)\<lparr>tok_due := insert i (tok_due (tokens_of sha J x))\<rparr>"
proof -
  let ?x = "writeChannel ch v tid step x"
  have parts: "live_graph sha E J (x_graph x)" "live_barriers sha J (x_channels x)" "live_values (x_graph x) (x_channels x)"
    "live_edges E (x_channels x)" using l by (simp_all add: live_def)
  obtain c where c: "GetChannel ch (x_channels x) = Some c" using c by auto
  have b: "ch_Behavior c = BehaviorLastValue" by (rule live_valuesD(1) [OF parts(3) ch c])
  have nj: "joinChannelName sha t S \<noteq> ch" for S t using ch by auto
  have "live_barriers sha J (x_channels ?x)"
    using parts(2) nj unfolding live_barriers_def by simp
  moreover have "live_edges E (x_channels ?x)" using parts(4) unfolding live_edges_def by auto
  moreover have "live_values (x_graph ?x) (x_channels ?x)"
    unfolding live_values_def
  proof (intro allI impI, elim conjE)
    fix j ch' c' assume j: "ch' = branchChannel j \<or> ch' = triggerChannel j" "GetChannel ch' (x_channels ?x) = Some c'"
    show "ch_Behavior c' = BehaviorLastValue \<and> (ch_Available c' \<longrightarrow> graph_triggers ch' (x_graph ?x) = [j])"
    proof (cases "ch' = ch")
      case True
      then have "j = i" using j(1) ch by auto
      then show ?thesis using True j c b t by auto
    next
      case False
      then show ?thesis using live_valuesD [OF parts(3) j(1)] j(2) by simp
    qed
  qed
  ultimately have "live sha E J ?x" using parts(1) by (simp add: live_def)
  moreover have "tokens_of sha J ?x = (tokens_of sha J x)\<lparr>tok_due := insert i (tok_due (tokens_of sha J x))\<rparr>"
  proof -
    have av: "channel_available ch' (x_channels ?x) \<longleftrightarrow> ch' = ch \<or> channel_available ch' (x_channels x)" for ch'
      using c Update_value(1) [OF b] by (auto simp: channel_available_eq)
    show ?thesis using ch nj unfolding tokens_of_def by (auto simp: av fun_eq_iff)
  qed
  ultimately show ?thesis by blast
qed

text \<open>A write to the channel of a join is an arrival.\<close>

lemma write_join:
  assumes g: "good_joins sha J" and l: "live sha E J x" and j: "(S, t) \<in> J"
  shows "live sha E J (writeChannel (joinChannelName sha t S) (AnyString i) tid step x) \<and>
    tokens_of sha J (writeChannel (joinChannelName sha t S) (AnyString i) tid step x) =
      (tokens_of sha J x)\<lparr>tok_arrived := (tok_arrived (tokens_of sha J x))((S, t) := insert i (tok_arrived (tokens_of sha J x) (S, t)))\<rparr>"
proof -
  let ?ch = "joinChannelName sha t S"
  let ?x = "writeChannel ?ch (AnyString i) tid step x"
  have parts: "live_graph sha E J (x_graph x)" "live_barriers sha J (x_channels x)" "live_values (x_graph x) (x_channels x)"
    "live_edges E (x_channels x)" using l by (simp_all add: live_def)
  obtain c where c: "GetChannel ?ch (x_channels x) = Some c" "ch_Behavior c = BehaviorBarrier" "set (ch_BarrierExpected c) = set S"
    using live_barriersE [OF parts(2) j] by metis
  note u = Update_barrier [OF c(2), of i step]
  have "live_barriers sha J (x_channels ?x)"
    unfolding live_barriers_def
  proof (intro allI impI)
    fix S' t' assume j': "(S', t') \<in> J"
    obtain c' where c': "GetChannel (joinChannelName sha t' S') (x_channels x) = Some c'" "ch_Behavior c' = BehaviorBarrier"
      "set (ch_BarrierExpected c') = set S'" "ch_Available c' \<longleftrightarrow> set S' \<subseteq> ch_BarrierSet c'"
      by (rule live_barriersE [OF parts(2) j'])
    show "\<exists>c. GetChannel (joinChannelName sha t' S') (x_channels ?x) = Some c \<and> ch_Behavior c = BehaviorBarrier \<and>
        set (ch_BarrierExpected c) = set S' \<and> (ch_Available c \<longleftrightarrow> set S' \<subseteq> ch_BarrierSet c)"
      using c c' u join_name_inj [OF g j' j] by auto
  qed
  moreover have "live_values (x_graph ?x) (x_channels ?x)"
    using parts(3) unfolding live_values_def by auto
  moreover have "live_edges E (x_channels ?x)" using parts(4) unfolding live_edges_def by simp
  ultimately have "live sha E J ?x" using parts(1) by (simp add: live_def)
  moreover have "tokens_of sha J ?x =
      (tokens_of sha J x)\<lparr>tok_arrived := (tok_arrived (tokens_of sha J x))((S, t) := insert i (tok_arrived (tokens_of sha J x) (S, t)))\<rparr>"
    using c u(1) j join_name_inj [OF g _ j] unfolding tokens_of_def
    by (auto simp: channel_available_def fun_eq_iff split: option.splits)
  ultimately show ?thesis by blast
qed

section \<open>One task\<close>

text \<open>Writers that belong to node i.\<close>

lemma writes_tokens:
  assumes g: "good_joins sha J"
  shows "live sha E J x \<Longrightarrow>
    \<forall>w \<in> set ws. (\<exists>t. (i, t) \<in> E \<and> w = plain_writer t) \<or> (\<exists>S t. (S, t) \<in> J \<and> i \<in> set S \<and> w = join_writer sha t S i) \<Longrightarrow>
    live sha E J (processChannelWrites tid ws step x) \<and>
    tokens_of sha J (processChannelWrites tid ws step x) =
      (let k = tokens_of sha J x in
       k\<lparr>tok_due := tok_due k \<union> {t. plain_writer t \<in> set ws},
         tok_arrived := (\<lambda>(S, t). tok_arrived k (S, t) \<union> (if (S, t) \<in> J \<and> join_writer sha t S i \<in> set ws then {i} else {}))\<rparr>)"
proof (induction ws arbitrary: x)
  case Nil
  then show ?case by (auto simp: processChannelWrites_def Let_def intro!: tokens.equality)
next
  case (Cons w ws)
  let ?y = "writeChannel (we_Channel w) (we_Value w) tid step x"
  have step: "processChannelWrites tid (w # ws) step x = processChannelWrites tid ws step ?y"
    by (simp add: processChannelWrites_def)
  have tl: "\<forall>w \<in> set ws. (\<exists>t. (i, t) \<in> E \<and> w = plain_writer t) \<or> (\<exists>S t. (S, t) \<in> J \<and> i \<in> set S \<and> w = join_writer sha t S i)"
    using Cons.prems(2) by simp
  consider (plain) t where "(i, t) \<in> E" "w = plain_writer t"
    | (join) S t where "(S, t) \<in> J" "i \<in> set S" "w = join_writer sha t S i"
    using Cons.prems(2) by auto
  then show ?case
  proof cases
    case plain
    have "GetChannel (branchChannel t) (x_channels x) \<noteq> None" "graph_triggers (branchChannel t) (x_graph x) = [t]"
      using Cons.prems(1) plain(1) unfolding live_def live_edges_def live_graph_def by blast+
    from write_value [OF Cons.prems(1) _ this, of "AnyString ''update''" tid step]
    have y: "live sha E J ?y" "tokens_of sha J ?y = (tokens_of sha J x)\<lparr>tok_due := insert t (tok_due (tokens_of sha J x))\<rparr>"
      by (simp_all add: plain(2) channelUpdateMarker_def)
    show ?thesis
      unfolding step using Cons.IH [OF y(1) tl] unfolding y(2)
      by (auto simp: Let_def plain(2) intro!: tokens.equality)
  next
    case join
    from write_join [OF g Cons.prems(1) join(1), of i tid step]
    have y: "live sha E J ?y" "tokens_of sha J ?y =
        (tokens_of sha J x)\<lparr>tok_arrived := (tok_arrived (tokens_of sha J x))((S, t) := insert i (tok_arrived (tokens_of sha J x) (S, t)))\<rparr>"
      by (simp_all add: join(3))
    have eq: "join_writer sha t' S' i = join_writer sha t S i \<longleftrightarrow> S' = S \<and> t' = t" if "(S', t') \<in> J" for S' t'
      using join_name_inj [OF g that join(1)] by simp
    show ?thesis
      unfolding step using Cons.IH [OF y(1) tl] unfolding y(2)
      by (auto simp: Let_def join(1) join(3) eq [simplified] fun_eq_iff intro!: tokens.equality)
  qed
qed

text \<open>A channel made at run time.\<close>

lemma ensureTrigger_frame [simp]:
  "x_State (ensureTrigger ch to x) = x_State x" "x_pendingTasks (ensureTrigger ch to x) = x_pendingTasks x"
  "x_resumed (ensureTrigger ch to x) = x_resumed x" "x_nextNodes (ensureTrigger ch to x) = x_nextNodes x"
  "graph_Node k (x_graph (ensureTrigger ch to x)) = graph_Node k (x_graph x)"
  "graph_has k (x_graph (ensureTrigger ch to x)) = graph_has k (x_graph x)"
  "g_conditionalEdges (x_graph (ensureTrigger ch to x)) = g_conditionalEdges (x_graph x)"
  "g_entryPoint (x_graph (ensureTrigger ch to x)) = g_entryPoint (x_graph x)"
  "g_schema (x_graph (ensureTrigger ch to x)) = g_schema (x_graph x)"
  by (simp_all add: ensureTrigger_def)

lemma ensureTrigger_live:
  assumes l: "live sha E J x" and ch: "ch = branchChannel i \<or> ch = triggerChannel i"
  shows "live sha E J (ensureTrigger ch i x) \<and> tokens_of sha J (ensureTrigger ch i x) = tokens_of sha J x \<and>
    GetChannel ch (x_channels (ensureTrigger ch i x)) \<noteq> None \<and> graph_triggers ch (x_graph (ensureTrigger ch i x)) = [i]"
proof -
  let ?x = "ensureTrigger ch i x"
  have parts: "live_graph sha E J (x_graph x)" "live_barriers sha J (x_channels x)" "live_values (x_graph x) (x_channels x)"
    "live_edges E (x_channels x)" using l by (simp_all add: live_def)
  have nj: "joinChannelName sha t S \<noteq> ch" for S t using ch by auto
  have tr: "graph_triggers ch' (x_graph ?x) = (if ch' = ch then [i] else graph_triggers ch' (x_graph x))" for ch'
  proof (cases "graph_triggers ch (x_graph x) = []")
    case False
    then have "graph_triggers ch (x_graph x) = [i]" using live_graphD(3) [OF parts(1), of ch] ch nj by auto
    then show ?thesis by (simp add: ensureTrigger_def)
  qed (simp add: ensureTrigger_def)
  have get: "GetChannel ch' (x_channels ?x) =
      (if ch' = ch \<and> GetChannel ch (x_channels x) = None then Some (NewChannel ch BehaviorLastValue)
       else GetChannel ch' (x_channels x))" for ch'
    by (auto simp: ensureTrigger_def split: option.splits)
  have "live_graph sha E J (x_graph ?x)"
    unfolding live_graph_def tr using live_graphD [OF parts(1)] ch nj by (intro conjI allI impI) (auto split: if_splits)
  moreover have "live_barriers sha J (x_channels ?x)"
    using parts(2) nj unfolding live_barriers_def get by simp
  moreover have "live_values (x_graph ?x) (x_channels ?x)"
    using live_valuesD [OF parts(3)] ch unfolding live_values_def get tr
    by (auto simp: NewChannel_def split: if_splits)
  moreover have "live_edges E (x_channels ?x)" using parts(4) unfolding live_edges_def get by auto
  moreover have "channel_available ch' (x_channels ?x) = channel_available ch' (x_channels x)" for ch'
    by (auto simp: channel_available_eq get NewChannel_def)
  then have "tokens_of sha J ?x = tokens_of sha J x"
    using nj unfolding tokens_of_def get by (auto simp: fun_eq_iff)
  ultimately show ?thesis by (simp add: live_def get tr)
qed

lemma dynamic_trigger:
  assumes l: "live sha E J x" and ch: "ch = branchChannel i \<or> ch = triggerChannel i"
  shows "live sha E J (writeChannel ch v tid step (ensureTrigger ch i x)) \<and>
    tokens_of sha J (writeChannel ch v tid step (ensureTrigger ch i x)) =
      (tokens_of sha J x)\<lparr>tok_due := insert i (tok_due (tokens_of sha J x))\<rparr>"
  using ensureTrigger_live [OF l ch] write_value [OF _ ch] by metis

text \<open>What a task leaves as it is.\<close>

definition graph_Node_of :: "('a, 'e) ExecutionContext \<Rightarrow> string \<Rightarrow> ('a, 'e) Node option" where
  "graph_Node_of x k = graph_Node k (x_graph x)"

definition frame :: "('a, 'e) ExecutionContext \<Rightarrow> ('a, 'e) ExecutionContext \<Rightarrow> bool" where
  "frame x y \<longleftrightarrow> graph_Node_of y = graph_Node_of x \<and> g_conditionalEdges (x_graph y) = g_conditionalEdges (x_graph x) \<and>
     g_entryPoint (x_graph y) = g_entryPoint (x_graph x) \<and> g_schema (x_graph y) = g_schema (x_graph x) \<and>
     x_resumed y = x_resumed x \<and> x_nextNodes y = x_nextNodes x"

lemma frame_refl [simp]: "frame x x" by (simp add: frame_def)

lemma frame_trans [trans]: "frame x y \<Longrightarrow> frame y z \<Longrightarrow> frame x z" by (simp add: frame_def)

lemma frameD:
  assumes "frame x y"
  shows "graph_Node k (x_graph y) = graph_Node k (x_graph x)" "graph_has k (x_graph y) = graph_has k (x_graph x)"
    "resolveTargetByEnds i r (x_graph y) = resolveTargetByEnds i r (x_graph x)"
    "conditional_target ce (x_graph y) r = conditional_target ce (x_graph x) r"
    "g_conditionalEdges (x_graph y) = g_conditionalEdges (x_graph x)"
    "wired_nodes sha E J (x_graph y) = wired_nodes sha E J (x_graph x)"
proof -
  have n: "graph_Node k (x_graph y) = graph_Node k (x_graph x)" for k
    using assms by (simp add: frame_def graph_Node_of_def fun_eq_iff)
  show "graph_Node k (x_graph y) = graph_Node k (x_graph x)" by (rule n)
  show "graph_has k (x_graph y) = graph_has k (x_graph x)" by (simp add: graph_has_def n)
  have r: "resolveTargetByEnds i r (x_graph y) = resolveTargetByEnds i r (x_graph x)" for i r
    by (simp add: resolveTargetByEnds_def n)
  show "resolveTargetByEnds i r (x_graph y) = resolveTargetByEnds i r (x_graph x)" by (rule r)
  show "conditional_target ce (x_graph y) r = conditional_target ce (x_graph x) r" unfolding conditional_target_def r by (rule refl)
  show "g_conditionalEdges (x_graph y) = g_conditionalEdges (x_graph x)" using assms by (simp add: frame_def)
  show "wired_nodes sha E J (x_graph y) = wired_nodes sha E J (x_graph x)" by (simp add: wired_nodes_def n)
qed

lemma frame_intros [simp, intro]:
  "frame x (writeChannel ch v tid step x)" "frame x (ensureTrigger ch i x)"
  "frame x (processChannelWrites tid ws step x)" "frame x (updateStateFromResult oneShot s x)"
  "frame x (updateVersionsSeen i trs x)"
proof -
  have w: "frame x (writeChannel ch v tid step x)" for ch v and x :: "('a, 'e) ExecutionContext"
    by (simp add: frame_def graph_Node_of_def fun_eq_iff)
  then show "frame x (writeChannel ch v tid step x)" .
  show "frame x (ensureTrigger ch i x)" by (simp add: frame_def graph_Node_of_def fun_eq_iff)
  have "frame y x \<Longrightarrow> frame y (processChannelWrites tid ws step x)" for y
  proof (induction ws arbitrary: x)
    case (Cons v ws)
    then show ?case using Cons.IH [OF frame_trans [OF Cons.prems w]] by (simp add: processChannelWrites_def)
  qed (simp add: processChannelWrites_def)
  then show "frame x (processChannelWrites tid ws step x)" by simp
  show "frame x (updateStateFromResult oneShot s x)" by (simp add: frame_def graph_Node_of_def updateStateFromResult_def fun_eq_iff)
  show "frame x (updateVersionsSeen i trs x)" by (simp add: frame_def graph_Node_of_def updateVersionsSeen_def Let_def fun_eq_iff)
qed

text \<open>Steps that do not touch channels or triggers.\<close>

lemma same_tokens:
  assumes "x_graph y = x_graph x" "x_channels y = x_channels x"
  shows "live sha E J y = live sha E J x" "tokens_of sha J y = tokens_of sha J x"
  unfolding live_def tokens_of_def assms by (rule refl)+

lemma update_tokens [simp]:
  "live sha E J (updateStateFromResult oneShot s x) = live sha E J x"
  "tokens_of sha J (updateStateFromResult oneShot s x) = tokens_of sha J x"
  "x_pendingTasks (updateStateFromResult oneShot s x) = x_pendingTasks x"
  "live sha E J (updateVersionsSeen i trs x) = live sha E J x"
  "tokens_of sha J (updateVersionsSeen i trs x) = tokens_of sha J x"
  "x_State (updateVersionsSeen i trs x) = x_State x" "x_pendingTasks (updateVersionsSeen i trs x) = x_pendingTasks x"
  "live sha E J (x\<lparr>x_pendingTasks := ts\<rparr>) = live sha E J x"
  "tokens_of sha J (x\<lparr>x_pendingTasks := ts\<rparr>) = tokens_of sha J x"
  by (rule same_tokens; simp add: updateStateFromResult_def updateVersionsSeen_def Let_def
      | simp add: updateStateFromResult_def updateVersionsSeen_def Let_def)+

lemma processChannelWrites_frame [simp]:
  "x_State (processChannelWrites tid ws step x) = x_State x"
  "x_pendingTasks (processChannelWrites tid ws step x) = x_pendingTasks x"
  unfolding processChannelWrites_def by (induction ws arbitrary: x) simp_all

text \<open>The static writers of a node are its plain edges and its joins.\<close>

lemma static_writes:
  assumes g: "good_joins sha J" and l: "live sha E J x" and ws: "set ws = node_writers sha E J i"
  shows "live sha E J (processChannelWrites tid ws step x) \<and>
    tokens_of sha J (processChannelWrites tid ws step x) = tok_task E J (i, False, []) (tokens_of sha J x)"
proof -
  have m: "plain_writer t \<in> set ws \<longleftrightarrow> (i, t) \<in> E" for t
    using ws by (auto simp: node_writers_def)
  have j: "(S, t) \<in> J \<Longrightarrow> join_writer sha t S i \<in> set ws \<longleftrightarrow> i \<in> set S" for S t
    using ws join_name_inj [OF g] by (auto simp: node_writers_def)
  have "\<forall>w \<in> set ws. (\<exists>t. (i, t) \<in> E \<and> w = plain_writer t) \<or> (\<exists>S t. (S, t) \<in> J \<and> i \<in> set S \<and> w = join_writer sha t S i)"
    unfolding ws node_writers_def by auto
  from writes_tokens [OF g l this] show ?thesis
    using m j by (auto simp: Let_def fun_eq_iff intro!: tokens.equality)
qed

lemma conditional_loop_tokens:
  "live sha E J x \<Longrightarrow> conditional_loop ce rs seen step tid x = (x', None) \<Longrightarrow>
   live sha E J x' \<and> frame x x' \<and> x_pendingTasks x' = x_pendingTasks x \<and>
   tokens_of sha J x' = (let k = tokens_of sha J x in
     k\<lparr>tok_due := tok_due k \<union> conditional_target ce (x_graph x) ` {r \<in> set rs. r \<noteq> [] \<and> r \<notin> set seen}\<rparr>)"
proof (induction rs arbitrary: seen x)
  case Nil
  then show ?case by simp
next
  case (Cons r rs)
  show ?case
  proof (cases "r = [] \<or> r \<in> set seen")
    case True
    then have "{q \<in> set (r # rs). q \<noteq> [] \<and> q \<notin> set seen} = {q \<in> set rs. q \<noteq> [] \<and> q \<notin> set seen}" by auto
    then show ?thesis using Cons.IH [OF Cons.prems(1), of seen] Cons.prems(2) True by (simp del: set_simps)
  next
    case False
    let ?t = "conditional_target ce (x_graph x) r"
    let ?y = "writeChannel (branchChannel ?t) channelUpdateMarker tid step (ensureTrigger (branchChannel ?t) ?t x)"
    have "processConditionalResult ce r step tid x = (?y, None)" and rest: "conditional_loop ce rs (r # seen) step tid ?y = (x', None)"
      using Cons.prems(2) False
      by (auto simp: processConditionalResult_def conditional_target_def Let_def split: prod.splits option.splits if_splits)
    note y = dynamic_trigger [OF Cons.prems(1), of "branchChannel ?t" ?t channelUpdateMarker tid step]
    have f: "frame x ?y" by (rule frame_trans [OF frame_intros(2) frame_intros(1)])
    have "conditional_target ce (x_graph ?y) = conditional_target ce (x_graph x)"
      by (rule ext) (rule frameD(4) [OF f])
    moreover have "{q \<in> set (r # rs). q \<noteq> [] \<and> q \<notin> set seen} = insert r {q \<in> set rs. q \<noteq> [] \<and> q \<notin> set (r # seen)}"
      using False by auto
    ultimately show ?thesis
      using Cons.IH [OF _ rest] y frame_trans [OF f] by (simp del: set_simps add: Let_def)
  qed
qed

text \<open>A task with its node's writers.\<close>

definition task_fits :: "('a, 'e) ExecutionContext \<Rightarrow> 'a GraphTask \<Rightarrow> bool" where
  "task_fits x t \<longleftrightarrow> tk_Writes t = (case graph_Node (tk_NodeID t) (x_graph x) of None \<Rightarrow> [] | Some n \<Rightarrow> nd_writers n)"

lemma task_fits_frame: "frame x y \<Longrightarrow> task_fits y t = task_fits x t"
  by (simp add: task_fits_def frameD)

lemma command_tasks_fit: "command_tasks cs idx t source next x = Some ts \<Longrightarrow> \<forall>u \<in> set ts. task_fits x u"
proof (induction cs arbitrary: idx ts)
  case (Cons c cs)
  then show ?case by (cases c) (auto simp: task_fits_def Let_def split: option.splits)
qed simp

text \<open>The graph of a run: its nodes are wired, and none has the name of the virtual start.\<close>

definition sound :: "(string \<Rightarrow> string) \<Rightarrow> (string \<times> string) set \<Rightarrow> (string list \<times> string) set \<Rightarrow> ('a, 'e) ExecutionContext \<Rightarrow> bool" where
  "sound sha E J x \<longleftrightarrow> good_joins sha J \<and> wired_nodes sha E J (x_graph x) \<and> \<not> graph_has Start (x_graph x) \<and> live sha E J x"

lemma soundD:
  assumes "sound sha E J x"
  shows "good_joins sha J" "wired_nodes sha E J (x_graph x)" "\<not> graph_has Start (x_graph x)" "live sha E J x"
  using assms by (simp_all add: sound_def)

lemma sound_frame: "sound sha E J x \<Longrightarrow> frame x y \<Longrightarrow> live sha E J y \<Longrightarrow> sound sha E J y"
  by (simp add: sound_def frameD)

text \<open>Handling a result that did not route, and then the conditional edge.\<close>

lemma unrouted_task:
  assumes s: "sound sha E J y" and fit: "task_fits y t" and n: "graph_Node (tk_NodeID t) (x_graph y) = Some n"
    and z: "z = updateVersionsSeen (tk_NodeID t) (tk_Triggers t) (processChannelWrites (tk_TaskID t) (tk_Writes t) step y)"
    and c: "processConditionalEdges t step z = (x', None)"
  shows "live sha E J x' \<and> frame y x' \<and> x_pendingTasks x' = x_pendingTasks y \<and>
    tokens_of sha J x' =
      tok_task E J (tk_NodeID t, False, conditional_targets (tk_NodeID t) (x_graph y) (x_State y)) (tokens_of sha J y)"
proof -
  let ?i = "tk_NodeID t"
  have i: "?i \<noteq> Start" using n soundD(3) [OF s] by (auto simp: graph_has_def)
  have "tk_Writes t = nd_writers n" using fit n by (simp add: task_fits_def)
  then have "set (tk_Writes t) = node_writers sha E J ?i" using wired_nodesD [OF soundD(2) [OF s] n] i by simp
  from static_writes [OF soundD(1) [OF s] soundD(4) [OF s] this, of "tk_TaskID t" step]
  have lz: "live sha E J z" and tz: "tokens_of sha J z = tok_task E J (?i, False, []) (tokens_of sha J y)"
    by (simp_all add: z)
  have fz: "frame y z" unfolding z by (rule frame_trans [OF frame_intros(3) frame_intros(5)])
  have sz: "x_State z = x_State y" "x_pendingTasks z = x_pendingTasks y" by (simp_all add: z)
  note ce = frameD(5) [OF fz]
  show ?thesis
  proof (cases "g_conditionalEdges (x_graph y) ?i")
    case None
    then have "x' = z" "conditional_targets ?i (x_graph y) (x_State y) = []"
      using c by (simp_all add: processConditionalEdges_def ce conditional_targets_def)
    then show ?thesis using lz tz fz sz by simp
  next
    case (Some e)
    then obtain cond rs where cond: "c_Condition e = Some cond" "cond (x_State y) = Inr rs"
      and loop: "conditional_loop e rs [] step (tk_TaskID t) z = (x', None)"
      using c by (auto simp: processConditionalEdges_def ce sz split: option.splits sum.splits)
    have tg: "set (conditional_targets ?i (x_graph y) (x_State y)) = conditional_target e (x_graph z) ` {r \<in> set rs. r \<noteq> []}"
      using Some cond by (auto simp: conditional_targets_def frameD(4) [OF fz])
    show ?thesis
      using conditional_loop_tokens [OF lz loop] frame_trans [OF fz] sz tg tz
      by (auto simp: Let_def fun_eq_iff intro!: tokens.equality)
  qed
qed

lemma single_task:
  assumes s: "sound sha E J x" and fit: "task_fits x t" and e: "executeSingleTask oneShot t step x = (x', None)"
  shows "live sha E J x' \<and> frame x x' \<and> (\<exists>ts. x_pendingTasks x' = x_pendingTasks x @ ts \<and> (\<forall>u \<in> set ts. task_fits x u)) \<and>
    tokens_of sha J x' = tok_task E J (task_outcome oneShot t step x) (tokens_of sha J x)"
proof -
  let ?i = "tk_NodeID t"
  obtain res where res: "executeNodeFunction t x = Inr res" and fin: "finalizeSuccessfulExecution oneShot t res step x = (x', None)"
    using e by (auto simp: executeSingleTask_def split: sum.splits)
  obtain n where n: "graph_Node ?i (x_graph x) = Some n" using res by (auto simp: executeNodeFunction_def split: option.splits)
  note s_parts = soundD [OF s]
  have unrouted: ?thesis
    if y: "y = x \<or> (\<exists>u. y = updateStateFromResult oneShot u x)"
      and h: "handleNodeResult oneShot t res step x = (processChannelWrites (tk_TaskID t) (tk_Writes t) step y, Inr False)"
      and o: "task_outcome oneShot t step x = (?i, False, conditional_targets ?i (x_graph x) (x_State y))" for y
  proof -
    have ly: "live sha E J y" and fy: "frame x y" and py: "x_pendingTasks y = x_pendingTasks x"
      and ty: "tokens_of sha J y = tokens_of sha J x"
      using y s_parts(4) by auto
    have gy: "x_graph y = x_graph x" using y by (auto simp: updateStateFromResult_def)
    have c: "processConditionalEdges t step
        (updateVersionsSeen ?i (tk_Triggers t) (processChannelWrites (tk_TaskID t) (tk_Writes t) step y)) = (x', None)"
      using fin h by (simp add: finalizeSuccessfulExecution_def Let_def)
    have "task_fits y t" using fit task_fits_frame [OF fy] by simp
    from unrouted_task [OF sound_frame [OF s fy ly] this _ refl c, of n] n gy
    show ?thesis using frame_trans [OF fy] o ty py by auto
  qed
  show ?thesis
  proof (cases res)
    case ResNil
    show ?thesis by (rule unrouted [of x]) (simp_all add: ResNil handleNodeResult_def task_outcome_def res Let_def)
  next
    case (ResState u)
    show ?thesis
      by (rule unrouted [of "updateStateFromResult oneShot u x"])
        (auto simp: ResState handleNodeResult_def task_outcome_def res Let_def)
  next
    case ResOther
    show ?thesis by (rule unrouted [of x]) (simp_all add: ResOther handleNodeResult_def task_outcome_def res Let_def)
  next
    case (ResCommands cs)
    then obtain ts where ts: "command_tasks (map (map_option (resolveGoTo ?i (x_graph x))) cs) 0 t
        (if tk_TaskID t \<noteq> [] then tk_TaskID t else if tk_TaskPath t \<noteq> [] then join_path (tk_TaskPath t) else ?i) (step + 1) x = Some ts"
      and x': "x' = updateVersionsSeen ?i (tk_Triggers t) (x\<lparr>x_pendingTasks := x_pendingTasks x @ ts\<rparr>)"
      using fin by (auto simp: finalizeSuccessfulExecution_def handleNodeResult_def enqueueCommands_def Let_def
          split: option.splits if_splits)
    have "frame x (x\<lparr>x_pendingTasks := x_pendingTasks x @ ts\<rparr>)" by (simp add: frame_def graph_Node_of_def fun_eq_iff)
    then have "frame x x'" unfolding x' by (rule frame_trans) simp
    moreover have "tok_task E J (?i, True, []) k = k" for k
      by (auto simp: fun_eq_iff intro!: tokens.equality)
    ultimately show ?thesis
      using command_tasks_fit [OF ts] s_parts(4) by (auto simp: x' task_outcome_def res ResCommands Let_def)
  next
    case (ResCommand co)
    show ?thesis
    proof (cases co)
      case None
      show ?thesis by (rule unrouted [of x]) (simp_all add: ResCommand None handleNodeResult_def task_outcome_def res Let_def)
    next
      case (Some c)
      define y where "y = (case cmd_Update c of None \<Rightarrow> x | Some u \<Rightarrow> updateStateFromResult oneShot u x)"
      have y: "y = x \<or> (\<exists>u. y = updateStateFromResult oneShot u x)" by (auto simp: y_def split: option.splits)
      have go: "cmd_GoTo (resolveGoTo ?i (x_graph x) c) = [] \<longleftrightarrow> cmd_GoTo c = []"
        and up: "cmd_Update (resolveGoTo ?i (x_graph x) c) = cmd_Update c"
        by (simp_all add: resolveGoTo_def)
      show ?thesis
      proof (cases "cmd_GoTo c = []")
        case True
        show ?thesis
          by (rule unrouted [OF y])
            (auto simp: ResCommand Some handleNodeResult_def handleCommandResult_def task_outcome_def res Let_def go up True y_def
              split: option.splits)
      next
        case False
        let ?t = "cmd_GoTo (resolveGoTo ?i (x_graph x) c)"
        let ?z = "writeChannel (triggerChannel ?t) channelUpdateMarker (tk_TaskID t) step (ensureTrigger (triggerChannel ?t) ?t y)"
        have x': "x' = updateVersionsSeen ?i (tk_Triggers t) ?z"
          using fin by (simp add: finalizeSuccessfulExecution_def handleNodeResult_def handleCommandResult_def
              handleCommandRouting_def ResCommand Some Let_def go up False y_def)
        have ly: "live sha E J y" and fy: "frame x y" and py: "x_pendingTasks y = x_pendingTasks x"
          and ty: "tokens_of sha J y = tokens_of sha J x"
          using y s_parts(4) by auto
        note z = dynamic_trigger [OF ly, of "triggerChannel ?t" ?t channelUpdateMarker "tk_TaskID t" step]
        have "frame y ?z" by (rule frame_trans [OF frame_intros(2) frame_intros(1)])
        then have "frame x x'" unfolding x' by (rule frame_trans [OF frame_trans [OF fy] frame_intros(5)])
        moreover have "tok_task E J (?i, True, [t]) k = k\<lparr>tok_due := insert t (tok_due k)\<rparr>" for t k
          by (auto simp: fun_eq_iff intro!: tokens.equality)
        ultimately show ?thesis
          using z ty py by (simp add: x' task_outcome_def res ResCommand Some Let_def False)
      qed
    qed
  qed
qed

text \<open>A whole superstep.\<close>

lemma execute_step:
  "sound sha E J x \<Longrightarrow> \<forall>t \<in> set ts. task_fits x t \<Longrightarrow> executeStep oneShot ts step x = (x', None) \<Longrightarrow>
   live sha E J x' \<and> frame x x' \<and> (\<exists>us. x_pendingTasks x' = x_pendingTasks x @ us \<and> (\<forall>u \<in> set us. task_fits x u)) \<and>
   tokens_of sha J x' = fold (tok_task E J) (step_outcomes oneShot ts step x) (tokens_of sha J x)"
proof (induction ts arbitrary: x)
  case (Cons t ts)
  obtain y where y: "executeSingleTask oneShot t step x = (y, None)" and rest: "executeStep oneShot ts step y = (x', None)"
    using Cons.prems(3) by (auto split: prod.splits if_splits)
  have "task_fits x t" using Cons.prems(2) by simp
  note st = single_task [OF Cons.prems(1) this y]
  then have f: "frame x y" by blast
  have "sound sha E J y" using sound_frame [OF Cons.prems(1) f] st by blast
  moreover have "\<forall>u \<in> set ts. task_fits y u" using Cons.prems(2) task_fits_frame [OF f] by simp
  ultimately have IH: "live sha E J x' \<and> frame y x' \<and> (\<exists>us. x_pendingTasks x' = x_pendingTasks y @ us \<and> (\<forall>u \<in> set us. task_fits y u)) \<and>
     tokens_of sha J x' = fold (tok_task E J) (step_outcomes oneShot ts step y) (tokens_of sha J y)"
    using Cons.IH [OF _ _ rest] by blast
  obtain us vs where us: "x_pendingTasks y = x_pendingTasks x @ us" "\<forall>u \<in> set us. task_fits x u"
    and vs: "x_pendingTasks x' = x_pendingTasks y @ vs" "\<forall>u \<in> set vs. task_fits y u" using st IH by blast
  have "\<exists>us. x_pendingTasks x' = x_pendingTasks x @ us \<and> (\<forall>u \<in> set us. task_fits x u)"
    using us vs task_fits_frame [OF f] by (intro exI [of _ "us @ vs"]) auto
  then show ?case using st IH y frame_trans [OF f] by simp
qed (simp add: soundD)

section \<open>Planning\<close>

text \<open>The context without its channels and triggers decides the tasks made for given nodes.\<close>

lemma createTask_frame:
  assumes "createTask i step x = (y, r)"
  shows "frame x y" "x_graph y = x_graph x" "x_channels y = x_channels x" "x_pendingTasks y = x_pendingTasks x"
    "r = None \<longleftrightarrow> i = End \<or> \<not> graph_has i (x_graph x)" "r = Some t \<Longrightarrow> tk_NodeID t = i \<and> task_fits x t"
  using assms
  by (auto simp: createTask_def consumeGraphInterruptInput_def frame_def graph_Node_of_def fun_eq_iff graph_has_def task_fits_def
      split: if_splits option.splits list.splits prod.splits)

lemma createTasks_frame:
  "createTasks is step x = (y, ts) \<Longrightarrow>
   frame x y \<and> x_graph y = x_graph x \<and> x_channels y = x_channels x \<and> x_pendingTasks y = x_pendingTasks x \<and>
   map tk_NodeID ts = filter (\<lambda>i. i \<noteq> End \<and> graph_has i (x_graph x)) is \<and> (\<forall>t \<in> set ts. task_fits x t)"
proof (induction "is" arbitrary: x ts)
  case (Cons i "is")
  obtain z r where z: "createTask i step x = (z, r)" by fastforce
  obtain us where us: "createTasks is step z = (y, us)" and ts: "ts = (case r of None \<Rightarrow> us | Some t \<Rightarrow> t # us)"
    using Cons.prems z by (auto split: option.splits prod.splits)
  note zf = createTask_frame [OF z]
  note IH = Cons.IH [OF us]
  have "frame x y" using frame_trans [OF zf(1)] IH by blast
  moreover have "\<forall>t \<in> set us. task_fits x t" using IH task_fits_frame [OF zf(1)] by simp
  ultimately show ?case using IH zf(2-6) by (cases r) (auto simp: ts)
qed simp

lemma acknowledge_all_channels:
  "GetChannel n (acknowledge_all names m) =
     (if n \<in> set names then map_option ch_Acknowledge (GetChannel n m) else GetChannel n m)"
proof -
  have idem: "ch_Acknowledge (ch_Acknowledge c) = ch_Acknowledge c" for c :: "'a Channel"
    by (simp add: ch_Acknowledge_def Let_def)
  show ?thesis
    unfolding acknowledge_all_def
    by (induction names arbitrary: m) (auto simp: idem option.map_comp o_def)
qed

lemma planned_set:
  assumes l: "live sha E J x"
  shows "{i. \<exists>ch. ch \<in> fst ` set (g_triggerToNodes (x_graph x)) \<and> channel_available ch (x_channels x) \<and>
             i \<in> set (graph_triggers ch (x_graph x))} = tok_enabled J (tokens_of sha J x)"
    (is "?P = ?Q")
proof -
  have parts: "live_graph sha E J (x_graph x)" "live_barriers sha J (x_channels x)" "live_values (x_graph x) (x_channels x)"
    using l by (simp_all add: live_def)
  have dom: "graph_triggers ch (x_graph x) = [] \<or> ch \<in> fst ` set (g_triggerToNodes (x_graph x))" for ch
    by (auto simp: graph_triggers_def split: option.splits dest!: map_of_SomeD intro: rev_image_eqI)
  have join: "channel_available (joinChannelName sha t S) (x_channels x) \<longleftrightarrow> set S \<subseteq> tok_arrived (tokens_of sha J x) (S, t)"
    if j: "(S, t) \<in> J" for S t
  proof -
    obtain c where "GetChannel (joinChannelName sha t S) (x_channels x) = Some c" "ch_Available c \<longleftrightarrow> set S \<subseteq> ch_BarrierSet c"
      using live_barriersE [OF parts(2) j] by metis
    then show ?thesis using j by (simp add: channel_available_eq tokens_of_def)
  qed
  have valued: "graph_triggers ch (x_graph x) = [i]"
    if "ch = branchChannel i \<or> ch = triggerChannel i" "channel_available ch (x_channels x)" for ch i
    using live_valuesD(2) [OF parts(3) that(1)] that(2) by (auto simp: channel_available_eq)
  show ?thesis
  proof (intro set_eqI iffI)
    fix i assume "i \<in> ?P"
    then obtain ch where ch: "channel_available ch (x_channels x)" "i \<in> set (graph_triggers ch (x_graph x))" by blast
    then have "graph_triggers ch (x_graph x) \<noteq> []" by auto
    from live_graphD(3) [OF parts(1) this] ch(2) live_graphD(2) [OF parts(1)]
    consider "ch = branchChannel i \<or> ch = triggerChannel i" | S where "(S, i) \<in> J" "ch = joinChannelName sha i S" by fastforce
    then show "i \<in> ?Q"
    proof cases
      case 1
      then show ?thesis using ch(1) by (auto simp: tok_enabled_def tokens_of_def)
    next
      case 2
      then show ?thesis using ch(1) join [OF 2(1)] unfolding tok_enabled_def by blast
    qed
  next
    fix i assume "i \<in> ?Q"
    then consider ch where "ch = branchChannel i \<or> ch = triggerChannel i" "channel_available ch (x_channels x)"
      | S where "(S, i) \<in> J" "set S \<subseteq> tok_arrived (tokens_of sha J x) (S, i)"
      by (auto simp: tok_enabled_def tokens_of_def)
    then show "i \<in> ?P"
    proof cases
      case 1
      then show ?thesis using valued [OF 1] dom [of ch] by force
    next
      case 2
      have "graph_triggers (joinChannelName sha i S) (x_graph x) = [i]" by (rule live_graphD(2) [OF parts(1) 2(1)])
      then show ?thesis using join [OF 2(1)] 2(2) dom [of "joinChannelName sha i S"] by force
    qed
  qed
qed

lemma plan_channels:
  assumes s: "sound sha E J x" and p: "planBasedOnAvailabilityTriggers step x = (y, ts)"
  shows "sound sha E J y \<and> frame x y \<and> x_pendingTasks y = x_pendingTasks x \<and>
    map tk_NodeID ts = sorted_list_of_set {i \<in> tok_enabled J (tokens_of sha J x). i \<noteq> End \<and> graph_has i (x_graph x)} \<and>
    (\<forall>t \<in> set ts. task_fits y t) \<and> tokens_of sha J y = tok_consume J (tokens_of sha J x)"
proof -
  let ?g = "x_graph x" and ?m = "x_channels x"
  define names where "names = filter (\<lambda>ch. channel_available ch ?m) (sort (map fst (g_triggerToNodes ?g)))"
  define nodes where "nodes = filter (\<lambda>i. i \<noteq> End \<and> graph_has i ?g) (concat (map (\<lambda>ch. graph_triggers ch ?g) names))"
  define z where "z = x\<lparr>x_channels := acknowledge_all names ?m\<rparr>"
  have yz: "createTasks (sort (remdups nodes)) step z = (y, ts)"
    using p by (simp add: planBasedOnAvailabilityTriggers_def createTriggeredTasks_def Let_def names_def nodes_def z_def)
  note c = createTasks_frame [OF yz]
  have fz: "frame x z" and gz: "x_graph z = ?g" by (simp_all add: z_def frame_def graph_Node_of_def fun_eq_iff)
  have f: "frame x y" using frame_trans [OF fz] c by blast
  have parts: "live_graph sha E J ?g" "live_barriers sha J ?m" "live_values ?g ?m" "live_edges E ?m" "good_joins sha J"
    using soundD(4) [OF s] soundD(1) [OF s] by (simp_all add: live_def)
  have set_names: "set names = {ch. ch \<in> fst ` set (g_triggerToNodes ?g) \<and> channel_available ch ?m}"
    by (auto simp: names_def)
  have get: "GetChannel ch (x_channels y) = (if ch \<in> set names then map_option ch_Acknowledge (GetChannel ch ?m) else GetChannel ch ?m)" for ch
    using c by (simp add: z_def acknowledge_all_channels)
  have gy: "x_graph y = ?g" using c gz by simp
  have trig: "ch \<in> set names" if "channel_available ch ?m" "graph_triggers ch ?g \<noteq> []" for ch
    using that by (auto simp: set_names graph_triggers_def split: option.splits dest!: map_of_SomeD intro: rev_image_eqI)
  have namesD: "channel_available ch ?m" if "ch \<in> set names" for ch using that by (simp add: set_names)
  have barrier: "GetChannel (joinChannelName sha t S) (x_channels y) =
      (if set S \<subseteq> ch_BarrierSet c then Some (ch_Acknowledge c) else Some c)"
    if j: "(S, t) \<in> J" and c: "GetChannel (joinChannelName sha t S) ?m = Some c" for S t c
  proof -
    have "ch_Available c \<longleftrightarrow> set S \<subseteq> ch_BarrierSet c" using live_barriersE [OF parts(2) j] c by (metis option.inject)
    moreover have "graph_triggers (joinChannelName sha t S) ?g \<noteq> []" using live_graphD(2) [OF parts(1) j] by simp
    ultimately show ?thesis
      using trig [of "joinChannelName sha t S"] namesD [of "joinChannelName sha t S"] c by (auto simp: get channel_available_eq)
  qed
  have ne: "S \<noteq> []" if "(S, t) \<in> J" for S t using parts(5) that by (auto simp: good_joins_def)
  have "live_barriers sha J (x_channels y)"
    unfolding live_barriers_def
  proof (intro allI impI)
    fix S t assume j: "(S, t) \<in> J"
    obtain c where c: "GetChannel (joinChannelName sha t S) ?m = Some c" "ch_Behavior c = BehaviorBarrier"
      "set (ch_BarrierExpected c) = set S" "ch_Available c \<longleftrightarrow> set S \<subseteq> ch_BarrierSet c" by (rule live_barriersE [OF parts(2) j])
    show "\<exists>c. GetChannel (joinChannelName sha t S) (x_channels y) = Some c \<and> ch_Behavior c = BehaviorBarrier \<and>
        set (ch_BarrierExpected c) = set S \<and> (ch_Available c \<longleftrightarrow> set S \<subseteq> ch_BarrierSet c)"
      using barrier [OF j c(1)] c ne [OF j] by (cases "set S \<subseteq> ch_BarrierSet c") simp_all
  qed
  moreover have "live_values (x_graph y) (x_channels y)"
    unfolding live_values_def gy
  proof (intro allI impI, elim conjE)
    fix i ch c assume ch: "ch = branchChannel i \<or> ch = triggerChannel i" and c: "GetChannel ch (x_channels y) = Some c"
    obtain c' where c': "GetChannel ch ?m = Some c'" "c = c' \<or> c = ch_Acknowledge c'" using c by (auto simp: get split: if_splits)
    show "ch_Behavior c = BehaviorLastValue \<and> (ch_Available c \<longrightarrow> graph_triggers ch ?g = [i])"
      using live_valuesD [OF parts(3) ch c'(1)] c'(2) by auto
  qed
  moreover have "live_edges E (x_channels y)" using parts(4) unfolding live_edges_def get by auto
  ultimately have ly: "live sha E J y" using parts(1) by (simp add: live_def gy)
  have sy: "sound sha E J y" by (rule sound_frame [OF s f ly])
  have none: "\<not> channel_available ch (x_channels y)" if ch: "ch = branchChannel i \<or> ch = triggerChannel i" for ch i
  proof
    assume a: "channel_available ch (x_channels y)"
    then have n: "ch \<notin> set names" by (auto simp: channel_available_eq get)
    then have "channel_available ch ?m" using a by (simp add: channel_available_eq get)
    moreover from this have "graph_triggers ch ?g = [i]"
      using live_valuesD(2) [OF parts(3) ch] by (auto simp: channel_available_eq)
    ultimately show False using trig n by simp
  qed
  have "tokens_of sha J y = tok_consume J (tokens_of sha J x)"
  proof (rule tokens.equality)
    show "tok_due (tokens_of sha J y) = tok_due (tok_consume J (tokens_of sha J x))"
      using none by (auto simp: tokens_of_def tok_consume_def)
    show "tok_arrived (tokens_of sha J y) = tok_arrived (tok_consume J (tokens_of sha J x))"
    proof (rule ext)
      fix p show "tok_arrived (tokens_of sha J y) p = tok_arrived (tok_consume J (tokens_of sha J x)) p"
      proof (cases "p \<in> J")
        case True
        obtain S t where p: "p = (S, t)" by (cases p)
        obtain c where "GetChannel (joinChannelName sha t S) ?m = Some c" "ch_Behavior c = BehaviorBarrier"
          using live_barriersE [OF parts(2)] True p by metis
        then show ?thesis using barrier [of S t c] True by (simp add: p tokens_of_def tok_consume_def)
      qed (cases p, simp add: tokens_of_def tok_consume_def)
    qed
  qed simp
  moreover have "map tk_NodeID ts = sorted_list_of_set {i \<in> tok_enabled J (tokens_of sha J x). i \<noteq> End \<and> graph_has i ?g}"
  proof -
    have "set nodes = {i \<in> tok_enabled J (tokens_of sha J x). i \<noteq> End \<and> graph_has i ?g}"
      unfolding planned_set [OF soundD(4) [OF s], symmetric] by (auto simp: nodes_def set_names)
    moreover have "filter (\<lambda>i. i \<noteq> End \<and> graph_has i ?g) (sort (remdups nodes)) = sort (remdups nodes)"
      by (rule filter_True) (auto simp: nodes_def)
    ultimately show ?thesis using c gz by (simp add: sorted_list_of_set_sort_remdups [symmetric])
  qed
  ultimately show ?thesis using sy f c fz task_fits_frame [OF f] task_fits_frame [OF fz] by (auto simp: z_def)
qed

end
