(* ===== verification/GraphSuperstep.thy ===== *)
theory GraphSuperstep
  imports GraphTokens
begin

text \<open>
  Runs of a compiled graph against the machine of tokens: the channels of a fresh run hold no
  tokens, and every superstep that runs to its end makes the step of the machine.
\<close>

section \<open>The start of a run\<close>

lemma distinct_channels:
  "distinct (map fst m) \<Longrightarrow> distinct (map fst (AddChannel name b m))"
  "distinct (map fst m) \<Longrightarrow> distinct (map fst (on_channel name f m))"
  by (simp_all add: AddChannel_def on_channel_def distinct_update distinct_map_entry)

definition plain_channels :: "'a Manager \<Rightarrow> bool" where
  "plain_channels m \<longleftrightarrow> distinct (map fst m) \<and>
     (\<forall>i c. GetChannel (triggerChannel i) m = Some c \<longrightarrow> ch_Behavior c = BehaviorLastValue)"

lemma plain_AddChannel: "plain_channels m \<Longrightarrow> plain_channels (AddChannel name BehaviorLastValue m)"
  unfolding plain_channels_def by (auto simp: distinct_channels NewChannel_def split: option.splits)

lemma join_edges_channels: "g_channels (sg_graph (snd (join_edges fs t sg))) = g_channels (sg_graph sg)"
  by (induction fs arbitrary: sg) (auto simp: graph_addEdge_def addBuildError_def split: sum.splits if_splits)

lemma writers_channels: "g_channels (fold (\<lambda>f. graph_addNodeWriter f (w f)) fs g) = g_channels g"
  by (induction fs arbitrary: g) (simp_all add: graph_addNodeWriter_def)

lemma AddEdge_plain: "plain_channels (g_channels (sg_graph sg)) \<Longrightarrow> plain_channels (g_channels (sg_graph (sg_AddEdge f t sg)))"
  by (auto simp: sg_AddEdge_def addBuildError_def Let_def graph_addNodeWriter_def graph_addNodeTriggerChannel_def
      graph_addEdge_def plain_AddChannel split: sum.splits if_splits)

lemma interrupts_channels: "g_channels (sg_graph (sg_setStaticInterruptNodes is early sg)) = g_channels (sg_graph sg)"
  by (induction "is" arbitrary: sg) (simp_all add: addBuildError_def Let_def)

lemma AddJoinEdge_plain:
  assumes p: "plain_channels (g_channels (sg_graph sg))"
  shows "plain_channels (g_channels (sg_graph (sg_AddJoinEdge sha fs t sg)))"
proof -
  let ?S = "normalizeJoinStarts fs"
  have j: "plain_channels (on_channel (joinChannelName sha t ?S) f (AddChannel (joinChannelName sha t ?S) BehaviorBarrier m))"
    if "plain_channels m" for f and m :: "'a Manager"
    using that unfolding plain_channels_def by (auto simp: distinct_channels)
  have e: "plain_channels (g_channels (sg_graph (snd (join_edges ?S t sg))))" using p by (simp add: join_edges_channels)
  show ?thesis
    using p e j [OF e]
    by (auto simp: sg_AddJoinEdge_def Let_def addBuildError_def writers_channels graph_addNodeTriggerChannel_def
        split: option.splits prod.splits bool.splits)
qed

lemma build_plain: "plain_channels (g_channels (sg_graph (build sha schema ops)))"
proof (induction ops rule: rev_induct)
  case Nil
  show ?case by (simp add: build_def NewStateGraph_def graph_New_def plain_channels_def NewChannelManager_def GetChannel_def)
next
  case (snoc p ops)
  show ?case unfolding build_snoc
  proof (cases p)
    case (BAddNode i f opts)
    then show "plain_channels (g_channels (sg_graph (build_step sha p (build sha schema ops))))"
      using snoc plain_AddChannel [OF snoc]
      by (auto simp: sg_AddNode_def Let_def addBuildError_def graph_addNode_def graph_addNodeTriggerChannel_def split: sum.splits if_splits)
  next
    case (BSetEntryPoint i)
    then show "plain_channels (g_channels (sg_graph (build_step sha p (build sha schema ops))))"
      using snoc by (auto simp: sg_SetEntryPoint_def addBuildError_def graph_setEntryPoint_def intro!: AddEdge_plain split: sum.splits if_splits)
  next
    case (BAddConditionalEdges f c pm)
    then show "plain_channels (g_channels (sg_graph (build_step sha p (build sha schema ops))))"
      using snoc by (auto simp: sg_AddConditionalEdges_def addBuildError_def graph_addConditionalEdge_def split: sum.splits if_splits option.splits)
  qed (use snoc in \<open>simp_all add: AddEdge_plain AddJoinEdge_plain interrupts_channels sg_SetFinishPoint_def\<close>)
qed

lemma GetChannel_build_channels:
  "distinct (map fst cs) \<Longrightarrow> \<forall>n \<in> fst ` set cs. GetChannel n m = None \<Longrightarrow>
   GetChannel n (build_channels cs m) =
     (case map_of cs n of
        None \<Rightarrow> GetChannel n m
      | Some c \<Rightarrow> Some (if ch_Behavior c \<noteq> BehaviorBarrier then NewChannel n (ch_Behavior c)
                       else ch_SetBarrierExpected (ch_BarrierExpected c) (NewChannel n (ch_Behavior c))))"
proof (induction cs arbitrary: m)
  case (Cons p cs)
  obtain name c where p: "p = (name, c)" by fastforce
  have "map_of cs name = None" using Cons.prems(1) by (simp add: p map_of_eq_None_iff)
  moreover have "\<forall>k \<in> fst ` set cs. GetChannel k (if ch_Behavior c \<noteq> BehaviorBarrier then AddChannel name (ch_Behavior c) m
      else on_channel name (ch_SetBarrierExpected (ch_BarrierExpected c)) (AddChannel name (ch_Behavior c) m)) = None"
    using Cons.prems by (auto simp: p)
  ultimately show ?case
    using Cons.IH [of "if ch_Behavior c \<noteq> BehaviorBarrier then AddChannel name (ch_Behavior c) m
        else on_channel name (ch_SetBarrierExpected (ch_BarrierExpected c)) (AddChannel name (ch_Behavior c) m)"] Cons.prems
    by (auto simp: p Let_def split: option.splits)
qed simp

lemma GetChannel_initializeChannels:
  "(\<And>key. n \<noteq> ''input:'' @ key) \<Longrightarrow> GetChannel n (x_channels (initializeChannels es upd x)) = GetChannel n (x_channels x)"
  by (induction es arbitrary: x) (auto simp: Let_def)

lemma initializeChannels_frame [simp]:
  "x_graph (initializeChannels es upd x) = x_graph x" "x_pendingTasks (initializeChannels es upd x) = x_pendingTasks x"
  "x_resumed (initializeChannels es upd x) = x_resumed x" "x_nextNodes (initializeChannels es upd x) = x_nextNodes x"
  by (induction es arbitrary: x) (simp_all add: Let_def split_paired_all split del: if_split)

lemma no_input:
  "branchChannel i \<noteq> ''input:'' @ key" "triggerChannel i \<noteq> ''input:'' @ key" "joinChannelName sha t S \<noteq> ''input:'' @ key"
  by (simp_all add: branchChannel_def triggerChannel_def joinChannelName_def ChannelBranchPrefix_def ChannelTriggerPrefix_def ChannelJoinPrefix_def)

lemma all_joins_ne: "(S, t) \<in> all_joins ops \<Longrightarrow> S \<noteq> []"
proof -
  have "(S, t) \<in> op_joins p \<Longrightarrow> S \<noteq> []" for p :: "('a, 'e) build_op" by (cases p) (auto split: if_splits)
  then show "(S, t) \<in> all_joins ops \<Longrightarrow> S \<noteq> []" by (auto simp: all_joins_def)
qed

lemma start_channels:
  assumes c: "sg_Compile (build sha schema ops) = Inr g" and x: "x = initializeChannels es upd (buildExecutionContext g st False None)"
    and n: "\<And>key. ch \<noteq> ''input:'' @ key"
  shows "GetChannel ch (x_channels x) =
      (case GetChannel ch (g_channels g) of None \<Rightarrow> None
       | Some c \<Rightarrow> Some (if ch_Behavior c \<noteq> BehaviorBarrier then NewChannel ch (ch_Behavior c)
                        else ch_SetBarrierExpected (ch_BarrierExpected c) (NewChannel ch (ch_Behavior c))))"
proof -
  have "plain_channels (g_channels g)" using c build_plain [of sha schema ops] by (simp add: Compile_Inr)
  then show ?thesis
    using GetChannel_build_channels [of "g_channels g" "[]" ch]
      GetChannel_initializeChannels [OF n, of es upd "buildExecutionContext g st False None"]
    by (simp add: x buildExecutionContext_def restoreBarrierSets_def restoreChannelVersions_def buildChannelManager_def
        NewChannelManager_def plain_channels_def GetChannel_def cong: option.case_cong)
qed

lemma start_unavailable:
  assumes "sg_Compile (build sha schema ops) = Inr g" "x = initializeChannels es upd (buildExecutionContext g st False None)"
    "\<And>key. ch \<noteq> ''input:'' @ key"
  shows "\<not> channel_available ch (x_channels x)"
  by (auto simp: channel_available_eq start_channels [OF assms] NewChannel_def ch_SetBarrierExpected_def split: option.splits)

lemma start_sound:
  assumes d: "good_digest sha (fst ` all_joins ops)" and c: "sg_Compile (build sha schema ops) = Inr g" and n: "\<not> graph_has Start g"
    and x: "x = initializeChannels es upd (buildExecutionContext g st False None)"
  shows "sound sha (all_edges ops) (all_joins ops) x \<and> tokens_of sha (all_joins ops) x = tok_empty"
proof -
  let ?E = "all_edges ops" and ?J = "all_joins ops"
  have w: "wired sha ?E ?J g" using compiled_wired [OF d c] .
  then have parts: "wired_nodes sha ?E ?J g" "wired_channels sha ?E ?J g" "wired_triggers sha ?E ?J g" by (simp_all add: wired_def)
  have p: "plain_channels (g_channels g)" using c build_plain [of sha schema ops] by (simp add: Compile_Inr)
  have gj: "good_joins sha ?J" using d all_joins_ne unfolding good_joins_def by blast
  have gx: "x_graph x = g" by (simp add: x buildExecutionContext_def)
  note get = start_channels [OF c x]
  have "live_graph sha ?E ?J g"
    unfolding live_graph_def using wired_triggersD [OF parts(3)] by blast
  moreover have "live_barriers sha ?J (x_channels x)"
    unfolding live_barriers_def
  proof (intro allI impI)
    fix S t assume j: "(S, t) \<in> ?J"
    show "\<exists>c. GetChannel (joinChannelName sha t S) (x_channels x) = Some c \<and> ch_Behavior c = BehaviorBarrier \<and>
        set (ch_BarrierExpected c) = set S \<and> (ch_Available c \<longleftrightarrow> set S \<subseteq> ch_BarrierSet c)"
      using wired_channelsD(2) [OF parts(2) j] all_joins_ne [OF j] by (simp add: get [OF no_input(3)] ch_SetBarrierExpected_def NewChannel_def dedupeSortedStrings_eq)
  qed
  moreover have "live_values g (x_channels x)"
    unfolding live_values_def
  proof (intro allI impI, elim conjE)
    fix i ch c' assume ch: "ch = branchChannel i \<or> ch = triggerChannel i" and c': "GetChannel ch (x_channels x) = Some c'"
    have ni: "ch \<noteq> ''input:'' @ key" for key using ch by (elim disjE) (simp_all only: no_input not_False_eq_True)
    obtain c where c: "GetChannel ch (g_channels g) = Some c" using c' get [OF ni] by (auto split: option.splits)
    have "ch_Behavior c = BehaviorLastValue"
      using ch
    proof
      assume b: "ch = branchChannel i"
      then obtain f where "(f, i) \<in> ?E" using wired_channelsD(3) [OF parts(2) c] by auto
      then show ?thesis using wired_channelsD(1) [OF parts(2)] c b by (auto simp: NewChannel_def)
    next
      assume "ch = triggerChannel i"
      then show ?thesis using p c by (simp add: plain_channels_def)
    qed
    then show "ch_Behavior c' = BehaviorLastValue \<and> (ch_Available c' \<longrightarrow> graph_triggers ch g = [i])"
      using c c' get [OF ni] by (auto simp: NewChannel_def)
  qed
  moreover have "live_edges ?E (x_channels x)"
    using wired_channelsD(1) [OF parts(2)] unfolding live_edges_def by (simp add: get [OF no_input(1)])
  ultimately have "sound sha ?E ?J x" using gj parts(1) n by (simp add: sound_def live_def gx)
  moreover have "\<not> channel_available ch (x_channels x)" if "\<And>key. ch \<noteq> ''input:'' @ key" for ch
    by (rule start_unavailable [OF c x that])
  moreover have "GetChannel (joinChannelName sha t S) (x_channels x) = Some c \<Longrightarrow> ch_BarrierSet c = {}" for t S c
    by (auto simp: get [OF no_input(3)] NewChannel_def ch_SetBarrierExpected_def split: option.splits if_splits)
  ultimately show ?thesis
    using no_input(1,2) by (auto simp: tokens_of_def tok_empty_def fun_eq_iff simp del: append.simps split: option.splits)
qed

section \<open>Runs\<close>

text \<open>The contexts between the supersteps of a run that was not resumed, with the next step.\<close>

inductive fresh_run ::
    "('a, 'e, 's) Executor \<Rightarrow> (int \<Rightarrow> 'a GraphTask list \<Rightarrow> 'a GraphTask list) \<Rightarrow> ('a, 'e) Graph \<Rightarrow> ('a State \<Rightarrow> (string \<times> 'a any) list) \<Rightarrow>
     'a State \<Rightarrow> 's \<Rightarrow> ('a, 'e) ExecutionContext \<times> 's \<Rightarrow> int \<Rightarrow> bool"
  for ex order g entries initial s where
    run_start: "startRun ex g entries initial s = (xs, step) \<Longrightarrow> fresh_run ex order g entries initial s xs step"
  | run_step: "fresh_run ex order g entries initial s xs step \<Longrightarrow> runBspStep ex (order step) 0 step xs = (xs', BspExecuted) \<Longrightarrow>
      fresh_run ex order g entries initial s xs' (step + 1)"

lemma save_tokens:
  assumes "createCheckpointAndSave ex initial step (x, s) = (y, s')"
  shows "frame x y" "x_graph y = x_graph x" "x_pendingTasks y = x_pendingTasks x"
    "live sha E J y = live sha E J x" "tokens_of sha J y = tokens_of sha J x"
    "channel_available n (x_channels y) = channel_available n (x_channels x)"
proof -
  have m: "map_of (map (\<lambda>(name, c). (name, ch_ClearStepMark c)) m) n = map_option ch_ClearStepMark (map_of m n)" for n and m :: "'a Manager"
    by (induction m) auto
  define k where "k = x_channels y"
  have y: "x_graph y = x_graph x \<and> x_pendingTasks y = x_pendingTasks x \<and> x_resumed y = x_resumed x \<and> x_nextNodes y = x_nextNodes x \<and>
      (k = x_channels x \<or> k = map (\<lambda>(name, c). (name, ch_ClearStepMark c)) (x_channels x))"
    using assms by (auto simp: createCheckpointAndSave_def clearChannelStepMarks_def Let_def k_def split: option.splits)
  then show "frame x y" "x_graph y = x_graph x" "x_pendingTasks y = x_pendingTasks x"
    by (simp_all add: frame_def graph_Node_of_def fun_eq_iff)
  have get: "GetChannel n k = GetChannel n (x_channels x) \<or>
      GetChannel n k = map_option ch_ClearStepMark (GetChannel n (x_channels x))" for n
    using y by (auto simp: GetChannel_def m)
  have c [simp]: "ch_Behavior (ch_ClearStepMark c) = ch_Behavior c" "ch_Available (ch_ClearStepMark c) = ch_Available c"
    "ch_BarrierSet (ch_ClearStepMark c) = ch_BarrierSet c" "ch_BarrierExpected (ch_ClearStepMark c) = ch_BarrierExpected c" for c :: "'a Channel"
    by (simp_all add: ch_ClearStepMark_def)
  have e: "(\<exists>c. GetChannel n k = Some c \<and> P (ch_Behavior c) (ch_Available c) (ch_BarrierSet c) (ch_BarrierExpected c)) \<longleftrightarrow>
      (\<exists>c. GetChannel n (x_channels x) = Some c \<and> P (ch_Behavior c) (ch_Available c) (ch_BarrierSet c) (ch_BarrierExpected c))" for n P
    using get [of n] by (cases "GetChannel n (x_channels x)") auto
  have 1: "live_barriers sha J k = live_barriers sha J (x_channels x)"
    unfolding live_barriers_def
    using e [where P = "\<lambda>b a s q. b = BehaviorBarrier \<and> set q = set S \<and> a = (set S \<subseteq> s)" for S] by blast
  have 2: "live_values (x_graph x) k = live_values (x_graph x) (x_channels x)"
  proof -
    have lv: "live_values g m \<longleftrightarrow> \<not> (\<exists>i ch. (ch = branchChannel i \<or> ch = triggerChannel i) \<and> (\<exists>c. GetChannel ch m = Some c \<and>
        \<not> (ch_Behavior c = BehaviorLastValue \<and> (ch_Available c \<longrightarrow> graph_triggers ch g = [i]))))" for g :: "('a, 'e) Graph" and m :: "'a Manager"
      unfolding live_values_def by blast
    have "(\<exists>c. GetChannel n k = Some c \<and> \<not> (ch_Behavior c = BehaviorLastValue \<and> (ch_Available c \<longrightarrow> Q))) \<longleftrightarrow>
        (\<exists>c. GetChannel n (x_channels x) = Some c \<and> \<not> (ch_Behavior c = BehaviorLastValue \<and> (ch_Available c \<longrightarrow> Q)))" for n Q
      using e [where P = "\<lambda>b a s q. \<not> (b = BehaviorLastValue \<and> (a \<longrightarrow> Q))" for Q] .
    then show ?thesis by (simp only: lv)
  qed
  have 3: "live_edges E k = live_edges E (x_channels x)"
  proof -
    have "GetChannel n k = None \<longleftrightarrow> GetChannel n (x_channels x) = None" for n using get [of n] by auto
    then show ?thesis by (simp add: live_edges_def)
  qed
  show "live sha E J y = live sha E J x"
    using y 1 2 3 by (simp add: live_def k_def)
  have av: "channel_available n k = channel_available n (x_channels x)" for n
    using e [where P = "\<lambda>b a s q. a"] by (simp add: channel_available_eq)
  have bs: "(case GetChannel n k of None \<Rightarrow> {} | Some c \<Rightarrow> ch_BarrierSet c) =
      (case GetChannel n (x_channels x) of None \<Rightarrow> {} | Some c \<Rightarrow> ch_BarrierSet c)" for n
    using get [of n] by (cases "GetChannel n (x_channels x)") auto
  show "channel_available n (x_channels y) = channel_available n (x_channels x)" using av by (simp add: k_def)
  show "tokens_of sha J y = tokens_of sha J x"
    unfolding tokens_of_def k_def [symmetric] av bs by (rule refl)
qed

text \<open>What planning does to a context.\<close>

definition between :: "(string \<Rightarrow> string) \<Rightarrow> (string \<times> string) set \<Rightarrow> (string list \<times> string) set \<Rightarrow> ('a, 'e) Graph \<Rightarrow> ('a, 'e) ExecutionContext \<Rightarrow> bool" where
  "between sha E J g x \<longleftrightarrow> sound sha E J x \<and> (\<forall>t \<in> set (x_pendingTasks x). task_fits x t) \<and> \<not> x_resumed x \<and> x_nextNodes x = None \<and>
     g_entryPoint (x_graph x) = g_entryPoint g \<and> (\<forall>k. graph_has k (x_graph x) = graph_has k g)"

lemma between_frame:
  assumes "between sha E J g x" "frame x y" "live sha E J y" "\<forall>t \<in> set (x_pendingTasks y). task_fits y t"
  shows "between sha E J g y"
  using assms sound_frame [of sha E J x y] frameD(2) [of x y] by (simp add: between_def frame_def)

lemma plan_step:
  assumes b: "between sha E J g x" and h: "graph_has (g_entryPoint g) g" and p: "planStep step x = (y, Inr ts)"
  shows "between sha E J g y \<and> frame x y \<and> (\<forall>t \<in> set ts. task_fits y t) \<and>
    (x_pendingTasks x \<noteq> [] \<longrightarrow> ts = x_pendingTasks x \<and> tokens_of sha J y = tokens_of sha J x) \<and>
    (x_pendingTasks x = [] \<and> step = 0 \<longrightarrow>
       map tk_NodeID ts = filter (\<lambda>i. i \<noteq> End) [g_entryPoint g] \<and> tokens_of sha J y = tokens_of sha J x) \<and>
    (x_pendingTasks x = [] \<and> step \<noteq> 0 \<longrightarrow>
       map tk_NodeID ts = sorted_list_of_set {i \<in> tok_enabled J (tokens_of sha J x). i \<noteq> End \<and> graph_has i g} \<and>
       tokens_of sha J y = tok_consume J (tokens_of sha J x))"
proof -
  have s: "sound sha E J x" and pend: "\<forall>t \<in> set (x_pendingTasks x). task_fits x t" and nx: "x_nextNodes x = None" "\<not> x_resumed x"
    and en: "g_entryPoint (x_graph x) = g_entryPoint g" and has: "\<And>k. graph_has k (x_graph x) = graph_has k g"
    using b by (simp_all add: between_def)
  show ?thesis
  proof (cases "x_pendingTasks x = []")
    case False
    then have y: "y = x\<lparr>x_pendingTasks := []\<rparr>" "ts = x_pendingTasks x" using p by (simp_all add: planStep_def nx)
    have f: "frame x y" by (simp add: y frame_def graph_Node_of_def fun_eq_iff)
    have "between sha E J g y" by (rule between_frame [OF b f]) (use soundD(4) [OF s] in \<open>simp_all add: y\<close>)
    then show ?thesis using f y False pend task_fits_frame [OF f] by simp
  next
    case empty: True
    show ?thesis
    proof (cases "step = 0")
      case True
      obtain r where t: "createTask (g_entryPoint g) 0 x = (y, r)" and ts: "ts = (case r of None \<Rightarrow> [] | Some t \<Rightarrow> [t])"
        using p empty True by (auto simp: planStep_def nx en split: if_splits prod.splits option.splits)
      note c = createTask_frame [OF t]
      have l: "live sha E J y" and tk: "tokens_of sha J y = tokens_of sha J x"
        using same_tokens [OF c(2,3)] soundD(4) [OF s] by simp_all
      have "between sha E J g y" by (rule between_frame [OF b c(1) l]) (simp add: c(4) empty)
      moreover have "map tk_NodeID ts = filter (\<lambda>i. i \<noteq> End) [g_entryPoint g] \<and> (\<forall>t \<in> set ts. task_fits y t)"
        using c(5) c(6) h has task_fits_frame [OF c(1)] by (cases r) (auto simp: ts)
      ultimately show ?thesis using c(1) tk empty True by simp
    next
      case False
      have pl: "planBasedOnAvailabilityTriggers step x = (y, ts)"
        using p empty False by (simp add: planStep_def nx planBasedOnChannelTriggers_def split: prod.splits)
      note c = plan_channels [OF s pl]
      have "between sha E J g y" by (rule between_frame [OF b]) (use c soundD(4) empty in \<open>auto\<close>)
      then show ?thesis using c empty False has by simp
    qed
  qed
qed

text \<open>A superstep that runs to its end.\<close>

lemma bsp_step_cases:
  assumes "runBspStep ex ord 0 step (x, s) = ((x', s'), BspExecuted)" "\<not> x_resumed x"
  obtains y ts y' z where "planStep step x = (y, Inr ts)" "ts \<noteq> []" "maybeStaticInterruptBefore ts y = (y', None)"
    "executeStep (ex_oneShot ex) (ord ts) step y' = (z, None)" "createCheckpointAndSave ex False step (z, s) = (x', s')"
  using assms
  by (auto simp: runBspStep_def planTasksForBspStep_def split: prod.splits sum.splits if_splits option.splits)

lemma skips_tokens:
  assumes "maybeStaticInterruptBefore ts y = (y', r)"
  shows "frame y y'" "x_pendingTasks y' = x_pendingTasks y" "live sha E J y' = live sha E J y" "tokens_of sha J y' = tokens_of sha J y"
proof -
  have "x_graph y' = x_graph y \<and> x_channels y' = x_channels y \<and> x_pendingTasks y' = x_pendingTasks y \<and>
      x_resumed y' = x_resumed y \<and> x_nextNodes y' = x_nextNodes y"
    using assms by (auto simp: maybeStaticInterruptBefore_def Let_def split: if_splits)
  then show "frame y y'" "x_pendingTasks y' = x_pendingTasks y" "live sha E J y' = live sha E J y" "tokens_of sha J y' = tokens_of sha J y"
    using same_tokens(1) [of y' y sha E J] same_tokens(2) [of y' y sha J] by (simp_all add: frame_def graph_Node_of_def fun_eq_iff)
qed

lemma bsp_step_between:
  assumes b: "between sha E J g x" and h: "graph_has (g_entryPoint g) g" and ord: "\<And>ts. mset (ord ts) = mset ts"
    and p: "planStep step x = (y, Inr ts)" and m: "maybeStaticInterruptBefore ts y = (y', None)"
    and r: "runBspStep ex ord 0 step (x, s) = ((x', s'), BspExecuted)"
  shows "between sha E J g x' \<and>
    tokens_of sha J x' = fold (tok_task E J) (step_outcomes (ex_oneShot ex) (ord ts) step y') (tokens_of sha J y)"
proof -
  have "\<not> x_resumed x" using b by (simp add: between_def)
  from bsp_step_cases [OF r this] obtain z where z: "executeStep (ex_oneShot ex) (ord ts) step y' = (z, None)"
    and c: "createCheckpointAndSave ex False step (z, s) = (x', s')"
    by (metis p m Pair_inject sum.inject(2))
  note ps = plan_step [OF b h p]
  note sk = skips_tokens [OF m]
  have by': "between sha E J g y'"
    by (rule between_frame [of sha E J g y])
      (use ps sk task_fits_frame [OF sk(1)] in \<open>auto simp: between_def soundD(4)\<close>)
  have "set (ord ts) = set ts" using ord [of ts] by (metis set_mset_mset)
  then have fits: "\<forall>t \<in> set (ord ts). task_fits y' t" using ps task_fits_frame [OF sk(1)] by simp
  have "sound sha E J y'" using by' by (simp add: between_def)
  note ex = execute_step [OF this fits z]
  have "between sha E J g z"
    by (rule between_frame [OF by']) (use ex by' task_fits_frame [of y' z] in \<open>auto simp: between_def\<close>)
  then have "between sha E J g x'"
    by (rule between_frame)
      (use save_tokens [OF c] task_fits_frame [of z x'] \<open>between sha E J g z\<close> in \<open>auto simp: between_def soundD(4)\<close>)
  moreover have "tokens_of sha J x' = tokens_of sha J z" by (rule save_tokens(5) [OF c])
  ultimately show ?thesis using ex sk(4) by simp
qed

lemma fresh_run_between:
  assumes d: "good_digest sha (fst ` all_joins ops)" and c: "sg_Compile (build sha schema ops) = Inr g" and n: "\<not> graph_has Start g"
    and ord: "\<And>k ts. mset (order k ts) = mset ts" and r: "fresh_run ex order g entries initial s xs step"
  shows "between sha (all_edges ops) (all_joins ops) g (fst xs) \<and> step \<ge> 0 \<and>
    (step = 0 \<longrightarrow> tokens_of sha (all_joins ops) (fst xs) = tok_empty)"
  using r
proof induction
  case (run_start xs step)
  let ?st = "initializeState ex g initial"
  define x0 where "x0 = initializeChannels (entries ?st) True (buildExecutionContext g ?st False None)"
  have sx: "createCheckpointAndSave ex True (- 1) (x0, s) = xs" and st: "step = 0"
    using run_start by (simp_all add: startRun_def Let_def x0_def)
  obtain x s' where xs: "xs = (x, s')" by (cases xs)
  note sv = save_tokens [OF sx [unfolded xs]]
  note ss = start_sound [OF d c n x0_def]
  have "between sha (all_edges ops) (all_joins ops) g x0"
    using ss by (simp add: between_def x0_def buildExecutionContext_def)
  then have "between sha (all_edges ops) (all_joins ops) g x"
    by (rule between_frame [OF _ sv(1)]) (use ss sv soundD(4) in \<open>auto simp: x0_def buildExecutionContext_def\<close>)
  then show ?case using ss sv(5) st by (simp add: xs)
next
  case (run_step xs step xs')
  obtain x u x' u' where xs: "xs = (x, u)" "xs' = (x', u')" by (cases xs, cases xs')
  have b: "between sha (all_edges ops) (all_joins ops) g x" using run_step by (simp add: xs)
  then have "\<not> x_resumed x" by (simp add: between_def)
  from bsp_step_cases [OF run_step(2) [unfolded xs] this] obtain y ts y' where
    "planStep step x = (y, Inr ts)" "maybeStaticInterruptBefore ts y = (y', None)" by metis
  from bsp_step_between [OF b compiled_entry [OF c] ord this run_step(2) [unfolded xs]] run_step.IH
  show ?case by (simp add: xs)
qed

section \<open>The property of supersteps\<close>

text \<open>
  C7. Between the supersteps of a run of a compiled graph, the channels hold exactly the tokens of
  the abstract machine. Step 0 runs the entry point. Later a step runs the queued fan-out tasks if
  there are any, and otherwise, sorted and each once, the nodes that are due (the targets of the
  plain edges of the tasks that did not route, with the targets that conditions and commands chose)
  and the targets of the joins whose start nodes have all arrived; due nodes and complete joins are
  consumed, incomplete joins keep what has arrived. Whatever the order in which the workers run the
  tasks, the tokens after the step are those its tasks make, one after the other.
\<close>

theorem graph_superstep:
  assumes "good_digest sha (fst ` all_joins ops)" and "sg_Compile (build sha schema ops) = Inr g" and "\<not> graph_has Start g"
    and "\<And>k ts. mset (order k ts) = mset ts" and "fresh_run ex order g entries initial s (x, u) step"
    and "planStep step x = (y, Inr ts)"
  shows "(x_pendingTasks x \<noteq> [] \<longrightarrow> ts = x_pendingTasks x \<and> tokens_of sha (all_joins ops) y = tokens_of sha (all_joins ops) x) \<and>
    (x_pendingTasks x = [] \<and> step = 0 \<longrightarrow>
       map tk_NodeID ts = filter (\<lambda>i. i \<noteq> End) [g_entryPoint g] \<and> tokens_of sha (all_joins ops) y = tok_empty) \<and>
    (x_pendingTasks x = [] \<and> step \<noteq> 0 \<longrightarrow>
       map tk_NodeID ts =
         sorted_list_of_set {i \<in> tok_enabled (all_joins ops) (tokens_of sha (all_joins ops) x). i \<noteq> End \<and> graph_has i g} \<and>
       tokens_of sha (all_joins ops) y = tok_consume (all_joins ops) (tokens_of sha (all_joins ops) x)) \<and>
    (\<forall>y' x' u'. maybeStaticInterruptBefore ts y = (y', None) \<and>
       runBspStep ex (order step) 0 step (x, u) = ((x', u'), BspExecuted) \<longrightarrow>
       tokens_of sha (all_joins ops) x' =
         fold (tok_task (all_edges ops) (all_joins ops)) (step_outcomes (ex_oneShot ex) (order step ts) step y')
           (tokens_of sha (all_joins ops) y))"
proof -
  have b: "between sha (all_edges ops) (all_joins ops) g x" and t0: "step = 0 \<Longrightarrow> tokens_of sha (all_joins ops) x = tok_empty"
    using fresh_run_between [OF assms(1-5)] by simp_all
  have h: "graph_has (g_entryPoint g) g" by (rule compiled_entry [OF assms(2)])
  note p = plan_step [OF b h assms(6)]
  have "tokens_of sha (all_joins ops) x' = fold (tok_task (all_edges ops) (all_joins ops))
         (step_outcomes (ex_oneShot ex) (order step ts) step y') (tokens_of sha (all_joins ops) y)"
    if "maybeStaticInterruptBefore ts y = (y', None) \<and> runBspStep ex (order step) 0 step (x, u) = ((x', u'), BspExecuted)" for y' x' u'
    by (rule conjunct2 [OF bsp_step_between [where ord = "order step", OF b h assms(4) assms(6) conjunct1 [OF that] conjunct2 [OF that]]])
  then show ?thesis using p t0 by simp
qed

text \<open>The diamond: after a, and then b and c, node d is due.\<close>

definition diamond_executor :: "(unit, unit, unit) Executor" where
  "diamond_executor =
     \<lparr>ex_maxSteps = 10, ex_maxConcurrency = 2, ex_oneShot = (\<lambda>_ u. u), ex_Zero = (\<lambda>_. AnyNil), ex_IsInterrupt = (\<lambda>_. False), ex_PutFull = None\<rparr>"

fun diamond_run :: "nat \<Rightarrow> ((unit, unit) ExecutionContext \<times> unit) \<times> unit bsp_result" where
  "diamond_run 0 = (fst (startRun diamond_executor diamond (\<lambda>_. []) Map.empty ()), BspExecuted)"
| "diamond_run (Suc n) = runBspStep diamond_executor (\<lambda>ts. ts) 0 (int n) (fst (diamond_run n))"

lemma diamond_fresh:
  "fresh_run diamond_executor (\<lambda>_ ts. ts) diamond (\<lambda>_. []) Map.empty () (fst (fst (diamond_run 2)), snd (fst (diamond_run 2))) 2"
proof -
  have 1: "snd (diamond_run 1) = BspExecuted" and 2: "snd (diamond_run 2) = BspExecuted" by code_simp+
  have "fresh_run diamond_executor (\<lambda>_ ts. ts) diamond (\<lambda>_. []) Map.empty () (fst (diamond_run 0)) 0"
    by (rule run_start) (simp add: startRun_def Let_def)
  from run_step [OF this, of "fst (diamond_run 1)"] 1
  have "fresh_run diamond_executor (\<lambda>_ ts. ts) diamond (\<lambda>_. []) Map.empty () (fst (diamond_run 1)) 1"
    by (simp add: prod_eq_iff)
  from run_step [OF this, of "fst (diamond_run 2)"] 2 show ?thesis
    unfolding prod.collapse by (simp add: prod_eq_iff numeral_2_eq_2)
qed

theorem graph_superstep_witness:
  "\<exists>y ts. planStep 2 (fst (fst (diamond_run 2))) = (y, Inr ts) \<and> map tk_NodeID ts = [''d''] \<and>
     sorted_list_of_set {i \<in> tok_enabled (all_joins diamond_ops) (tokens_of pad_digest (all_joins diamond_ops) (fst (fst (diamond_run 2)))).
       i \<noteq> End \<and> graph_has i diamond} = [''d'']"
proof -
  let ?x = "fst (fst (diamond_run 2))"
  have "case planStep 2 ?x of (_, Inl _) \<Rightarrow> False | (_, Inr ts) \<Rightarrow> map tk_NodeID ts = [''d'']" by code_simp
  then obtain y ts where p: "planStep 2 ?x = (y, Inr ts)" and d: "map tk_NodeID ts = [''d'']"
    by (auto split: prod.splits sum.splits)
  have "\<not> graph_has Start diamond" unfolding diamond_def by code_simp
  note P = graph_superstep [OF diamond_digest diamond_compiles this _ diamond_fresh p]
  have "x_pendingTasks ?x = []" by code_simp
  then show ?thesis using P [THEN conjunct2, THEN conjunct2, THEN conjunct1] p d by simp
qed

end
