(* ===== verification/GraphDagInv.thy ===== *)
theory GraphDagInv
  imports GraphDag GraphSuperstep
begin

text \<open>
  The invariants of the DAG engine: at most one task of a node in flight, the semaphore counts the
  goroutines that hold a slot, the step budget; and the liveness of a run: the loop never waits with
  nothing in flight, and it always comes to an end.
\<close>

section \<open>Tasks in flight\<close>

fun w_task :: "('a, 'e) worker \<Rightarrow> 'a GraphTask" where
  "w_task (WRun t step) = t" | "w_task (WRelease t step e) = t" | "w_task (WSend t step e) = t"

fun w_holds :: "('a, 'e) worker \<Rightarrow> bool" where
  "w_holds (WRun t step) = True" | "w_holds (WRelease t step e) = True" | "w_holds (WSend t step e) = False"

fun w_ran :: "('a, 'e) worker \<Rightarrow> bool" where
  "w_ran (WRun t step) = False" | "w_ran (WRelease t step e) = True" | "w_ran (WSend t step e) = True"

definition flying :: "('a, 'e, 's) dagLoop \<Rightarrow> string list" where
  "flying d = map (\<lambda>w. tk_NodeID (w_task w)) (d_workers d) @ map (\<lambda>r. tk_NodeID (fst r)) (d_done d)"

abbreviation in_flight :: "('a, 'e, 's) dagLoop \<Rightarrow> string set" where
  "in_flight d \<equiv> dom (map_of (d_inFlight d))"

declare update_conv' [simp] delete_conv' [simp]

definition one_per_node :: "('a, 'e, 's) dagLoop \<Rightarrow> bool" where
  "one_per_node d \<longleftrightarrow> distinct (flying d) \<and> set (flying d) = in_flight d \<and> [] \<notin> in_flight d"

definition slots :: "('a, 'e, 's) Executor \<Rightarrow> ('a, 'e, 's) dagLoop \<Rightarrow> bool" where
  "slots ex d \<longleftrightarrow> d_sem d = length (filter w_holds (d_workers d)) \<and> d_sem d \<le> ex_maxConcurrency ex"

definition budget :: "('a, 'e, 's) Executor \<Rightarrow> int \<Rightarrow> ('a, 'e, 's) dagLoop \<Rightarrow> bool" where
  "budget ex s0 d \<longleftrightarrow> int (d_executed d + length (flying d)) \<le> d_nextStep d - s0 \<and> d_nextStep d \<le> max s0 (ex_maxSteps ex)"

definition waits :: "('a, 'e, 's) dagLoop \<Rightarrow> bool" where
  "waits d \<longleftrightarrow> (\<forall>i ts. map_of (d_waiting d) i = Some ts \<longrightarrow> ts \<noteq> [] \<longrightarrow> i \<in> in_flight d)"

definition safe :: "('a, 'e, 's) Executor \<Rightarrow> int \<Rightarrow> ('a, 'e, 's) dagLoop \<Rightarrow> bool" where
  "safe ex s0 d \<longleftrightarrow> one_per_node d \<and> slots ex d \<and> budget ex s0 d \<and> waits d"

text \<open>The fields these read.\<close>

definition core where
  "core d = (d_executed d, d_nextStep d, d_ready d, d_inFlight d, d_waiting d, d_sem d, d_done d, d_workers d, d_pc d)"

lemma core_eq:
  "core d' = core d \<longleftrightarrow> d_executed d' = d_executed d \<and> d_nextStep d' = d_nextStep d \<and> d_ready d' = d_ready d \<and>
     d_inFlight d' = d_inFlight d \<and> d_waiting d' = d_waiting d \<and> d_sem d' = d_sem d \<and> d_done d' = d_done d \<and>
     d_workers d' = d_workers d \<and> d_pc d' = d_pc d"
  by (auto simp: core_def)

definition plannable :: "('a, 'e) ExecutionContext \<Rightarrow> bool" where
  "plannable x \<longleftrightarrow> x_pendingTasks x \<noteq> [] \<or> (\<exists>ch. channel_available ch (x_channels x) \<and> graph_triggers ch (x_graph x) \<noteq> [])"

text \<open>A step that at most starts to drain.\<close>

definition calm :: "('a, 'e, 's) dagLoop \<Rightarrow> ('a, 'e, 's) dagLoop \<Rightarrow> bool" where
  "calm d d' \<longleftrightarrow> core d' = core d \<and> (d_draining d \<longrightarrow> d_draining d') \<and> plannable (d_x d') = plannable (d_x d)"

lemma calm_refl [simp]: "calm d d" by (simp add: calm_def)

lemma calm_trans: "calm a b \<Longrightarrow> calm b c \<Longrightarrow> calm a c" by (simp add: calm_def)

lemma calmD:
  assumes "calm d d'"
  shows "d_executed d' = d_executed d" "d_nextStep d' = d_nextStep d" "d_ready d' = d_ready d" "d_inFlight d' = d_inFlight d"
    "d_waiting d' = d_waiting d" "d_sem d' = d_sem d" "d_done d' = d_done d" "d_workers d' = d_workers d" "d_pc d' = d_pc d"
    "flying d' = flying d" "no_flight d' = no_flight d" "in_flight d' = in_flight d" "d_draining d \<Longrightarrow> d_draining d'" "plannable (d_x d') = plannable (d_x d)"
  using assms by (simp_all add: calm_def core_eq flying_def no_flight_def)

lemma calm_draining:
  "calm d (startDraining e d)" "d_draining (startDraining e d)"
  "calm d (startDrainingMaxStep d)" "d_draining (startDrainingMaxStep d)"
  "calm d (startDrainingInterrupt intr step d)" "d_draining (startDrainingInterrupt intr step d)"
  by (simp_all add: calm_def core_def startDraining_def startDrainingMaxStep_def startDrainingInterrupt_def)

lemma calm_context: "plannable x = plannable (d_x d) \<Longrightarrow> calm d (d\<lparr>d_x := x\<rparr>)"
  by (simp add: calm_def core_def)

lemma skips_plannable: "maybeStaticInterruptBefore ts x = (y, r) \<Longrightarrow> plannable y = plannable x"
  by (auto simp: maybeStaticInterruptBefore_def Let_def plannable_def split: if_splits)

lemma calm_before:
  assumes "maybeStartStaticInterruptBefore t d = (d', r)"
  shows "calm d d'" "r \<Longrightarrow> d_draining d'"
proof -
  obtain x q where x: "maybeStaticInterruptBefore [t] (d_x d) = (x, q)" by fastforce
  have c: "calm d (d\<lparr>d_x := x\<rparr>)" using calm_context skips_plannable [OF x] by blast
  show "calm d d'" "r \<Longrightarrow> d_draining d'"
    using assms c calm_trans [OF c calm_draining(5)] calm_draining(6)
    by (auto simp: maybeStartStaticInterruptBefore_def x split: if_splits option.splits)
qed

lemma calm_after:
  assumes "maybeStartStaticInterruptAfter t step d = (d', r)"
  shows "calm d d'" "r \<Longrightarrow> d_draining d'"
  using assms calm_draining(5,6) by (auto simp: maybeStartStaticInterruptAfter_def split: if_splits option.splits)

text \<open>What starting the first ready task does.\<close>

lemma startTask_cases:
  assumes "startTask ex t d = (d', r)"
  obtains (dropped) "r" "d' = d" "tk_NodeID t = []"
    | (waiting) "r" "d' = d\<lparr>d_waiting := add_waiting t (d_waiting d)\<rparr>" "tk_NodeID t \<in> in_flight d"
    | (refused) "\<not> r" "calm d d'" "d_draining d' \<or> d_sem d \<ge> ex_maxConcurrency ex"
    | (started) d1 u where "r" "calm d d1" "tk_NodeID t \<noteq> []" "tk_NodeID t \<notin> in_flight d"
      "d_sem d < ex_maxConcurrency ex" "d_nextStep d < ex_maxSteps ex" "tk_NodeID u = tk_NodeID t"
      "d' = d1\<lparr>d_sem := d_sem d + 1, d_nextStep := d_nextStep d + 1, d_inFlight := AList.update (tk_NodeID t) u (d_inFlight d),
               d_workers := d_workers d @ [WRun u (d_nextStep d)]\<rparr>"
proof -
  consider "tk_NodeID t = []" | "tk_NodeID t \<noteq> []" "tk_NodeID t \<in> in_flight d"
    | "tk_NodeID t \<noteq> []" "tk_NodeID t \<notin> in_flight d" by blast
  then show ?thesis
  proof cases
    case 1
    then show ?thesis using assms dropped by (simp add: startTask_def)
  next
    case 2
    then show ?thesis using assms waiting by (auto simp: startTask_def)
  next
    case 3
    obtain d1 b where b: "maybeStartStaticInterruptBefore t d = (d1, b)" by fastforce
    note c = calm_before [OF b]
    have st: "startTask ex t d =
        (if b then (d1, False) else if d_sem d \<ge> ex_maxConcurrency ex then (d1, False)
         else if d_nextStep d \<ge> ex_maxSteps ex then (startDrainingMaxStep d1, False)
         else let u = t\<lparr>tk_TaskID := tk_NodeID t @ ''-'' @ FormatInt (d_nextStep d)\<rparr>
              in (d1\<lparr>d_sem := d_sem d + 1, d_nextStep := d_nextStep d + 1, d_inFlight := AList.update (tk_NodeID t) u (d_inFlight d),
                     d_workers := d_workers d @ [WRun u (d_nextStep d)]\<rparr>, True))"
      using 3 calmD [OF c(1)] by (simp add: startTask_def b domIff Let_def split: bool.splits)
    show ?thesis
    proof (cases "b \<or> d_sem d \<ge> ex_maxConcurrency ex \<or> d_nextStep d \<ge> ex_maxSteps ex")
      case True
      then show ?thesis
        using assms c calm_trans [OF c(1) calm_draining(3)] calm_draining(4) by (intro refused) (auto simp: st split: if_splits)
    next
      case False
      let ?u = "t\<lparr>tk_TaskID := tk_NodeID t @ ''-'' @ FormatInt (d_nextStep d)\<rparr>"
      show ?thesis by (rule started [of d1 ?u]) (use False assms c 3 in \<open>auto simp: st Let_def split: if_splits\<close>)
    qed
  qed
qed

lemma dag_start_cases:
  obtains (stop) "d_draining d \<or> d_ready d = []" "dag_start ex d = d\<lparr>d_pc := DPlan\<rparr>"
    | (next_task) t ts d' r where "\<not> d_draining d" "d_ready d = t # ts" "startTask ex t d = (d', r)"
      "dag_start ex d = (if r then d'\<lparr>d_ready := ts\<rparr> else d'\<lparr>d_pc := DPlan\<rparr>)"
proof (cases "d_draining d \<or> d_ready d = []")
  case True
  then show ?thesis by (intro stop) (auto simp: dag_start_def)
next
  case False
  then obtain t ts where t: "d_ready d = t # ts" by (cases "d_ready d") auto
  obtain d' r where "startTask ex t d = (d', r)" by fastforce
  then show ?thesis using False t by (intro next_task) (auto simp: dag_start_def consumeReadyHead_def split: bool.splits)
qed

section \<open>Planning\<close>

lemma createDagTasks_frame:
  "createDagTasks is x = (y, ts) \<Longrightarrow> x_graph y = x_graph x \<and> x_channels y = x_channels x \<and> x_pendingTasks y = x_pendingTasks x \<and>
   (is = [] \<longrightarrow> ts = [])"
proof (induction "is" arbitrary: x ts)
  case (Cons i "is")
  obtain z r where z: "createDagTask i x = (z, r)" by fastforce
  have "x_graph z = x_graph x \<and> x_channels z = x_channels x \<and> x_pendingTasks z = x_pendingTasks x"
    using z by (auto simp: createDagTask_def consumeGraphInterruptInput_def split: if_splits option.splits list.splits prod.splits)
  then show ?case using Cons z by (cases r) (auto split: prod.splits)
qed simp

lemma consumed_channel [simp]:
  "fst (ch_ConsumeIfAvailable (fst (ch_ConsumeIfAvailable c))) = fst (ch_ConsumeIfAvailable c)"
  "\<not> ch_Available (fst (ch_ConsumeIfAvailable c))" "snd (ch_ConsumeIfAvailable c) = ch_Available c"
  by (simp_all add: ConsumeIfAvailable_eq)

lemma consumeChannels_Cons:
  "consumeChannels (ch # chs) m =
     (if GetChannel ch m = None then consumeChannels chs m
      else let r = consumeChannels chs (on_channel ch (\<lambda>c. fst (ch_ConsumeIfAvailable c)) m)
           in (fst r, if channel_available ch m then ch # snd r else snd r))"
  by (auto simp: channel_available_eq Let_def split: option.splits prod.splits)

declare consumeChannels.simps(2) [simp del]

lemma consumeChannels_get:
  "GetChannel n (fst (consumeChannels chs m)) =
     (if n \<in> set chs then map_option (\<lambda>c. fst (ch_ConsumeIfAvailable c)) (GetChannel n m) else GetChannel n m)"
proof (induction chs arbitrary: m)
  case (Cons ch chs)
  show ?case by (cases "GetChannel ch m") (auto simp: consumeChannels_Cons Let_def Cons.IH option.map_comp o_def)
qed simp

lemma consumeChannels_set: "set (snd (consumeChannels chs m)) = {ch \<in> set chs. channel_available ch m}"
proof (induction chs arbitrary: m)
  case (Cons ch chs)
  show ?case
  proof (cases "GetChannel ch m")
    case None
    then show ?thesis by (auto simp: consumeChannels_Cons Cons.IH channel_available_eq)
  next
    case (Some c)
    have "channel_available n (on_channel ch (\<lambda>c. fst (ch_ConsumeIfAvailable c)) m) \<longleftrightarrow> n \<noteq> ch \<and> channel_available n m" for n
      by (auto simp: channel_available_eq)
    then show ?thesis by (auto simp: consumeChannels_Cons Let_def Cons.IH Some)
  qed
qed simp

lemma planDagTasks_plannable:
  assumes "planDagTasks x = (y, ts)"
  shows "\<not> plannable y" "\<not> plannable x \<Longrightarrow> ts = []"
proof -
  obtain m taken where m: "consumeChannels (map fst (g_triggerToNodes (x_graph x))) (x_channels x) = (m, taken)" by fastforce
  let ?nodes = "concat (map (\<lambda>ch. graph_triggers ch (x_graph x)) taken)"
  obtain us where us: "createDagTasks (sort (remdups ?nodes)) (x\<lparr>x_pendingTasks := [], x_channels := m\<rparr>) = (y, us)" "ts = x_pendingTasks x @ us"
    using assms by (auto simp: planDagTasks_def Let_def m split: prod.splits)
  note c = createDagTasks_frame [OF us(1)]
  have dom: "graph_triggers ch (x_graph x) \<noteq> [] \<Longrightarrow> ch \<in> set (map fst (g_triggerToNodes (x_graph x)))" for ch
    by (auto simp: graph_triggers_def split: option.splits dest!: map_of_SomeD intro: rev_image_eqI)
  have get: "GetChannel n m = (if n \<in> set (map fst (g_triggerToNodes (x_graph x)))
      then map_option (\<lambda>c. fst (ch_ConsumeIfAvailable c)) (GetChannel n (x_channels x)) else GetChannel n (x_channels x))" for n
    using consumeChannels_get [of n "map fst (g_triggerToNodes (x_graph x))" "x_channels x"] by (simp add: m)
  have "\<not> channel_available ch m" if "graph_triggers ch (x_graph x) \<noteq> []" for ch
    using dom [OF that] by (auto simp: channel_available_eq get ConsumeIfAvailable_eq split: if_splits)
  then show "\<not> plannable y" using c by (auto simp: plannable_def)
  assume np: "\<not> plannable x"
  have "graph_triggers ch (x_graph x) = []" if "ch \<in> set taken" for ch
    using consumeChannels_set [of "map fst (g_triggerToNodes (x_graph x))" "x_channels x"] that np by (auto simp: m plannable_def)
  then have n: "?nodes = []" by auto
  have "us = []" using c unfolding n by simp
  then show "ts = []" using us(2) np by (simp add: plannable_def)
qed

lemma queuePlanned:
  obtains x ts where "queuePlannedTasks d = d\<lparr>d_x := x, d_ready := d_ready d @ ts\<rparr>" "\<not> plannable x" "\<not> plannable (d_x d) \<Longrightarrow> ts = []"
proof -
  obtain x ts where p: "planDagTasks (d_x d) = (x, ts)" by fastforce
  show ?thesis
    by (rule that [of ts x]) (use p planDagTasks_plannable [OF p] in \<open>simp_all add: queuePlannedTasks_def d_queue_def\<close>)
qed

section \<open>Safety\<close>

lemma safe_core: "core d' = core d \<Longrightarrow> safe ex s0 d' = safe ex s0 d"
  by (simp add: safe_def one_per_node_def slots_def budget_def waits_def flying_def core_eq)

lemma safe_cong:
  assumes "safe ex s0 d" "d_executed d' = d_executed d" "d_nextStep d' = d_nextStep d" "d_inFlight d' = d_inFlight d"
    "d_waiting d' = d_waiting d" "d_sem d' = d_sem d" "d_done d' = d_done d" "d_workers d' = d_workers d"
  shows "safe ex s0 d'"
proof -
  have "flying d' = flying d" using assms(7,8) by (simp add: flying_def)
  then show ?thesis using assms by (simp add: safe_def one_per_node_def slots_def budget_def waits_def)
qed

lemma safe_start:
  assumes s: "safe ex s0 d"
  shows "safe ex s0 (dag_start ex d)"
proof (cases rule: dag_start_cases [of d ex])
  case stop
  then show ?thesis using safe_cong [OF s] by simp
next
  case (next_task t ts d' r)
  have "safe ex s0 d'"
    using next_task(3)
  proof (cases rule: startTask_cases)
    case dropped
    then show ?thesis using s by simp
  next
    case waiting
    have "waits (d\<lparr>d_waiting := add_waiting t (d_waiting d)\<rparr>)"
      using s waiting(3) by (auto simp: safe_def waits_def add_waiting_def update_conv')
    moreover have "flying d' = flying d" by (simp add: waiting(2) flying_def)
    ultimately show ?thesis
      using s by (simp add: waiting(2) safe_def one_per_node_def slots_def budget_def)
  next
    case refused
    then show ?thesis using s safe_core [of d' d ex s0] by (simp add: calm_def)
  next
    case (started d1 u)
    note c = calmD [OF started(2)]
    have f: "flying d' = map (\<lambda>w. tk_NodeID (w_task w)) (d_workers d) @ tk_NodeID t # map (\<lambda>r. tk_NodeID (fst r)) (d_done d)"
      using started c by (simp add: flying_def)
    have "mset (flying d') = mset (tk_NodeID t # flying d)" unfolding f by (simp add: flying_def)
    then have "distinct (flying d') \<longleftrightarrow> distinct (tk_NodeID t # flying d)" "set (flying d') = set (tk_NodeID t # flying d)"
      by (rule mset_eq_imp_distinct_iff, metis \<open>mset (flying d') = _\<close> set_mset_mset)
    moreover have "in_flight d' = insert (tk_NodeID t) (in_flight d)" by (simp add: started(8))
    ultimately have "one_per_node d'"
      using s started(3,4) by (simp add: safe_def one_per_node_def)
    moreover have "slots ex d'" using s started(5) by (simp add: safe_def slots_def started(8))
    moreover have "budget ex s0 d'"
      using s started(6) c by (simp add: safe_def budget_def f started(8) flying_def)
    moreover have "waits d'" using s c by (auto simp: safe_def waits_def started(8))
    ultimately show ?thesis by (simp add: safe_def)
  qed
  then show ?thesis unfolding next_task(4) by (cases r) (auto intro: safe_cong)
qed

lemma handleTaskResult_cases:
  assumes "tk_NodeID t \<noteq> []"
  obtains d1 where "d1 = d\<lparr>d_inFlight := AList.delete (tk_NodeID t) (d_inFlight d),
        d_ready := d_ready d @ (case map_of (d_waiting d) (tk_NodeID t) of None \<Rightarrow> [] | Some ts \<Rightarrow> ts),
        d_waiting := AList.delete (tk_NodeID t) (d_waiting d)\<rparr>"
    "(\<exists>d2 rr. err \<noteq> None \<and> calm d1 d2 \<and> d_draining d2 \<and> handleTaskResult ex (t, step, err) d = d2\<lparr>d_rerunNodes := rr\<rparr>) \<or>
     (\<exists>d2. err = None \<and> calm (d1\<lparr>d_executed := d_executed d + 1\<rparr>) d2 \<and>
        (handleTaskResult ex (t, step, err) d = d2 \<and> d_draining d2 \<or>
         handleTaskResult ex (t, step, err) d = queuePlannedTasks d2 \<and> \<not> d_draining d2))"
proof -
  define d1 where "d1 = d\<lparr>d_inFlight := AList.delete (tk_NodeID t) (d_inFlight d),
        d_ready := d_ready d @ (case map_of (d_waiting d) (tk_NodeID t) of None \<Rightarrow> [] | Some ts \<Rightarrow> ts),
        d_waiting := AList.delete (tk_NodeID t) (d_waiting d)\<rparr>"
  show ?thesis
  proof (rule that [of d1])
    show "d1 = d\<lparr>d_inFlight := AList.delete (tk_NodeID t) (d_inFlight d),
        d_ready := d_ready d @ (case map_of (d_waiting d) (tk_NodeID t) of None \<Rightarrow> [] | Some ts \<Rightarrow> ts),
        d_waiting := AList.delete (tk_NodeID t) (d_waiting d)\<rparr>" by (rule d1_def)
    show "(\<exists>d2 rr. err \<noteq> None \<and> calm d1 d2 \<and> d_draining d2 \<and> handleTaskResult ex (t, step, err) d = d2\<lparr>d_rerunNodes := rr\<rparr>) \<or>
     (\<exists>d2. err = None \<and> calm (d1\<lparr>d_executed := d_executed d + 1\<rparr>) d2 \<and>
        (handleTaskResult ex (t, step, err) d = d2 \<and> d_draining d2 \<or>
         handleTaskResult ex (t, step, err) d = queuePlannedTasks d2 \<and> \<not> d_draining d2))"
    proof (cases err)
      case None
      obtain d2 r where r: "maybeStartStaticInterruptAfter t step (d1\<lparr>d_executed := d_executed d + 1\<rparr>) = (d2, r)" by fastforce
      have "d_executed d1 = d_executed d" by (simp add: d1_def)
      then have h: "handleTaskResult ex (t, step, err) d = (if r \<or> d_draining d2 then d2 else queuePlannedTasks d2)"
        using r assms by (simp add: handleTaskResult_def Let_def None d1_def split: bool.splits)
      then show ?thesis using calm_after [OF r] None by auto
    next
      case (Some e)
      have h: "handleTaskResult ex (t, step, err) d = handleTaskError ex t step e d1"
        using assms by (simp add: handleTaskResult_def Let_def Some d1_def)
      show ?thesis
      proof (cases "d_draining d1")
        case True
        then have "handleTaskResult ex (t, step, err) d = d1\<lparr>d_rerunNodes := d_rerunNodes (recordRerunNode t d1)\<rparr>"
          by (simp add: h handleTaskError_def recordRerunNode_def)
        then show ?thesis using True Some
          by (intro disjI1 exI [of _ d1] exI [of _ "d_rerunNodes (recordRerunNode t d1)"]) simp
      next
        case False
        define d2 where "d2 = handleTaskError ex t step e d1"
        have "calm d1 d2 \<and> d_draining d2"
          using False by (simp add: d2_def handleTaskError_def calm_draining split: option.splits)
        moreover have "d2 = d2\<lparr>d_rerunNodes := d_rerunNodes d2\<rparr>" by simp
        ultimately show ?thesis using h Some unfolding d2_def by (metis option.distinct(1))
      qed
    qed
  qed
qed

lemma safe_result:
  assumes s: "safe ex s0 d" and r: "d_done d = res # rest"
  shows "safe ex s0 (handleTaskResult ex res (d\<lparr>d_done := rest\<rparr>))"
proof -
  obtain t step err where res: "res = (t, step, err)" by (cases res)
  let ?i = "tk_NodeID t"
  have one: "one_per_node d" and sl: "slots ex d" and bu: "budget ex s0 d" and wa: "waits d" using s by (simp_all add: safe_def)
  have f: "flying d = map (\<lambda>w. tk_NodeID (w_task w)) (d_workers d) @ ?i # map (\<lambda>r. tk_NodeID (fst r)) rest"
    by (simp add: flying_def r res)
  have i: "?i \<noteq> []" using one by (auto simp: one_per_node_def f)
  obtain d1 where d1: "d1 = d\<lparr>d_done := rest, d_inFlight := AList.delete ?i (d_inFlight d),
        d_ready := d_ready d @ (case map_of (d_waiting d) ?i of None \<Rightarrow> [] | Some ts \<Rightarrow> ts),
        d_waiting := AList.delete ?i (d_waiting d)\<rparr>"
    and cs: "(\<exists>d2 rr. err \<noteq> None \<and> calm d1 d2 \<and> d_draining d2 \<and> handleTaskResult ex (t, step, err) (d\<lparr>d_done := rest\<rparr>) = d2\<lparr>d_rerunNodes := rr\<rparr>) \<or>
     (\<exists>d2. err = None \<and> calm (d1\<lparr>d_executed := d_executed d + 1\<rparr>) d2 \<and>
        (handleTaskResult ex (t, step, err) (d\<lparr>d_done := rest\<rparr>) = d2 \<and> d_draining d2 \<or>
         handleTaskResult ex (t, step, err) (d\<lparr>d_done := rest\<rparr>) = queuePlannedTasks d2 \<and> \<not> d_draining d2))"
    by (rule handleTaskResult_cases [OF i, of "d\<lparr>d_done := rest\<rparr>" err ex step]) auto
  have f1: "flying d1 = map (\<lambda>w. tk_NodeID (w_task w)) (d_workers d) @ map (\<lambda>r. tk_NodeID (fst r)) rest"
    by (simp add: flying_def d1)
  have "in_flight d1 = in_flight d - {?i}" by (auto simp: d1)
  then have "one_per_node d1" using one unfolding one_per_node_def f f1 by auto
  moreover have "slots ex d1" using sl by (simp add: slots_def d1)
  moreover have "waits d1" using wa by (auto simp: waits_def d1 delete_conv')
  moreover have "int (d_executed d + 1 + length (flying d1)) \<le> d_nextStep d1 - s0 \<and> d_nextStep d1 \<le> max s0 (ex_maxSteps ex)"
    using bu unfolding f1 budget_def f by (simp add: d1)
  moreover have "flying (d1\<lparr>d_executed := n\<rparr>) = flying d1" for n by (simp add: flying_def)
  ultimately have s1: "safe ex s0 (d1\<lparr>d_executed := n\<rparr>)" if "n \<le> d_executed d + 1" for n
    using that by (simp add: safe_def one_per_node_def slots_def budget_def waits_def)
  from cs show ?thesis unfolding res
  proof (elim disjE exE conjE)
    fix d2 rr assume c: "calm d1 d2" and h: "handleTaskResult ex (t, step, err) (d\<lparr>d_done := rest\<rparr>) = d2\<lparr>d_rerunNodes := rr\<rparr>"
    have "d1\<lparr>d_executed := d_executed d\<rparr> = d1" by (simp add: d1)
    then have "safe ex s0 d1" using s1 [of "d_executed d"] by simp
    then have "safe ex s0 d2" using safe_core [of d2 d1] c by (simp add: calm_def)
    then show "safe ex s0 (handleTaskResult ex (t, step, err) (d\<lparr>d_done := rest\<rparr>))" unfolding h by (rule safe_cong) simp_all
  next
    fix d2 assume c: "calm (d1\<lparr>d_executed := d_executed d + 1\<rparr>) d2" and h: "handleTaskResult ex (t, step, err) (d\<lparr>d_done := rest\<rparr>) = d2"
    show "safe ex s0 (handleTaskResult ex (t, step, err) (d\<lparr>d_done := rest\<rparr>))"
      using s1 [of "d_executed d + 1"] safe_core [of d2 "d1\<lparr>d_executed := d_executed d + 1\<rparr>"] c unfolding h by (simp add: calm_def)
  next
    fix d2 assume c: "calm (d1\<lparr>d_executed := d_executed d + 1\<rparr>) d2"
      and h: "handleTaskResult ex (t, step, err) (d\<lparr>d_done := rest\<rparr>) = queuePlannedTasks d2"
    have s2: "safe ex s0 d2"
      using s1 [of "d_executed d + 1"] safe_core [of d2 "d1\<lparr>d_executed := d_executed d + 1\<rparr>"] c by (simp add: calm_def)
    show "safe ex s0 (handleTaskResult ex (t, step, err) (d\<lparr>d_done := rest\<rparr>))"
      unfolding h by (rule queuePlanned [of d2]) (auto intro: safe_cong [OF s2])
  qed
qed

lemma safe_step: "dag_step ex b d d' \<Longrightarrow> safe ex s0 d \<Longrightarrow> safe ex s0 d'"
proof (induction rule: dag_step.induct)
  case (loop_start d b)
  then show ?case using safe_start by blast
next
  case (loop_plan d b)
  have "safe ex s0 (planIfIdle d)"
    by (rule queuePlanned [of d]) (use loop_plan(2) in \<open>auto simp: planIfIdle_def intro: safe_cong\<close>)
  then show ?case by (rule safe_cong) simp_all
next
  case (loop_final d b)
  show ?case
    by (rule safe_cong [OF loop_final(2)])
      (auto simp: tryFinalize_def finalizeInterrupt_def maybeCreateFinalCheckpoint_def Let_def split: option.splits prod.splits)
next
  case (loop_result d res rest b)
  then show ?case using safe_result [OF loop_result(3,2)] by (auto intro: safe_cong)
next
  case (loop_context d)
  have "safe ex s0 (startDraining DrainContext d)"
    using loop_context safe_core calm_draining(1) by (metis calm_def)
  then show ?case unfolding handleContextDone_def by (rule safe_cong) simp_all
next
  case (work_run d ws t step ws' x err b)
  let ?d = "d\<lparr>d_x := x, d_workers := ws @ WRelease t step err # ws'\<rparr>"
  have "flying ?d = flying d" using work_run(2) by (simp add: flying_def)
  then show ?case using work_run by (simp add: safe_def one_per_node_def slots_def budget_def waits_def)
next
  case (work_crash d ws t step ws' x b)
  show ?case by (rule safe_cong [OF work_crash(4)]) simp_all
next
  case (work_release d ws t step err ws' b)
  let ?d = "d\<lparr>d_sem := d_sem d - 1, d_workers := ws @ WSend t step err # ws'\<rparr>"
  have "flying ?d = flying d" using work_release(2) by (simp add: flying_def)
  then show ?case using work_release by (simp add: safe_def one_per_node_def slots_def budget_def waits_def)
next
  case (work_send d ws t step err ws' b)
  let ?d = "d\<lparr>d_done := d_done d @ [(t, step, err)], d_workers := ws @ ws'\<rparr>"
  have "mset (flying ?d) = mset (flying d)" using work_send(2) by (simp add: flying_def)
  then have "distinct (flying ?d) = distinct (flying d)" "set (flying ?d) = set (flying d)" "length (flying ?d) = length (flying d)"
    by (metis mset_eq_imp_distinct_iff, metis set_mset_mset, metis size_mset)
  then show ?case using work_send by (simp add: safe_def one_per_node_def slots_def budget_def waits_def)
qed

lemma newDagLoop_safe: "newDagLoop xs s0 = Inr d \<Longrightarrow> safe ex s0 d \<and> d_pc d = DStart \<and> \<not> d_draining d"
  by (auto simp: newDagLoop_def dag_seed_def Let_def d_queue_def safe_def one_per_node_def slots_def budget_def waits_def flying_def
      split: if_splits option.splits list.splits prod.splits)

lemma dag_reach_safe: "dag_reach ex d0 d \<Longrightarrow> safe ex s0 d0 \<Longrightarrow> safe ex s0 d"
  by (induction rule: dag_reach.induct) (auto intro: safe_step)

section \<open>Liveness\<close>

definition running :: "('a, 'e, 's) dagLoop \<Rightarrow> bool" where
  "running d \<longleftrightarrow> d_pc d = DStart \<or> d_pc d = DPlan \<or> d_pc d = DFinal \<or> d_pc d = DWait"

text \<open>What can be planned was triggered by a task whose result the loop has yet to see.\<close>

definition planned :: "('a, 'e, 's) dagLoop \<Rightarrow> bool" where
  "planned d \<longleftrightarrow> (running d \<and> \<not> d_draining d \<and> plannable (d_x d) \<longrightarrow> (\<exists>w \<in> set (d_workers d). w_ran w) \<or> d_done d \<noteq> [])"

definition idle :: "('a, 'e, 's) dagLoop \<Rightarrow> bool" where
  "idle d \<longleftrightarrow> ((d_pc d = DPlan \<or> d_pc d = DFinal \<or> d_pc d = DWait) \<and> \<not> d_draining d \<and> no_flight d \<longrightarrow> d_ready d = [])"

definition busy :: "('a, 'e, 's) dagLoop \<Rightarrow> bool" where
  "busy d \<longleftrightarrow> (d_pc d = DWait \<longrightarrow> \<not> no_flight d)"

definition lively :: "('a, 'e, 's) dagLoop \<Rightarrow> bool" where
  "lively d \<longleftrightarrow> planned d \<and> idle d \<and> busy d"

lemma no_flight_flying: "one_per_node d \<Longrightarrow> no_flight d \<longleftrightarrow> flying d = []"
proof -
  have "no_flight d \<longleftrightarrow> in_flight d = {}" by (simp add: no_flight_def dom_map_of_conv_image_fst)
  then show "one_per_node d \<Longrightarrow> no_flight d \<longleftrightarrow> flying d = []" unfolding one_per_node_def by (metis set_empty)
qed

lemma lively_start:
  assumes s: "safe ex s0 d" and m: "0 < ex_maxConcurrency ex" and p: "d_pc d = DStart" and l: "lively d"
  shows "lively (dag_start ex d)"
proof (cases rule: dag_start_cases [of d ex])
  case stop
  then show ?thesis using l p by (auto simp: lively_def planned_def idle_def busy_def running_def)
next
  case (next_task t ts d' r)
  have pl: "plannable (d_x d) \<Longrightarrow> (\<exists>w \<in> set (d_workers d). w_ran w) \<or> d_done d \<noteq> []"
    using l next_task(1) p by (auto simp: lively_def planned_def running_def)
  show ?thesis
    using next_task(3)
  proof (cases rule: startTask_cases)
    case dropped
    then show ?thesis using pl p by (auto simp: next_task(4) lively_def planned_def idle_def busy_def running_def)
  next
    case waiting
    then show ?thesis using pl p by (auto simp: next_task(4) lively_def planned_def idle_def busy_def running_def)
  next
    case refused
    note c = calmD [OF refused(2)]
    have "\<not> no_flight d" if "ex_maxConcurrency ex \<le> d_sem d"
    proof -
      have "d_workers d \<noteq> []" using s m that by (auto simp: safe_def slots_def)
      then show ?thesis using s no_flight_flying [of d] by (auto simp: safe_def flying_def)
    qed
    then show ?thesis
      using refused(1,3) pl c by (auto simp: next_task(4) lively_def planned_def idle_def busy_def running_def no_flight_def)
  next
    case (started d1 u)
    note c = calmD [OF started(2)]
    show ?thesis using started(1,8) pl c p by (auto simp: next_task(4) lively_def planned_def idle_def busy_def running_def)
  qed
qed

lemma lively_plan:
  assumes s: "safe ex s0 d" and p: "d_pc d = DPlan" and l: "lively d"
  shows "lively ((planIfIdle d)\<lparr>d_pc := DFinal\<rparr>)"
proof (cases "d_draining d \<or> d_ready d \<noteq> []")
  case True
  then show ?thesis
    using l p by (auto simp: planIfIdle_def lively_def planned_def idle_def busy_def running_def no_flight_def)
next
  case False
  obtain ts x where q: "queuePlannedTasks d = d\<lparr>d_x := x, d_ready := d_ready d @ ts\<rparr>" and np: "\<not> plannable x"
    and ts: "\<not> plannable (d_x d) \<Longrightarrow> ts = []" by (rule queuePlanned [of d]) blast
  have "ts = []" if "no_flight d"
  proof (rule ts)
    have "flying d = []" using no_flight_flying [of d] s that by (simp add: safe_def)
    then have "d_workers d = []" "d_done d = []" by (simp_all add: flying_def)
    then show "\<not> plannable (d_x d)" using l False p by (auto simp: lively_def planned_def running_def)
  qed
  then show ?thesis
    using False np by (auto simp: planIfIdle_def q lively_def planned_def idle_def busy_def running_def no_flight_def)
qed

lemma tryFinalize_pc:
  "d_pc (tryFinalize ex d) \<noteq> DWait \<Longrightarrow> \<exists>r. d_pc (tryFinalize ex d) = DEnd r"
  "d_pc (tryFinalize ex d) = DWait \<Longrightarrow> tryFinalize ex d = d\<lparr>d_pc := DWait\<rparr> \<and> (\<not> no_flight d \<or> \<not> d_draining d \<and> d_ready d \<noteq> [])"
  by (auto simp: tryFinalize_def finalizeInterrupt_def Let_def split: option.splits if_splits prod.splits)

lemma lively_final:
  assumes p: "d_pc d = DFinal" and l: "lively d"
  shows "lively (tryFinalize ex d)"
proof (cases "d_pc (tryFinalize ex d) = DWait")
  case True
  note t = tryFinalize_pc(2) [OF True]
  have "\<not> no_flight d" using t l p by (auto simp: lively_def idle_def)
  then show ?thesis using t l p by (auto simp: lively_def planned_def idle_def busy_def running_def no_flight_def)
next
  case False
  from tryFinalize_pc(1) [OF this] show ?thesis by (auto simp: lively_def planned_def idle_def busy_def running_def)
qed

lemma lively_result:
  assumes s: "safe ex s0 d" and r: "d_done d = res # rest"
  shows "lively ((handleTaskResult ex res (d\<lparr>d_done := rest\<rparr>))\<lparr>d_pc := DStart\<rparr>)"
proof -
  obtain t step err where res: "res = (t, step, err)" by (cases res)
  have i: "tk_NodeID t \<noteq> []" using s by (auto simp: safe_def one_per_node_def flying_def r res)
  let ?h = "handleTaskResult ex (t, step, err) (d\<lparr>d_done := rest\<rparr>)"
  obtain d1 where "(\<exists>d2 rr. err \<noteq> None \<and> calm d1 d2 \<and> d_draining d2 \<and> ?h = d2\<lparr>d_rerunNodes := rr\<rparr>) \<or>
     (\<exists>d2. err = None \<and> calm (d1\<lparr>d_executed := d_executed (d\<lparr>d_done := rest\<rparr>) + 1\<rparr>) d2 \<and>
        (?h = d2 \<and> d_draining d2 \<or> ?h = queuePlannedTasks d2 \<and> \<not> d_draining d2))"
    by (rule handleTaskResult_cases [OF i, of "d\<lparr>d_done := rest\<rparr>" err ex step])
  then have "d_draining ?h \<or> \<not> plannable (d_x ?h)"
  proof (elim disjE exE conjE)
    fix d2 assume h: "?h = queuePlannedTasks d2"
    show ?thesis unfolding h by (rule queuePlanned [of d2]) simp
  qed simp_all
  then show ?thesis by (auto simp: res lively_def planned_def idle_def busy_def running_def)
qed

lemma lively_step:
  "dag_step ex b d d' \<Longrightarrow> safe ex s0 d \<Longrightarrow> 0 < ex_maxConcurrency ex \<Longrightarrow> lively d \<Longrightarrow> lively d'"
proof (induction rule: dag_step.induct)
  case (loop_start d b)
  then show ?case using lively_start by blast
next
  case (loop_plan d b)
  then show ?case using lively_plan by blast
next
  case (loop_final d b)
  then show ?case using lively_final by blast
next
  case (loop_result d res rest b)
  then show ?case using lively_result by blast
next
  case (loop_context d)
  then show ?case
    by (auto simp: handleContextDone_def startDraining_def lively_def planned_def idle_def busy_def running_def)
qed (auto simp: lively_def planned_def idle_def busy_def running_def no_flight_def)

lemma running_progress:
  assumes s: "safe ex s0 d" and m: "0 < ex_maxConcurrency ex" and l: "lively d" and r: "running d"
  shows "\<exists>d'. dag_step ex False d d'"
proof (cases "d_pc d = DWait")
  case True
  have "flying d \<noteq> []" using l True s no_flight_flying [of d] by (auto simp: lively_def busy_def safe_def)
  then consider res rest where "d_done d = res # rest" | w ws where "d_done d = []" "d_workers d = w # ws"
    by (cases "d_done d"; cases "d_workers d") (auto simp: flying_def)
  then show ?thesis
  proof cases
    case 1
    then show ?thesis using loop_result [of d res rest ex False] True by blast
  next
    case 2
    have nc: "d_pc d \<noteq> DCrashed" using True by simp
    show ?thesis
    proof (cases w)
      case (WRun t step)
      obtain x err where e: "executeSingleTask (ex_oneShot ex) t step (d_x d) = (x, err)" by fastforce
      have w: "d_workers d = [] @ WRun t step # ws" using 2 WRun by simp
      show ?thesis
        using work_run [OF nc w e, of False] work_crash [OF nc w, where x = x and b = False] e by (cases "err = Some TaskPanic") auto
    next
      case (WRelease t step err)
      then have "d_workers d = [] @ WRelease t step err # ws" using 2 by simp
      from work_release [OF nc this] show ?thesis by blast
    next
      case (WSend t step err)
      then have "d_workers d = [] @ WSend t step err # ws" using 2 by simp
      from work_send [OF nc this, of ex] show ?thesis using 2 m by auto
    qed
  qed
next
  case False
  then show ?thesis using r loop_start loop_plan loop_final unfolding running_def by blast
qed

section \<open>Termination\<close>

fun w_weight :: "('a, 'e) worker \<Rightarrow> nat" where
  "w_weight (WRun t step) = 4" | "w_weight (WRelease t step e) = 3" | "w_weight (WSend t step e) = 2"

fun pc_rank :: "'e dag_pc \<Rightarrow> nat" where
  "pc_rank DStart = 4" | "pc_rank DPlan = 3" | "pc_rank DFinal = 2" | "pc_rank DWait = 1" | "pc_rank (DEnd r) = 1" | "pc_rank DCrashed = 0"

definition dag_measure :: "('a, 'e, 's) Executor \<Rightarrow> ('a, 'e, 's) dagLoop \<Rightarrow> nat \<times> nat \<times> nat" where
  "dag_measure ex d =
     (5 * nat (ex_maxSteps ex - d_nextStep d) + sum_list (map w_weight (d_workers d)) + length (d_done d),
      pc_rank (d_pc d), length (d_ready d))"

abbreviation dag_less :: "((nat \<times> nat \<times> nat) \<times> (nat \<times> nat \<times> nat)) set" where
  "dag_less \<equiv> less_than <*lex*> less_than <*lex*> less_than"

lemma measure_start: "d_pc d = DStart \<Longrightarrow> (dag_measure ex (dag_start ex d), dag_measure ex d) \<in> dag_less"
proof (cases rule: dag_start_cases [of d ex])
  case stop
  assume "d_pc d = DStart"
  then show ?thesis using stop by (simp add: dag_measure_def)
next
  case (next_task t ts d' r)
  assume p: "d_pc d = DStart"
  show ?thesis
    using next_task(3)
  proof (cases rule: startTask_cases)
    case dropped
    then show ?thesis using p next_task by (simp add: dag_measure_def)
  next
    case waiting
    then show ?thesis using p next_task by (simp add: dag_measure_def)
  next
    case refused
    then show ?thesis using p next_task calmD [OF refused(2)] by (simp add: dag_measure_def)
  next
    case (started d1 u)
    note c = calmD [OF started(2)]
    have "nat (ex_maxSteps ex - d_nextStep d) = Suc (nat (ex_maxSteps ex - (d_nextStep d + 1)))" using started(6) by simp
    then show ?thesis using p next_task started c by (simp add: dag_measure_def)
  qed
qed

lemma result_measure:
  assumes "tk_NodeID (fst res) \<noteq> []"
  shows "d_nextStep (handleTaskResult ex res d) = d_nextStep d \<and> d_workers (handleTaskResult ex res d) = d_workers d \<and>
    d_done (handleTaskResult ex res d) = d_done d"
proof -
  obtain t step err where res: "res = (t, step, err)" by (cases res)
  have i: "tk_NodeID t \<noteq> []" using assms by (simp add: res)
  obtain d1 where d1: "d1 = d\<lparr>d_inFlight := AList.delete (tk_NodeID t) (d_inFlight d),
        d_ready := d_ready d @ (case map_of (d_waiting d) (tk_NodeID t) of None \<Rightarrow> [] | Some ts \<Rightarrow> ts),
        d_waiting := AList.delete (tk_NodeID t) (d_waiting d)\<rparr>"
    and c: "(\<exists>d2 rr. err \<noteq> None \<and> calm d1 d2 \<and> d_draining d2 \<and> handleTaskResult ex (t, step, err) d = d2\<lparr>d_rerunNodes := rr\<rparr>) \<or>
     (\<exists>d2. err = None \<and> calm (d1\<lparr>d_executed := d_executed d + 1\<rparr>) d2 \<and>
        (handleTaskResult ex (t, step, err) d = d2 \<and> d_draining d2 \<or>
         handleTaskResult ex (t, step, err) d = queuePlannedTasks d2 \<and> \<not> d_draining d2))"
    by (rule handleTaskResult_cases [OF i, of d err ex step])
  from c show ?thesis unfolding res
  proof (elim disjE exE conjE)
    fix d2 assume k: "calm (d1\<lparr>d_executed := d_executed d + 1\<rparr>) d2" and h: "handleTaskResult ex (t, step, err) d = queuePlannedTasks d2"
    show "d_nextStep (handleTaskResult ex (t, step, err) d) = d_nextStep d \<and> d_workers (handleTaskResult ex (t, step, err) d) = d_workers d \<and>
        d_done (handleTaskResult ex (t, step, err) d) = d_done d"
      unfolding h by (rule queuePlanned [of d2]) (use calmD [OF k] in \<open>simp add: d1\<close>)
  qed (auto dest: calmD simp: d1)
qed

lemma step_decreases:
  "dag_step ex b d d' \<Longrightarrow> \<not> b \<Longrightarrow> safe ex s0 d \<Longrightarrow> (dag_measure ex d', dag_measure ex d) \<in> dag_less"
proof (induction rule: dag_step.induct)
  case (loop_start d b)
  then show ?case using measure_start by blast
next
  case (loop_plan d b)
  show ?case
  proof (cases "d_draining d \<or> d_ready d \<noteq> []")
    case True
    then show ?thesis using loop_plan by (auto simp: planIfIdle_def dag_measure_def)
  next
    case False
    show ?thesis
      by (rule queuePlanned [of d]) (use loop_plan False in \<open>simp add: planIfIdle_def dag_measure_def\<close>)
  qed
next
  case (loop_final d b)
  have "d_nextStep (tryFinalize ex d) = d_nextStep d \<and> d_workers (tryFinalize ex d) = d_workers d \<and> d_done (tryFinalize ex d) = d_done d"
    by (auto simp: tryFinalize_def finalizeInterrupt_def maybeCreateFinalCheckpoint_def Let_def split: option.splits prod.splits)
  moreover have "pc_rank (d_pc (tryFinalize ex d)) = 1"
    using tryFinalize_pc(1) [of ex d] by (cases "d_pc (tryFinalize ex d) = DWait") auto
  ultimately show ?case using loop_final by (simp add: dag_measure_def)
next
  case (loop_result d res rest b)
  have "tk_NodeID (fst res) \<noteq> []" using loop_result by (auto simp: safe_def one_per_node_def flying_def)
  from result_measure [OF this, of ex "d\<lparr>d_done := rest\<rparr>"] show ?case using loop_result by (simp add: dag_measure_def)
next
  case (loop_context d)
  then show ?case by simp
next
  case (work_crash d ws t step ws' x b)
  then have "0 < pc_rank (d_pc d)" by (cases "d_pc d") simp_all
  then show ?case by (simp add: dag_measure_def)
qed (simp_all add: dag_measure_def)

lemma no_infinite_run:
  assumes "\<And>i. dag_step ex False (f i) (f (Suc i))" "safe ex s0 (f 0)"
  shows False
proof -
  have s: "safe ex s0 (f i)" for i by (induction i) (use assms safe_step in blast)+
  have "wf dag_less" by (intro wf_lex_prod wf_less_than)
  then obtain i where "(dag_measure ex (f (Suc i)), dag_measure ex (f i)) \<notin> dag_less"
    unfolding wf_iff_no_infinite_down_chain by (metis comp_apply)
  then show False using step_decreases [OF assms(1) _ s] by blast
qed

text \<open>The wake-up of a waiting loop by the end of its context is the only step that needs it.\<close>

definition context_wakes :: "('a, 'e, 's) dagLoop \<Rightarrow> ('a, 'e, 's) dagLoop \<Rightarrow> bool" where
  "context_wakes d d' \<longleftrightarrow> d_pc d = DWait \<and> d' = (handleContextDone d)\<lparr>d_pc := DStart\<rparr>"

lemma step_or_wakes: "dag_step ex b d d' \<Longrightarrow> dag_step ex False d d' \<or> b \<and> context_wakes d d'"
  by (induction rule: dag_step.induct) (auto simp: context_wakes_def simp del: One_nat_def intro: dag_step.intros)

lemma dag_reach_lively:
  assumes "dag_reach ex d0 d" "lively d0" "safe ex s0 d0" "0 < ex_maxConcurrency ex"
  shows "lively d"
  using assms
proof induction
  case (reach_step d b d')
  then show ?case using lively_step dag_reach_safe by blast
qed

lemma run_reach:
  assumes "\<forall>i. dag_step ex (b i) (f i) (f (Suc i))"
  shows "dag_reach ex (f 0) (f n)"
proof (induction n)
  case (Suc n)
  then show ?case using assms reach_step by blast
qed (rule reach_start)

lemma infinite_run_wakes:
  assumes "\<And>n. safe ex s0 (f n)" "\<forall>i. dag_step ex (b i) (f i) (f (Suc i))"
  shows "\<exists>i \<ge> n. b i \<and> context_wakes (f i) (f (Suc i))"
proof (rule ccontr)
  assume "\<not> ?thesis"
  then have "\<forall>i. dag_step ex False (f (n + i)) (f (n + Suc i))"
    using assms(2) step_or_wakes by (metis add_Suc_right le_add1)
  then show False using no_infinite_run [of ex "\<lambda>i. f (n + i)" s0] assms(1) [of n] by simp
qed

section \<open>Fresh runs\<close>

lemma plannable_save:
  assumes "createCheckpointAndSave ex initial step (x, s) = (y, s')"
  shows "plannable y = plannable x"
  using save_tokens(2,3,6) [OF assms] by (simp add: plannable_def)

lemma createDagTasks_plannable: "createDagTasks is x = (y, ts) \<Longrightarrow> plannable y = plannable x"
  using createDagTasks_frame [of "is" x y ts] by (simp add: plannable_def)

lemma seed_plannable: "newDagLoop xs s0 = Inr d \<Longrightarrow> plannable (d_x d) = plannable (fst xs)"
proof -
  have next_nodes: "plannable (fst xs\<lparr>x_nextNodes := None\<rparr>) = plannable (fst xs)" by (simp add: plannable_def)
  show "newDagLoop xs s0 = Inr d \<Longrightarrow> plannable (d_x d) = plannable (fst xs)"
    by (auto simp: newDagLoop_def dag_seed_def Let_def d_queue_def next_nodes simp del: createDagTasks.simps
        dest!: createDagTasks_plannable split: if_splits option.splits list.splits prod.splits)
qed

lemma fresh_lively:
  assumes d: "good_digest sha (fst ` all_joins ops)" and c: "sg_Compile (build sha schema ops) = Inr g"
    and st: "startRun ex g entries initial s = (xs, s0)" and n: "newDagLoop xs s0 = Inr d0"
  shows "lively d0 \<and> running d0 \<and> safe ex s0 d0"
proof -
  let ?st = "initializeState ex g initial"
  define x0 where "x0 = initializeChannels (entries ?st) True (buildExecutionContext g ?st False None)"
  have sx: "createCheckpointAndSave ex True (- 1) (x0, s) = xs" using st by (simp add: startRun_def Let_def x0_def)
  have tr: "graph_triggers ch g \<noteq> [] \<Longrightarrow> ch \<noteq> ''input:'' @ key" for ch key
    using wired_triggersD(3) [of sha _ _ g ch] compiled_wired [OF d c] no_input unfolding wired_def by metis
  have "\<not> plannable x0"
    using start_unavailable [OF c x0_def] tr by (auto simp: plannable_def x0_def buildExecutionContext_def)
  then have "\<not> plannable (fst xs)" using plannable_save [of ex True "- 1" x0 s "fst xs" "snd xs"] sx by simp
  then have "\<not> plannable (d_x d0)" using seed_plannable [OF n] by simp
  moreover note newDagLoop_safe [OF n, of ex]
  ultimately show ?thesis by (auto simp: lively_def planned_def idle_def busy_def running_def)
qed

section \<open>The properties of the DAG engine\<close>

text \<open>
  C8. In every state that a run of the DAG engine can reach, fresh or resumed, under any
  interleaving with its goroutines: each node has at most one task in flight, and exactly the nodes
  in flight have a goroutine or a result; no more goroutines hold a slot than the limit; the tasks
  finished and in flight are no more than the steps allowed; and a task waits only for a node that
  is in flight.
\<close>

theorem dag_safety:
  assumes "newDagLoop xs s0 = Inr d0" and "dag_reach ex d0 d"
  shows "distinct (flying d) \<and> set (flying d) = in_flight d \<and>
    length (filter w_holds (d_workers d)) \<le> ex_maxConcurrency ex \<and>
    int (d_executed d + length (flying d)) \<le> max 0 (ex_maxSteps ex - s0) \<and>
    {i. \<exists>ts. map_of (d_waiting d) i = Some ts \<and> ts \<noteq> []} \<subseteq> in_flight d"
proof -
  have "safe ex s0 d" using dag_reach_safe [OF assms(2)] newDagLoop_safe [OF assms(1)] by blast
  then show ?thesis
    by (auto simp: safe_def one_per_node_def slots_def budget_def waits_def max_def split: if_splits)
qed


section \<open>The diamond again\<close>

lemma diamond_loop:
  obtains d0 where "newDagLoop (fst (diamond_run 0)) 0 = Inr d0" "d_pc d0 = DStart" "flying (dag_start diamond_executor d0) = [''a'']"
proof -
  have "case newDagLoop (fst (diamond_run 0)) 0 of
      Inl _ \<Rightarrow> False | Inr d \<Rightarrow> d_pc d = DStart \<and> flying (dag_start diamond_executor d) = [''a'']" by code_simp
  then show ?thesis using that by (auto split: sum.splits)
qed

theorem dag_safety_witness:
  "\<exists>d0 d. newDagLoop (fst (diamond_run 0)) 0 = Inr d0 \<and> dag_reach diamond_executor d0 d \<and> flying d = [''a''] \<and>
     in_flight d = {''a''} \<and> length (filter w_holds (d_workers d)) \<le> 2"
proof -
  obtain d0 where d0: "newDagLoop (fst (diamond_run 0)) 0 = Inr d0" "d_pc d0 = DStart" "flying (dag_start diamond_executor d0) = [''a'']"
    by (rule diamond_loop)
  have r: "dag_reach diamond_executor d0 (dag_start diamond_executor d0)"
    by (rule reach_step [OF reach_start loop_start [OF d0(2)]])
  from dag_safety [OF d0(1) r] show ?thesis using d0 r by (auto simp: diamond_executor_def)
qed


end
