(* ===== verification/GraphDagCases.thy ===== *)
theory GraphDagCases
  imports GraphDagInv GraphResume
begin

text \<open>
  Runs of the DAG engine that do not do what a caller expects: a resumed run that waits for ever, a
  loop that spins when its context has ended, and a panic that ends the process.
\<close>

section \<open>Resuming\<close>

lemma initializeChannels_keeps:
  "x_graph (initializeChannels es upd x) = x_graph x \<and> x_resumed (initializeChannels es upd x) = x_resumed x \<and>
   x_nextNodes (initializeChannels es upd x) = x_nextNodes x"
  by (induction es upd x rule: initializeChannels.induct) (auto simp: Let_def)

lemma dag_stuck:
  assumes "d_pc d = DWait" "d_done d = []" "d_workers d = []"
  shows "\<not> dag_step ex False d d'"
  using assms by (auto elim!: dag_step.cases)

text \<open>
  \<open>planIfIdle\<close> queues what the channels trigger after \<open>startReadyTasks\<close> has run, so a loop in which nothing
  is in flight goes on to wait for a result that no goroutine will send.
\<close>

lemma idle_plan_waits:
  assumes "d_pc d = DPlan" "\<not> d_draining d" "d_ready d = []" "no_flight d" "d_done d = []" "d_workers d = []"
    "d_pendingIntr d = None" "planDagTasks (d_x d) = (x, ts)" "ts \<noteq> []"
  obtains e where "dag_step ex False d (e\<lparr>d_pc := DFinal\<rparr>)" "dag_step ex False (e\<lparr>d_pc := DFinal\<rparr>) e"
    "d_pc e = DWait" "d_ready e = ts" "\<And>e'. \<not> dag_step ex False e e'"
proof -
  define e where "e = d\<lparr>d_x := x, d_ready := ts, d_pc := DWait\<rparr>"
  have "(planIfIdle d)\<lparr>d_pc := DFinal\<rparr> = e\<lparr>d_pc := DFinal\<rparr>"
    using assms by (simp add: planIfIdle_def queuePlannedTasks_def d_queue_def e_def)
  then have 1: "dag_step ex False d (e\<lparr>d_pc := DFinal\<rparr>)" using loop_plan [OF assms(1), of ex False] by simp
  have "tryFinalize ex (e\<lparr>d_pc := DFinal\<rparr>) = e"
    using assms by (simp add: tryFinalize_def no_flight_def e_def)
  then have 2: "dag_step ex False (e\<lparr>d_pc := DFinal\<rparr>) e" using loop_final [of "e\<lparr>d_pc := DFinal\<rparr>" ex False] by simp
  have 3: "\<not> dag_step ex False e e'" for e' by (rule dag_stuck) (simp_all add: assms e_def)
  show thesis by (rule that [OF 1 2 _ _ 3]) (simp_all add: e_def)
qed

text \<open>
  So a run that is resumed from a checkpoint with pending writes waits for ever when these writes
  trigger a node: no step is possible until its context ends.
\<close>

lemma dag_resume_waits:
  assumes "resumeRun ex g entries overrides initial tu s = ((x, s'), step)" "tu_PendingWrites tu \<noteq> []"
    "g_entryPoint g \<noteq> []" "planDagTasks x = (x', ts)" "ts \<noteq> []"
  obtains d e where "newDagLoop (x, s') step = Inr d" "dag_reach ex d e" "d_ready e = ts" "\<And>e'. \<not> dag_step ex False e e'"
proof -
  have x: "x_graph x = g \<and> x_resumed x \<and> x_nextNodes x = None"
    using assms(1,2) by (auto simp: resumeRun_def Let_def applyExecutableNextNodes_def applyPendingWrites_def
        buildExecutionContext_def initializeChannels_keeps split: if_splits)
  define d where "d = \<lparr>d_x = x, d_store = s', d_pc = DStart, d_executed = 0, d_nextStep = step, d_ready = [],
       d_inFlight = [], d_waiting = [], d_sem = 0, d_done = [], d_workers = [], d_draining = False,
       d_drainErr = None, d_drainMaxStep = False, d_pendingIntr = None, d_pendingIntrStep = 0, d_rerunNodes = []\<rparr>"
  have 0: "newDagLoop (x, s') step = Inr d"
    using x assms(3) by (simp add: newDagLoop_def dag_seed_def d_def Let_def)
  have "dag_start ex d = d\<lparr>d_pc := DPlan\<rparr>" by (simp add: dag_start_def d_def)
  then have 1: "dag_step ex False d (d\<lparr>d_pc := DPlan\<rparr>)"
    using loop_start [of d ex False] by (simp add: d_def)
  obtain e where 2: "dag_step ex False (d\<lparr>d_pc := DPlan\<rparr>) (e\<lparr>d_pc := DFinal\<rparr>)" "dag_step ex False (e\<lparr>d_pc := DFinal\<rparr>) e"
    "d_ready e = ts" "\<And>e'. \<not> dag_step ex False e e'"
    by (rule idle_plan_waits [of "d\<lparr>d_pc := DPlan\<rparr>" x' ts ex]) (simp_all add: d_def no_flight_def assms)
  show thesis using that [OF 0 _ 2(3,4)] reach_step [OF reach_step [OF reach_step [OF reach_start 1] 2(1)] 2(2)] by blast
qed

text \<open>On a chain a, b, c whose run was stopped after a, the resumed run waits with b ready.\<close>

lemma graph_dag_resume_hangs:
  "\<exists>xs step d e. resumeRun (keeper 10) chain_graph (\<lambda>_. []) {} Map.empty (fresh_checkpoint 1 chain_graph) [] = (xs, step) \<and>
     newDagLoop xs step = Inr d \<and> dag_reach (keeper 10) d e \<and> map tk_NodeID (d_ready e) = [''b''] \<and>
     (\<forall>e'. \<not> dag_step (keeper 10) False e e')"
proof -
  obtain x s step where r: "resumeRun (keeper 10) chain_graph (\<lambda>_. []) {} Map.empty (fresh_checkpoint 1 chain_graph) [] = ((x, s), step)"
    by (metis prod.collapse)
  obtain x' ts where p: "planDagTasks x = (x', ts)" by fastforce
  have "map tk_NodeID (snd (planDagTasks (fst (fst
      (resumeRun (keeper 10) chain_graph (\<lambda>_. []) {} Map.empty (fresh_checkpoint 1 chain_graph) []))))) = [''b'']"
    by code_simp
  then have ts: "map tk_NodeID ts = [''b'']" by (simp add: r p)
  have w: "tu_PendingWrites (fresh_checkpoint 1 chain_graph) \<noteq> []"
  proof -
    have "length (tu_PendingWrites (fresh_checkpoint 1 chain_graph)) = 1" by code_simp
    then show ?thesis by auto
  qed
  have g: "g_entryPoint chain_graph \<noteq> []"
  proof -
    have "g_entryPoint chain_graph = ''a''" by code_simp
    then show ?thesis by simp
  qed
  have "ts \<noteq> []" using ts by auto
  from dag_resume_waits [OF r w g p this] ts r show ?thesis by metis
qed

section \<open>The end of the context\<close>

text \<open>While a task is in flight, a loop that drains returns from \<open>waitForEvent\<close> at once: it spins.\<close>

lemma graph_dag_busy_wait:
  assumes "d_pc d = DWait" "d_draining d" "\<not> no_flight d"
  shows "dag_step ex True d (d\<lparr>d_pc := DStart\<rparr>) \<and> dag_step ex True (d\<lparr>d_pc := DStart\<rparr>) (d\<lparr>d_pc := DPlan\<rparr>) \<and>
    dag_step ex True (d\<lparr>d_pc := DPlan\<rparr>) (d\<lparr>d_pc := DFinal\<rparr>) \<and> dag_step ex True (d\<lparr>d_pc := DFinal\<rparr>) d"
proof (intro conjI)
  show "dag_step ex True d (d\<lparr>d_pc := DStart\<rparr>)"
    using loop_context [OF assms(1), of ex] assms(2) by (simp add: handleContextDone_def startDraining_def)
  show "dag_step ex True (d\<lparr>d_pc := DStart\<rparr>) (d\<lparr>d_pc := DPlan\<rparr>)"
    using loop_start [of "d\<lparr>d_pc := DStart\<rparr>" ex True] assms(2) by (simp add: dag_start_def)
  show "dag_step ex True (d\<lparr>d_pc := DPlan\<rparr>) (d\<lparr>d_pc := DFinal\<rparr>)"
    using loop_plan [of "d\<lparr>d_pc := DPlan\<rparr>" ex True] assms(2) by (simp add: planIfIdle_def)
  have "tryFinalize ex (d\<lparr>d_pc := DFinal\<rparr>) = d\<lparr>d_pc := DWait\<rparr>"
    using assms(2,3) by (simp add: tryFinalize_def no_flight_def)
  also have "\<dots> = d" using assms(1) by simp
  finally show "dag_step ex True (d\<lparr>d_pc := DFinal\<rparr>) d"
    using loop_final [of "d\<lparr>d_pc := DFinal\<rparr>" ex True] by simp
qed

section \<open>Panics\<close>

text \<open>A nil command in a fan-out fails the superstep of one engine and ends the process of the other.\<close>

lemma graph_panic_fails_superstep: "end_run (ResCommands [None]) = BspFailed TaskPanic"
  by code_simp

lemma command_tasks_None: "None \<in> set cs \<Longrightarrow> command_tasks cs idx t source next x = None"
  by (induction cs idx t source "next" x rule: command_tasks.induct) (auto simp: Let_def)

lemma graph_dag_panic_crashes:
  assumes "d_pc d \<noteq> DCrashed" "WRun t step \<in> set (d_workers d)" "executeNodeFunction t (d_x d) = Inr (ResCommands cs)"
    "None \<in> set cs"
  shows "\<exists>e. dag_step ex b d e \<and> d_pc e = DCrashed"
proof -
  have "executeSingleTask (ex_oneShot ex) t step (d_x d) = (d_x d, Some TaskPanic)"
    using assms(3,4)
    by (simp add: executeSingleTask_def finalizeSuccessfulExecution_def handleNodeResult_def enqueueCommands_def Let_def command_tasks_None image_iff)
  moreover obtain ws ws' where "d_workers d = ws @ WRun t step # ws'" using assms(2) by (auto simp: in_set_conv_decomp)
  ultimately show ?thesis using work_crash [OF assms(1)] by fastforce
qed

end
