(* ===== verification/Spec2Isabelle.thy ===== *)
theory Spec2Isabelle
  imports Money CircuitBreaker SreBreaker Retry CacheAside Trie Consistent Bitmap CountingBloom Idempotency Limiter FeatureFlag Diff QueueSchedInv GraphResume GraphDagCases
begin

text \<open>
  A verification library for the base packages of the repository (Go module directory
  \<open>common/\<close>), which every service of the repository builds on, and for the graph engine of its agent
  framework (\<open>agentkit/graph\<close>). Each theory translates the Go source of one package, operation by
  operation, and proves what the package promises.

  Parts of the program and how they interact

  The base packages are libraries with in-process state, called by the services above them.
  Most are independent of each other; where one calls another, the theories compose the models:

  \<^item> \<open>common/cache/cacheaside.go\<close> runs over any \<open>Cache\<close> and any lock (theory CacheAside over Cache
    and Lock); \<open>cache/multilevel\<close> runs over two caches (Cache).
  \<^item> \<open>common/retry\<close> wraps attempts, and may wrap the \<open>Execute\<close> of a circuit breaker (Retry over
    CircuitBreaker).
  \<^item> \<open>common/idempotency\<close> runs a handler over any storage (Idempotency).
  \<^item> The schedulers of \<open>common/queue\<close> take tasks from a queue, run them, and acknowledge or requeue
    them (QueueSched over Queue).
  \<^item> \<open>common/bloom\<close> and \<open>common/bitmap\<close> keep their bits in byte slices the same way (BitBytes).
  \<^item> In \<open>agentkit/graph\<close> a builder compiles a graph of nodes, edges, joins and conditions into
    channels, triggers and writers; two engines run it: one in supersteps, the other with a loop and a
    goroutine for every task. What a task writes to channels decides which nodes run next, and
    checkpoints save the channels' versions, the writes and the nodes to go on with.

  Conventions

  A Go struct is a record with its fields, an interface a record of functions, an error a value of
  a datatype (a result \<open>(T, error)\<close> is a sum, an \<open>error\<close> an option), a pointer that is shared an
  address into a store, and a method that locks its mutex one function from state to state.
  Machine integers are words where a wrap-around can be seen (\<open>int64\<close>, \<open>uint32\<close>, 4-bit counters in
  bytes), and unbounded integers for times, durations and indices, which the code only compares or
  adds far from their limits. Each reading of the clock is an argument, as are the context, the random
  number and the result of a caller's function. Where callers interleave between critical sections,
  a step relation says so (\<open>cb_step\<close>, \<open>idem_step\<close>, \<open>al_step\<close>, \<open>sched_step\<close>, \<open>dag_step\<close>), or runs are lists of calls
  (Lock, Consistent, Queue, Limiter). Go maps are finite maps, or association lists, in the
  order in which the entries were made, where the code ranges over them.

  Theories

  \<^item> GoPrelude: time, contexts, results, lists, signed words. GoDecimal: the text of decimals as
    \<open>strconv\<close> and \<open>strings\<close> read and print it. Float64: rounding of a real to a double.
  \<^item> Money (\<open>common/money/money.go\<close>): amounts in \<open>int64\<close> cents. Allocation gives away exactly the
    amount, in shares as near to proportional as whole cents allow; printing and parsing are inverse;
    \<open>NewFromFloat\<close> rounds half up the decimal text of its argument.
  \<^item> CircuitBreaker (\<open>common/circuitbreaker/circuitbreaker.go\<close>): one function per critical section
    of the three-state breaker, and the interleavings of any number of \<open>Execute\<close> calls: a half-open
    breaker never lets more than its limit of probes through, the ring buffer of results is the list
    of the recent ones, an open breaker refuses until its timeout and then recovers.
  \<^item> SreBreaker (\<open>sre.go\<close>): the rolling counter over time slots counts the calls of the window.
  \<^item> Retry (\<open>common/retry/retry.go\<close>): backoff and the loop of \<open>Do\<close> as a partial function of its
    environment; it returns within its attempts, with the callbacks in order, and composed with a
    breaker it stops when the circuit is open. The locale \<open>breaker\<close> is the contract it relies on,
    interpreted (\<open>cbx\<close>) by the model of CircuitBreaker.
  \<^item> Lock (\<open>common/lock\<close>, \<open>lock/memory\<close>): leases; a mutex that holds a lease excludes all others
    until it expires, and a former owner can neither extend nor release.
  \<^item> Cache (\<open>common/cache\<close>, \<open>cache/memory\<close>, \<open>cache/multilevel\<close>): the interface as the locale
    \<open>cache\<close>, interpreted by the memory cache (\<open>mem\<close>); the locale \<open>two_caches\<close> takes two of them, and
    a sublocale shows the two-level cache to be one again (\<open>mm\<close>).
  \<^item> CacheAside (\<open>cacheaside.go\<close>, \<open>helpers.go\<close>): \<open>GetOrLoad\<close> with null markers and a lock, in the
    locale \<open>byte_cache\<close> (interpreted by two levels of memory cache, \<open>mmb\<close>) and \<open>locker\<close> (by the
    memory lock, \<open>meml\<close>): what it returns and stores, that a second load finds the first one's value,
    and that it gives the lock back.
  \<^item> Trie (\<open>common/trie/trie.go\<close>): every operation refines a map from rune lists; prefix queries
    and the longest prefix.
  \<^item> Consistent (\<open>common/consistent/consistent.go\<close>): the hash ring as sorted points with owners: a
    key goes to the owner of the next point clockwise, a change of one node moves only keys from or
    to that node, \<open>GetN\<close> returns distinct nodes.
  \<^item> BitBytes, Bitmap (\<open>common/bitmap/memory\<close>), Bloom (\<open>common/bloom\<close>), CountingBloom
    (\<open>common/bloom/counting\<close>): bits in byte slices refine sets of positions; the filters say yes to
    every added key and say no exactly when a bit is missing (locale \<open>membership_filter\<close>, interpreted
    by both filters, \<open>bfm\<close> and \<open>cfm\<close>); removal from the counting filter restores its counters until
    one has saturated; snapshots read back.
  \<^item> Idempotency (\<open>common/idempotency/idempotency.go\<close>): the locale \<open>storage\<close> with the handler's
    lemmas, interpreted by the memory storage (\<open>msi\<close>); one function per key succeeds under any
    interleaving.
  \<^item> Limiter (\<open>common/limiter\<close>, \<open>limiter/count\<close>, \<open>limiter/keycount\<close>): the locale \<open>permits\<close>,
    interpreted by the mutex limiter and the channel semaphore (\<open>mlp\<close>, \<open>blp\<close>); the atomic limiter as
    interleaved additions; the semaphores by key with what a cancelled waiter does to them.
  \<^item> FeatureFlag (\<open>common/featureflag/featureflag.go\<close>): evaluation and monotone roll-out.
  \<^item> Diff (\<open>common/diff/diff.go\<close>): the table computes the longest common subsequence, and the
    edit script of the walk is minimal and rebuilds both texts.
  \<^item> Queue (\<open>common/queue/types.go\<close>, \<open>queue/memory\<close>): shared tasks in a store; order of dispatch,
    and each task in one place as long as the client acknowledges only what it dequeued.
  \<^item> QueueSched (\<open>common/queue/strategy.go\<close>, \<open>capacity_scheduler.go\<close>, \<open>scheduler.go\<close>): strategies, victims, and
    the scheduler with a capacity over the memory queue as a step relation of its goroutines.
    QueueSchedInv: its invariants and properties, and the runs in which preemption breaks them.

  \<^item> GraphChannel (\<open>agentkit/graph/internal/channel\<close>): channels of every behaviour and their manager; what
    a channel holds, and when it is available, as a function of its updates since it was last
    acknowledged.
  \<^item> Graph (\<open>graph.go\<close>, \<open>state.go\<close>, \<open>state_graph.go\<close>): the structure, the schema with its merging of
    updates, and the builder. GraphWiring: what compiles is the graph that the builder calls
    describe, with exactly the channels, triggers and writers of its edges and joins.
  \<^item> GraphExec (\<open>executor.go\<close>, \<open>static_interrupt.go\<close>): the execution context, planning from channels,
    what a finished task does, and static interrupts. GraphRun: checkpoints, interrupts, the loop of
    supersteps (\<open>runBspLoop\<close>), fresh and resumed runs.
  \<^item> GraphTokens, GraphSuperstep: an abstract machine over the edges and joins of the builder calls,
    whose tokens are the nodes that are due and the start nodes that have arrived at a join, and
    the refinement: between supersteps the channels hold exactly its tokens.
  \<^item> GraphDag (\<open>executor_dag.go\<close>): the loop with its goroutines as a transition system. GraphDagInv: its
    invariant, a measure that every step decreases while the context lasts, and progress: a fresh
    run ends.
  \<^item> GraphResume, GraphDagCases: runs and resumed runs that do not do what a caller expects,
    computed on small graphs or proved for every run of the shape described.

  In each theory the definitions follow the order of the source; then come the invariants of its
  state with their preservation by every operation, the functional lemmas, the properties with
  their witnesses, and last, where the model shows behaviour a caller would not expect, lemmas
  that compute it on a concrete input.

  Bounds and fuel

  No definition takes fuel but \<open>bsp_loop\<close>, whose number is that of the supersteps left: the code's
  own limit \<open>maxSteps\<close>, at which the loop of the code ends as well. The retry loop is a partial
  function whose result is proved to exist within the attempt limit, or by an environment whose
  context ends; the other loops recurse on a list or a number. The bounds of \<open>int64\<close> are hypotheses only where the code
  wraps without a check (Money), and sizes of byte slices are below \<open>2^63\<close>.

  Not modelled, and why

  \<^item> Back ends for Redis, etcd, databases and Roaring bitmaps: their operations are commands and
    scripts run by a server or a third-party library.
  \<^item> Goroutines that only call a modelled operation on a timer (the purge of \<open>cache/memory\<close> is the
    operation \<open>purge\<close>, taken at any time), logging, metrics and JSON helpers around the operations.
  \<^item> Floating-point logarithms and powers (\<open>bloom\<close> sizing, \<open>math.Pow\<close> in backoff): parameters, or
    left out where they only choose a size.
  \<^item> The rest of \<open>common/\<close> (among it the size and token-bucket limiters, cron, trees,
    rbac, abtest), and its wrappers of codecs, protocols and services.
  \<^item> Of the graph engine: the functions of nodes with their callbacks, retries and caches (one
    argument, a function from the input to a result or an error), events, traces, metrics and time
    limits, external interrupts and resume commands, identifiers and stores of checkpoints, and
    the conversion of saved values through JSON. The tasks of a superstep are run one after the
    other, in every order, and a task of the DAG engine runs in one step.
  \<^item> The rest of the agent framework (\<open>agentkit\<close>), the model gateway (\<open>relay\<close>), \<open>voice\<close>, \<open>stores\<close>,
    \<open>providers\<close>, \<open>pentest\<close>, \<open>lingcli\<close> and \<open>bootstrap\<close>: orchestration of remote services and processes.
\<close>

end
